(* ===== verification/Prelude.thy ===== *)
theory Prelude
  imports Main "HOL-Library.Word" "HOL-Library.AList" "HOL-Library.Multiset"
    "HOL-Library.Char_ord" "HOL-Library.List_Lexorder"
begin

text \<open>
  Shared vocabulary of the development: the machine integers and byte strings of the Go
  program, Go's shift operators, the big-endian codec of \<^verbatim>\<open>encoding/binary\<close>, Go maps as
  association lists in iteration order, and the generic facts on lists, maps and folds that the
  component theories use.
\<close>

unbundle bit_operations_syntax

section \<open>Machine integers and byte strings\<close>

type_synonym byte = "8 word"
type_synonym u8 = "8 word"
type_synonym u32 = "32 word"
type_synonym u64 = "64 word"
type_synonym bytes = "byte list"

named_theorems model_defs \<open>defining equations that component proofs unfold\<close>
named_theorems inv_intros \<open>introduction rules for the component invariants\<close>

text \<open>A Go string is a byte sequence; \<^verbatim>\<open>[]byte(s)\<close> copies it.\<close>

definition bytes_of_string :: "string \<Rightarrow> bytes" where
  "bytes_of_string s = map of_char s"

definition string_of_bytes :: "bytes \<Rightarrow> string" where
  "string_of_bytes bs = map (\<lambda>b. char_of (unat b)) bs"

lemma unat_of_char [simp]: "unat (of_char c :: byte) = of_char c"
proof -
  have eq: "of_char c = (of_nat (of_char c) :: byte)" by (cases c) simp
  have "take_bit 8 (of_char c :: nat) = of_char c"
    using nat_of_char_less_256 [of c] by (simp add: take_bit_nat_eq_self_iff)
  then show ?thesis by (subst eq) (simp only: unsigned_of_nat, simp)
qed

lemma string_of_bytes_of_string [simp]: "string_of_bytes (bytes_of_string s) = s"
  by (induction s) (auto simp: string_of_bytes_def bytes_of_string_def)

lemma bytes_of_string_inject [simp]: "bytes_of_string s = bytes_of_string t \<longleftrightarrow> s = t"
  by (metis string_of_bytes_of_string)

lemma length_bytes_of_string [simp]: "length (bytes_of_string s) = length s"
  by (simp add: bytes_of_string_def)

lemma bytes_of_string_of_bytes [simp]: "bytes_of_string (string_of_bytes bs) = bs"
proof -
  have "of_char (char_of (unat b)) = (b :: byte)" for b :: byte
    by (rule word_unat_eq_iff [THEN iffD2]) (use unsigned_less [of b, where 'a = nat] in simp)
  then show ?thesis by (simp add: bytes_of_string_def string_of_bytes_def map_idI)
qed

lemma bytes_of_string_Nil [simp]: "bytes_of_string s = [] \<longleftrightarrow> s = ''''"
  by (simp add: bytes_of_string_def)

lemma bytes_string_iff: "k = bytes_of_string key \<longleftrightarrow> string_of_bytes k = key"
  by (metis bytes_of_string_of_bytes string_of_bytes_of_string)

lemma one_less_max_u64 [simp]: "(1 :: u64) < - 1"
  by code_simp

lemma unat_ucast_u8_u32 [simp]: "unat (ucast (x :: u8) :: u32) = unat x"
  using unsigned_less [of x, where 'a = nat] by (simp add: unsigned_ucast_eq take_bit_nat_eq_self_iff)

lemma unat_of_nat_u32: "n < 2 ^ 32 \<Longrightarrow> unat (of_nat n :: u32) = n"
  by (simp add: unat_of_nat take_bit_nat_eq_self_iff)

lemma unat_of_nat_u64: "n < 2 ^ 64 \<Longrightarrow> unat (of_nat n :: u64) = n"
  by (simp add: unat_of_nat take_bit_nat_eq_self_iff)

lemma unat_plus_of_nat_u64: "unat (n :: u64) + i < 2 ^ 64 \<Longrightarrow> unat (n + of_nat i) = unat n + i"
proof -
  assume a: "unat n + i < 2 ^ 64"
  then have "unat (of_nat (unat n + i) :: u64) = unat n + i" by (rule unat_of_nat_u64)
  then show ?thesis by simp
qed

section \<open>Go shifts\<close>

text \<open>
  In Go a shift count is unsigned and may exceed the width; the result is then 0. The case
  is written out, so that evaluation never builds a huge power of two.
\<close>

definition go_shl :: "'a::len word \<Rightarrow> u32 \<Rightarrow> 'a word" where
  "go_shl x n = (if LENGTH('a) \<le> unat n then 0 else push_bit (unat n) x)"

definition go_shr :: "'a::len word \<Rightarrow> u32 \<Rightarrow> 'a word" where
  "go_shr x n = (if LENGTH('a) \<le> unat n then 0 else drop_bit (unat n) x)"

section \<open>Big-endian encoding\<close>

primrec put_be :: "nat \<Rightarrow> 'a::len word \<Rightarrow> bytes" where
  "put_be 0 w = []"
| "put_be (Suc n) w = put_be n (drop_bit 8 w) @ [ucast w]"

definition get_be :: "bytes \<Rightarrow> 'a::len word" where
  "get_be bs = foldl (\<lambda>acc b. push_bit 8 acc OR ucast b) 0 bs"

lemma length_put_be [simp]: "length (put_be n w) = n"
  by (induction n arbitrary: w) auto

lemma get_be_snoc: "get_be (xs @ [b]) = push_bit 8 (get_be xs) OR ucast b"
  by (simp add: get_be_def)

lemma get_put_be_take: "get_be (put_be n w) = take_bit (8 * n) w"
proof (induction n arbitrary: w)
  case 0
  show ?case by (simp add: get_be_def)
next
  case (Suc n)
  have "push_bit 8 (take_bit (8 * n) (drop_bit 8 w)) OR ucast (ucast w :: byte)
      = take_bit (8 * Suc n) w"
    by (rule bit_eqI)
      (auto simp: bit_or_iff bit_push_bit_iff bit_take_bit_iff bit_drop_bit_eq bit_ucast_iff
        bit_imp_le_length)
  then show ?case by (simp add: get_be_snoc Suc.IH)
qed

lemma get_put_be32 [simp]: "get_be (put_be 4 w) = (w :: u32)"
  using get_put_be_take [of 4 w] by (simp add: take_bit_word_eq_self)

lemma get_put_be64 [simp]: "get_be (put_be 8 w) = (w :: u64)"
  using get_put_be_take [of 8 w] by (simp add: take_bit_word_eq_self)

end
