(* ===== verification/Md5.thy ===== *)
theory Md5
  imports Prelude
begin

text \<open>
  The digest function of Go's \<^verbatim>\<open>crypto/md5\<close> package (RFC 1321), which \<^verbatim>\<open>data/hash.go\<close>
  calls: padding to 64-byte blocks, 64 rounds per block over little-endian 32-bit words. Only
  the length of a digest is needed by the proofs; the concrete definition makes the hashes of
  the model executable.
\<close>

section \<open>Tables\<close>

definition md5_K :: "u32 list" where
  "md5_K = [
      3614090360, 3905402710, 606105819, 3250441966, 4118548399, 1200080426,
      2821735955, 4249261313, 1770035416, 2336552879, 4294925233, 2304563134,
      1804603682, 4254626195, 2792965006, 1236535329, 4129170786, 3225465664,
      643717713, 3921069994, 3593408605, 38016083, 3634488961, 3889429448,
      568446438, 3275163606, 4107603335, 1163531501, 2850285829, 4243563512,
      1735328473, 2368359562, 4294588738, 2272392833, 1839030562, 4259657740,
      2763975236, 1272893353, 4139469664, 3200236656, 681279174, 3936430074,
      3572445317, 76029189, 3654602809, 3873151461, 530742520, 3299628645,
      4096336452, 1126891415, 2878612391, 4237533241, 1700485571, 2399980690,
      4293915773, 2240044497, 1873313359, 4264355552, 2734768916, 1309151649,
      4149444226, 3174756917, 718787259, 3951481745]"

definition md5_S :: "nat list" where
  "md5_S = [
      7, 12, 17, 22, 7, 12, 17, 22, 7, 12, 17, 22, 7, 12, 17, 22,
      5, 9, 14, 20, 5, 9, 14, 20, 5, 9, 14, 20, 5, 9, 14, 20,
      4, 11, 16, 23, 4, 11, 16, 23, 4, 11, 16, 23, 4, 11, 16, 23,
      6, 10, 15, 21, 6, 10, 15, 21, 6, 10, 15, 21, 6, 10, 15, 21]"

section \<open>Little-endian words, padding and rounds\<close>

primrec put_le :: "nat \<Rightarrow> 'a::len word \<Rightarrow> bytes" where
  "put_le 0 w = []"
| "put_le (Suc n) w = ucast w # put_le n (drop_bit 8 w)"

fun get_le :: "bytes \<Rightarrow> u32" where
  "get_le [] = 0"
| "get_le (b # bs) = ucast b OR push_bit 8 (get_le bs)"

definition md5_pad :: "bytes \<Rightarrow> bytes" where
  "md5_pad bs = bs @ [128] @ replicate ((119 - length bs mod 64) mod 64) 0
     @ put_le 8 (of_nat (8 * length bs) :: u64)"

fun le_words :: "bytes \<Rightarrow> u32 list" where
  "le_words (a # b # c # d # bs) = get_le [a, b, c, d] # le_words bs"
| "le_words _ = []"

type_synonym md5_state = "u32 \<times> u32 \<times> u32 \<times> u32"

definition md5_round :: "u32 list \<Rightarrow> nat \<Rightarrow> md5_state \<Rightarrow> md5_state" where
  "md5_round M i st = (case st of (a, b, c, d) \<Rightarrow>
     let (f, g) =
       (if i < 16 then ((b AND c) OR (NOT b AND d), i)
        else if i < 32 then ((d AND b) OR (NOT d AND c), (5 * i + 1) mod 16)
        else if i < 48 then (b XOR c XOR d, (3 * i + 5) mod 16)
        else (c XOR (b OR NOT d), (7 * i) mod 16));
         x = f + a + md5_K ! i + M ! g
     in (d, b + word_rotl (md5_S ! i) x, b, c))"

definition md5_block :: "md5_state \<Rightarrow> u32 list \<Rightarrow> md5_state" where
  "md5_block st M = (case fold (md5_round M) [0..<64] st of (a', b', c', d') \<Rightarrow>
     (case st of (a, b, c, d) \<Rightarrow> (a + a', b + b', c + c', d + d')))"

function md5_blocks :: "md5_state \<Rightarrow> u32 list \<Rightarrow> md5_state" where
  "md5_blocks st ws = (if length ws < 16 then st
     else md5_blocks (md5_block st (take 16 ws)) (drop 16 ws))"
  by pat_completeness auto
termination
  by (relation "measure (\<lambda>(st, ws). length ws)") auto

declare md5_blocks.simps [simp del]

definition md5_init :: md5_state where
  "md5_init = (1732584193, 4023233417, 2562383102, 271733878)"

definition md5_sum :: "bytes \<Rightarrow> bytes" where
  "md5_sum bs = (case md5_blocks md5_init (le_words (md5_pad bs)) of (a, b, c, d) \<Rightarrow>
     put_le 4 a @ put_le 4 b @ put_le 4 c @ put_le 4 d)"

section \<open>The digest has 16 bytes\<close>

lemma length_put_le [simp]: "length (put_le n w) = n"
  by (induction n arbitrary: w) auto

lemma length_md5_sum [simp]: "length (md5_sum bs) = 16"
  by (simp add: md5_sum_def split: prod.splits)

end
