(* ===== verification/Hash.thy ===== *)
theory Hash
  imports Md5
begin

text \<open>
  \<^verbatim>\<open>data/hash.go\<close>: a 128-bit hash as two 64-bit halves, its constructor from an MD5
  digest, XOR, and the byte encoding. The interface the clocks, sibling sets and Merkle trees
  rely on is the locale \<open>xor_group\<close>: XOR is a commutative group in which every element is
  its own inverse, so XOR-accumulating loops do not depend on the order in which Go iterates
  over a map, and accumulating the same hashes twice undoes them.
\<close>

section \<open>The Hash type\<close>

record hash =
  hash0 :: u64
  hash1 :: u64

definition zero_hash :: hash where
  "zero_hash = \<lparr>hash0 = 0, hash1 = 0\<rparr>"

definition NewHash :: "bytes \<Rightarrow> hash" where
  "NewHash input = (let sum = md5_sum input in
     \<lparr>hash0 = get_be (take 8 (drop 8 sum)), hash1 = get_be (take 8 sum)\<rparr>)"

definition Xor :: "hash \<Rightarrow> hash \<Rightarrow> hash" where
  "Xor h other = \<lparr>hash0 = hash0 h XOR hash0 other, hash1 = hash1 h XOR hash1 other\<rparr>"

definition Low :: "hash \<Rightarrow> u64" where
  "Low h = hash0 h"

definition SetLow :: "hash \<Rightarrow> u64 \<Rightarrow> hash" where
  "SetLow h l = h\<lparr>hash0 := l\<rparr>"

definition High :: "hash \<Rightarrow> u64" where
  "High h = hash1 h"

definition SetHigh :: "hash \<Rightarrow> u64 \<Rightarrow> hash" where
  "SetHigh h l = h\<lparr>hash1 := l\<rparr>"

definition Hash_Bytes :: "hash \<Rightarrow> bytes" where
  "Hash_Bytes h = put_be 8 (High h) @ put_be 8 (Low h)"

section \<open>The interface: XOR as a self-inverse commutative group\<close>

locale xor_group =
  fixes xor :: "'h \<Rightarrow> 'h \<Rightarrow> 'h" and zero :: 'h
  assumes xor_assoc: "xor (xor a b) c = xor a (xor b c)"
    and xor_commute: "xor a b = xor b a"
    and xor_zero: "xor a zero = a"
    and xor_self: "xor a a = zero"
begin

lemma zero_xor: "xor zero a = a"
  by (metis xor_commute xor_zero)

lemma xor_left_commute: "xor a (xor b c) = xor b (xor a c)"
  by (metis xor_assoc xor_commute)

lemma xor_cancel: "xor (xor a b) b = a"
  by (simp add: xor_assoc xor_self xor_zero)

lemma xor_left_cancel: "xor a (xor a b) = b"
  by (simp add: xor_assoc [symmetric] xor_self zero_xor)

lemma xor_eq_zero_iff: "xor a b = zero \<longleftrightarrow> a = b"
  by (metis xor_cancel xor_self zero_xor)

lemmas xor_ac = xor_assoc xor_commute xor_left_commute

lemma foldl_xor_start: "foldl (\<lambda>h x. xor h (f x)) a xs = xor a (foldl (\<lambda>h x. xor h (f x)) zero xs)"
proof (induction xs arbitrary: a)
  case Nil
  show ?case by (simp add: xor_zero)
next
  case (Cons x xs)
  show ?case
    using Cons.IH [of "xor a (f x)"] Cons.IH [of "xor zero (f x)"]
    by (simp add: xor_assoc zero_xor)
qed

lemma foldl_xor_Cons:
  "foldl (\<lambda>h x. xor h (f x)) zero (x # xs) = xor (f x) (foldl (\<lambda>h x. xor h (f x)) zero xs)"
  using foldl_xor_start [of f "f x" xs] by (simp add: zero_xor)

lemma foldl_xor_append:
  "foldl (\<lambda>h x. xor h (f x)) zero (xs @ ys)
     = xor (foldl (\<lambda>h x. xor h (f x)) zero xs) (foldl (\<lambda>h x. xor h (f x)) zero ys)"
  by (simp add: foldl_xor_start [of f "foldl (\<lambda>h x. xor h (f x)) zero xs" ys])

text \<open>Two map iterations that visit the same entries accumulate the same hash.\<close>

lemma foldl_xor_perm:
  assumes "mset xs = mset ys"
  shows "foldl (\<lambda>h x. xor h (f x)) a xs = foldl (\<lambda>h x. xor h (f x)) a ys"
  using assms
proof (induction xs arbitrary: a ys)
  case Nil
  then show ?case by simp
next
  case (Cons x xs)
  then obtain us vs where ys: "ys = us @ x # vs"
    by (metis list.set_intros(1) mset_eq_setD split_list)
  with Cons.prems have "mset xs = mset (us @ vs)" by simp
  then have eq: "foldl (\<lambda>h x. xor h (f x)) (xor a (f x)) xs
      = foldl (\<lambda>h x. xor h (f x)) (xor a (f x)) (us @ vs)"
    by (rule Cons.IH)
  let ?F = "foldl (\<lambda>h x. xor h (f x))"
  have "?F a (x # xs) = ?F (xor a (f x)) (us @ vs)"
    by (simp only: foldl_Cons eq)
  also have "\<dots> = xor (xor a (f x)) (xor (?F zero us) (?F zero vs))"
    by (simp only: foldl_xor_start [of f "xor a (f x)"] foldl_xor_append)
  also have "\<dots> = xor a (xor (?F zero us) (xor (f x) (?F zero vs)))"
    by (simp only: xor_assoc xor_left_commute)
  also have "\<dots> = ?F a (us @ x # vs)"
    by (simp only: foldl_xor_start [of f a "us @ x # vs"] foldl_xor_append foldl_xor_Cons)
  finally show ?case by (simp only: ys)
qed

lemma foldl_xor_zero: "(\<And>x. x \<in> set xs \<Longrightarrow> f x = zero) \<Longrightarrow> foldl (\<lambda>h x. xor h (f x)) zero xs = zero"
  by (induction xs rule: rev_induct) (auto simp: xor_zero)

end

interpretation hx: xor_group Xor zero_hash
  by unfold_locales (auto simp: Xor_def zero_hash_def ac_simps)

lemmas hash_simps [simp] = hx.xor_zero hx.zero_xor hx.xor_self hx.xor_left_cancel hx.xor_cancel

section \<open>Encoding\<close>

lemma length_Hash_Bytes [simp]: "length (Hash_Bytes h) = 16"
  by (simp add: Hash_Bytes_def)

text \<open>
  Reading the two halves back the way \<^verbatim>\<open>initializeMerkleTree\<close> in \<^verbatim>\<open>bucket/store.go\<close> does
  restores the hash.
\<close>

definition decode_hash_bytes :: "bytes \<Rightarrow> hash" where
  "decode_hash_bytes value =
     (let high = get_be (take 8 value); low = get_be (drop 8 value)
      in SetHigh (SetLow zero_hash low) high)"

lemma decode_Hash_Bytes: "decode_hash_bytes (Hash_Bytes h) = h"
  by (cases h) (simp add: decode_hash_bytes_def Hash_Bytes_def SetHigh_def SetLow_def High_def
      Low_def zero_hash_def)

end
