(* ===== verification/Dvv.thy ===== *)
theory Dvv
  imports Hash
begin

text \<open>
  \<^verbatim>\<open>data/dvv.go\<close>: dotted version vectors. A Go map is an association list with distinct keys
  whose order is the order one iteration over the map takes; every result that must not depend
  on that order is proved not to.
\<close>

section \<open>Dots and clocks\<close>

record dot =
  NodeID :: string
  Count :: u64

record dvv =
  VVDot :: dot
  VV :: "(string \<times> u64) list"

definition NewDot :: "string \<Rightarrow> u64 \<Rightarrow> dot" where
  "NewDot nodeID cnt = \<lparr>NodeID = nodeID, Count = cnt\<rparr>"

definition NewDVV :: "dot \<Rightarrow> (string \<times> u64) list \<Rightarrow> dvv" where
  "NewDVV dot vv = \<lparr>VVDot = dot, VV = vv\<rparr>"

definition Dot :: "dvv \<Rightarrow> dot" where
  "Dot d = VVDot d"

definition Context :: "dvv \<Rightarrow> (string \<times> u64) list" where
  "Context d = VV d"

definition HappenedBefore :: "dvv \<Rightarrow> dvv \<Rightarrow> bool" where
  "HappenedBefore d other =
     (case map_of (Context other) (NodeID (Dot d)) of
        Some c \<Rightarrow> Count (Dot d) \<le> c
      | None \<Rightarrow> False)"

fun replicas_loop :: "(string \<times> u64) list \<Rightarrow> string list \<Rightarrow> string \<Rightarrow> string list \<times> string" where
  "replicas_loop [] replicas dotNodeID = (replicas, dotNodeID)"
| "replicas_loop ((nodeID, _) # vv) replicas dotNodeID =
     replicas_loop vv (replicas @ [nodeID]) (if nodeID = dotNodeID then [] else dotNodeID)"

definition Replicas :: "dvv \<Rightarrow> string list" where
  "Replicas d =
     (case replicas_loop (Context d) [] (NodeID (Dot d)) of (replicas, dotNodeID) \<Rightarrow>
        if 0 < length dotNodeID then replicas @ [dotNodeID] else replicas)"

definition MaxDot :: "dvv \<Rightarrow> string \<Rightarrow> u64" where
  "MaxDot d nodeID =
     (let maxDot = 0;
          maxDot = (if NodeID (Dot d) = nodeID
                    then (if Count (Dot d) > maxDot then Count (Dot d) else maxDot)
                    else maxDot)
      in case map_of (Context d) nodeID of
           Some c \<Rightarrow> (if c > maxDot then c else maxDot)
         | None \<Rightarrow> maxDot)"

fun equals_loop :: "(string \<times> u64) list \<Rightarrow> (string \<times> u64) list \<Rightarrow> bool" where
  "equals_loop [] other = True"
| "equals_loop ((nodeID, cnt) # vv) other =
     (case map_of other nodeID of
        None \<Rightarrow> False
      | Some c \<Rightarrow> if cnt \<noteq> c then False else equals_loop vv other)"

definition DVV_Equals :: "dvv \<Rightarrow> dvv \<Rightarrow> bool" where
  "DVV_Equals d other =
     (if NodeID (Dot d) \<noteq> NodeID (Dot other) \<or> Count (Dot d) \<noteq> Count (Dot other) then False
      else if length (Context d) \<noteq> length (Context other) then False
      else equals_loop (Context d) (Context other))"

definition DVV_Hash :: "dvv \<Rightarrow> hash" where
  "DVV_Hash d =
     (let h = foldl (\<lambda>h (nodeID, cnt).
                Xor (Xor h (NewHash (bytes_of_string nodeID))) (NewHash (put_be 8 cnt)))
              zero_hash (Context d)
      in Xor (Xor h (NewHash (bytes_of_string (NodeID (Dot d)))))
             (NewHash (put_be 8 (Count (Dot d)))))"

lemma dvv_access [simp]:
  "NodeID (NewDot n c) = n" "Count (NewDot n c) = c"
  "Dot (NewDVV d vv) = d" "Context (NewDVV d vv) = vv"
  by (simp_all add: NewDot_def NewDVV_def Dot_def Context_def)

section \<open>Well-formed clocks and their causal history\<close>

text \<open>A context is a Go map, so its keys are distinct.\<close>

definition wf_dvv :: "dvv \<Rightarrow> bool" where
  "wf_dvv d \<longleftrightarrow> distinct (map fst (Context d))"

text \<open>The events a context covers and the events a clock's holder has seen.\<close>

definition covered :: "dvv \<Rightarrow> (string \<times> u64) set" where
  "covered d = {(n, c). \<exists>m. map_of (Context d) n = Some m \<and> c \<le> m}"

definition the_dot :: "dvv \<Rightarrow> string \<times> u64" where
  "the_dot d = (NodeID (Dot d), Count (Dot d))"

definition history :: "dvv \<Rightarrow> (string \<times> u64) set" where
  "history d = insert (the_dot d) (covered d)"

text \<open>A clock whose own event is not already in its context (every event is new).\<close>

definition proper_dvv :: "dvv \<Rightarrow> bool" where
  "proper_dvv d \<longleftrightarrow> the_dot d \<notin> covered d"

lemma HappenedBefore_iff: "HappenedBefore d other \<longleftrightarrow> the_dot d \<in> covered other"
  by (auto simp: HappenedBefore_def the_dot_def covered_def split: option.splits)

lemma covered_down: "(n, c) \<in> covered d \<Longrightarrow> c' \<le> c \<Longrightarrow> (n, c') \<in> covered d"
  by (auto simp: covered_def intro: order_trans)

section \<open>Replicas, MaxDot and Equals\<close>

lemma replicas_loop_eq:
  assumes "distinct (map fst vv)"
  shows "replicas_loop vv rs dn = (rs @ map fst vv, if dn \<in> fst ` set vv then [] else dn)"
  using assms
proof (induction vv arbitrary: rs dn)
  case Nil
  then show ?case by simp
next
  case (Cons p vv)
  obtain n c where p: "p = (n, c)" by force
  from Cons.prems have "distinct (map fst vv)" by simp
  from Cons.IH [OF this] show ?case
    using Cons.prems p by (auto simp: image_iff)
qed

lemma set_Replicas:
  assumes "wf_dvv d"
  shows "set (Replicas d) = fst ` set (Context d) \<union> (if NodeID (Dot d) = [] then {} else {NodeID (Dot d)})"
  using assms by (auto simp: Replicas_def wf_dvv_def replicas_loop_eq)

lemma MaxDot_eq:
  "MaxDot d n = max (if NodeID (Dot d) = n then Count (Dot d) else 0)
     (case map_of (Context d) n of Some c \<Rightarrow> c | None \<Rightarrow> 0)"
proof -
  have not_less: "\<not> 0 < (c :: u64) \<longleftrightarrow> c = 0" for c
    by (simp add: word_neq_0_conv [symmetric] del: word_neq_0_conv)
  show ?thesis
    by (auto simp: MaxDot_def Let_def max_def not_less not_le split: option.splits)
qed

text \<open>The largest event of a replica in a clock's history.\<close>

lemma MaxDot_upper: "(n, c) \<in> history d \<Longrightarrow> c \<le> MaxDot d n"
  by (auto simp: history_def the_dot_def covered_def MaxDot_eq max_def split: option.splits)

lemma MaxDot_attained: "MaxDot d n \<noteq> 0 \<Longrightarrow> (n, MaxDot d n) \<in> history d"
  by (auto simp: history_def the_dot_def covered_def MaxDot_eq max_def split: option.splits if_splits)

lemma equals_loop_iff: "equals_loop vv other \<longleftrightarrow> (\<forall>(n, c) \<in> set vv. map_of other n = Some c)"
  by (induction vv other rule: equals_loop.induct) (auto split: option.splits)

lemma map_of_eq_of_subset:
  assumes "distinct (map fst xs)" "distinct (map fst ys)" "length xs = length ys"
    and "\<forall>(n, c) \<in> set xs. map_of ys n = Some c"
  shows "map_of xs = map_of ys"
proof -
  have "set xs \<subseteq> set ys" using assms(4) by (auto dest: map_of_SomeD)
  moreover have "card (set xs) = card (set ys)"
    using assms(1-3) by (metis distinct_card distinct_map)
  ultimately have "set xs = set ys" by (simp add: card_subset_eq)
  then show ?thesis using assms(1,2) by (simp add: map_of_inject_set)
qed

lemma map_of_eq_length:
  assumes "distinct (map fst xs)" "distinct (map fst ys)" "map_of xs = map_of ys"
  shows "length xs = length ys"
  using assms by (metis dom_map_of_conv_image_fst distinct_card length_map set_map)

lemma DVV_Equals_iff:
  assumes "wf_dvv d" "wf_dvv e"
  shows "DVV_Equals d e \<longleftrightarrow> Dot d = Dot e \<and> map_of (Context d) = map_of (Context e)"
proof
  assume eq: "DVV_Equals d e"
  then have "map_of (Context d) = map_of (Context e)"
    using assms by (intro map_of_eq_of_subset)
      (auto simp: DVV_Equals_def wf_dvv_def equals_loop_iff split: if_splits)
  with eq show "Dot d = Dot e \<and> map_of (Context d) = map_of (Context e)"
    by (auto simp: DVV_Equals_def split: if_splits)
next
  assume eq: "Dot d = Dot e \<and> map_of (Context d) = map_of (Context e)"
  then have "length (Context d) = length (Context e)"
    using assms by (auto simp: wf_dvv_def intro: map_of_eq_length)
  moreover have "\<forall>(n, c) \<in> set (Context d). map_of (Context e) n = Some c"
    using eq assms by (force simp: wf_dvv_def dest: map_of_is_SomeI)
  ultimately show "DVV_Equals d e"
    using eq by (simp add: DVV_Equals_def equals_loop_iff)
qed

lemma DVV_Equals_refl [simp]: "wf_dvv d \<Longrightarrow> DVV_Equals d d"
  by (simp add: DVV_Equals_iff)

lemma DVV_Equals_sym: "wf_dvv d \<Longrightarrow> wf_dvv e \<Longrightarrow> DVV_Equals d e = DVV_Equals e d"
  by (auto simp: DVV_Equals_iff)

lemma DVV_Equals_covered: "wf_dvv d \<Longrightarrow> wf_dvv e \<Longrightarrow> DVV_Equals d e \<Longrightarrow> covered d = covered e"
  by (simp add: DVV_Equals_iff covered_def)

lemma DVV_Equals_the_dot: "DVV_Equals d e \<Longrightarrow> the_dot d = the_dot e"
  by (auto simp: DVV_Equals_def the_dot_def split: if_splits)

section \<open>The clock hash\<close>

lemma DVV_Hash_fold:
  "DVV_Hash d = Xor (Xor
     (foldl (\<lambda>h x. Xor h (Xor (NewHash (bytes_of_string (fst x))) (NewHash (put_be 8 (snd x)))))
        zero_hash (Context d))
     (NewHash (bytes_of_string (NodeID (Dot d))))) (NewHash (put_be 8 (Count (Dot d))))"
  by (simp add: DVV_Hash_def case_prod_unfold hx.xor_assoc)

lemma DVV_Hash_perm:
  "Dot d = Dot e \<Longrightarrow> mset (Context d) = mset (Context e) \<Longrightarrow> DVV_Hash d = DVV_Hash e"
  unfolding DVV_Hash_fold by (simp only: hx.foldl_xor_perm [of "Context d" "Context e"])

lemma map_of_eq_mset:
  assumes "distinct (map fst xs)" "distinct (map fst ys)" "map_of xs = map_of ys"
  shows "mset xs = mset ys"
proof -
  have "set xs = set ys" using assms by (simp add: map_of_inject_set)
  then show ?thesis using assms(1,2) by (simp add: distinct_map set_eq_iff_mset_eq_distinct)
qed

lemma DVV_Equals_Hash:
  assumes "wf_dvv d" "wf_dvv e" "DVV_Equals d e"
  shows "DVV_Hash d = DVV_Hash e"
  using assms by (intro DVV_Hash_perm) (auto simp: DVV_Equals_iff wf_dvv_def intro: map_of_eq_mset)

end
