(* ===== verification/Sibling.thy ===== *)
theory Sibling
  imports Dvv
begin

text \<open>
  \<^verbatim>\<open>data/sibling.go\<close>: one version of a key, with its clock, its value (a nil slice is a
  tombstone) and its physical timestamp; the order that breaks ties between siblings with equal
  clocks; and the sibling hash.
\<close>

record sibling =
  VectorClock :: dvv
  BinaryValue :: "bytes option"
  PhysicalTimestamp :: u64

definition NewSibling :: "dvv \<Rightarrow> bytes option \<Rightarrow> u64 \<Rightarrow> sibling" where
  "NewSibling clock val timestamp =
     \<lparr>VectorClock = clock, BinaryValue = val, PhysicalTimestamp = timestamp\<rparr>"

definition Clock :: "sibling \<Rightarrow> dvv" where
  "Clock s = VectorClock s"

definition Sibling_Value :: "sibling \<Rightarrow> bytes option" where
  "Sibling_Value s = BinaryValue s"

definition IsTombstone :: "sibling \<Rightarrow> bool" where
  "IsTombstone s \<longleftrightarrow> Sibling_Value s = None"

definition Timestamp :: "sibling \<Rightarrow> u64" where
  "Timestamp s = PhysicalTimestamp s"

text \<open>A nil receiver hashes to zero, like a tombstone.\<close>

definition Sibling_Hash :: "sibling option \<Rightarrow> hash" where
  "Sibling_Hash so =
     (case so of
        None \<Rightarrow> zero_hash
      | Some s \<Rightarrow>
          (case Sibling_Value s of
             None \<Rightarrow> zero_hash
           | Some v \<Rightarrow> Xor (NewHash v) (DVV_Hash (Clock s))))"

text \<open>\<^verbatim>\<open>bytes.Compare\<close>: lexicographic, a proper prefix is smaller.\<close>

definition bytes_Compare :: "bytes \<Rightarrow> bytes \<Rightarrow> int" where
  "bytes_Compare a b = (if a = b then 0 else if a < b then - 1 else 1)"

definition Sibling_Compare :: "sibling \<Rightarrow> sibling \<Rightarrow> int" where
  "Sibling_Compare s other =
     (case (Sibling_Value s, Sibling_Value other) of
        (None, Some _) \<Rightarrow> - 1
      | (Some _, None) \<Rightarrow> 1
      | (None, None) \<Rightarrow>
          (if Timestamp s < Timestamp other then - 1
           else if Timestamp s > Timestamp other then 1
           else 0)
      | (Some v, Some w) \<Rightarrow> bytes_Compare v w)"

lemma sibling_access [simp]:
  "Clock (NewSibling c v t) = c" "Sibling_Value (NewSibling c v t) = v"
  "Timestamp (NewSibling c v t) = t" "IsTombstone (NewSibling c v t) \<longleftrightarrow> v = None"
  by (simp_all add: NewSibling_def Clock_def Sibling_Value_def Timestamp_def IsTombstone_def)

section \<open>The tie-breaking order\<close>

text \<open>
  The interface of a Go comparison function: the sign of the result is a total preorder. Sorting
  and tie-breaking code relies on these laws only.
\<close>

locale comparison =
  fixes cmp :: "'a \<Rightarrow> 'a \<Rightarrow> int"
  assumes cmp_range: "cmp x y \<in> {- 1, 0, 1}"
    and cmp_antisym: "cmp y x = - cmp x y"
    and cmp_trans: "cmp x y \<le> 0 \<Longrightarrow> cmp y z \<le> 0 \<Longrightarrow> cmp x z \<le> 0"
begin

lemma cmp_refl: "cmp x x = 0"
  using cmp_antisym [of x x] by simp

lemma cmp_total: "cmp x y \<le> 0 \<or> cmp y x \<le> 0"
  using cmp_antisym [of x y] by auto

text \<open>Exactly one of two siblings survives a tie: the loser test is strict one way round.\<close>

lemma cmp_tie: "cmp x y \<le> 0 \<longleftrightarrow> \<not> cmp y x < 0"
  using cmp_antisym [of x y] by auto

lemma cmp_less_trans:
  assumes "cmp x y < 0" "cmp y z < 0"
  shows "cmp x z < 0"
proof (rule ccontr)
  assume "\<not> cmp x z < 0"
  then have "cmp z x \<le> 0" by (simp add: cmp_tie)
  then have "cmp z y \<le> 0" using assms(1) cmp_trans [of z x y] by simp
  with assms(2) show False using cmp_antisym [of y z] by simp
qed

end

interpretation bcmp: comparison bytes_Compare
  by unfold_locales (auto simp: bytes_Compare_def split: if_splits)

interpretation scmp: comparison Sibling_Compare
proof
  fix x y z
  show "Sibling_Compare x y \<in> {- 1, 0, 1}"
    using bcmp.cmp_range by (auto simp: Sibling_Compare_def split: option.splits)
  show "Sibling_Compare y x = - Sibling_Compare x y"
    by (auto simp: Sibling_Compare_def intro: bcmp.cmp_antisym split: option.splits)
  show "Sibling_Compare x y \<le> 0 \<Longrightarrow> Sibling_Compare y z \<le> 0 \<Longrightarrow> Sibling_Compare x z \<le> 0"
    by (auto simp: Sibling_Compare_def not_less intro: bcmp.cmp_trans split: option.splits if_splits)
qed

text \<open>The comment in the source: a value is favoured over a tombstone.\<close>

lemma Compare_favours_value:
  "IsTombstone s \<Longrightarrow> \<not> IsTombstone t \<Longrightarrow> Sibling_Compare s t < 0"
  by (auto simp: IsTombstone_def Sibling_Compare_def split: option.splits)

lemma Sibling_Hash_tombstone: "IsTombstone s \<Longrightarrow> Sibling_Hash (Some s) = zero_hash"
  by (simp add: IsTombstone_def Sibling_Hash_def)

end
