(* ===== verification/SiblingSet.thy ===== *)
theory SiblingSet
  imports Sibling
begin

text \<open>
  \<^verbatim>\<open>data/sibling_set.go\<close>. The Go type is \<^verbatim>\<open>map[*Sibling]bool\<close>: a set of pointers. Siblings are
  never mutated once built, so a pointer is modelled as an address together with the object it
  points at, and the map as the distinct list of its keys in the order one iteration takes.
  Operations that allocate (\<open>MergeSync\<close>, decoding) take the next free address. Each loop of the
  source is a loop here, with the same additions to and deletions from the set under
  construction; the section on characterisations shows what the loops compute.
\<close>

type_synonym sibling_ptr = "nat \<times> sibling"
type_synonym sibling_set = "sibling_ptr list"

section \<open>Operations\<close>

definition NewSiblingSet :: "sibling_ptr list \<Rightarrow> sibling_set" where
  "NewSiblingSet siblings = siblings"

definition Add :: "sibling_set \<Rightarrow> sibling_ptr \<Rightarrow> sibling_set" where
  "Add ss p = (if p \<in> set ss then ss else ss @ [p])"

definition Delete :: "sibling_set \<Rightarrow> sibling_ptr \<Rightarrow> sibling_set" where
  "Delete ss p = filter (\<lambda>q. q \<noteq> p) ss"

definition Has :: "sibling_set \<Rightarrow> sibling_ptr \<Rightarrow> bool" where
  "Has ss p \<longleftrightarrow> p \<in> set ss"

definition Size :: "sibling_set \<Rightarrow> nat" where
  "Size ss = length ss"

fun IsTombstoneSet :: "sibling_set \<Rightarrow> bool" where
  "IsTombstoneSet [] = True"
| "IsTombstoneSet (p # ss) = (if \<not> IsTombstone (snd p) then False else IsTombstoneSet ss)"

definition SiblingSet_Value :: "sibling_set \<Rightarrow> bytes option" where
  "SiblingSet_Value ss =
     (if Size ss \<noteq> 1 \<or> IsTombstoneSet ss then None
      else case ss of p # _ \<Rightarrow> Sibling_Value (snd p) | [] \<Rightarrow> None)"

fun sync_mine_inner :: "sibling_ptr \<Rightarrow> sibling_set \<Rightarrow> sibling_set \<Rightarrow> sibling_set" where
  "sync_mine_inner my new [] = new"
| "sync_mine_inner my new (their # rest) =
     sync_mine_inner my
       (if HappenedBefore (Clock (snd my)) (Clock (snd their)) then Delete new my
        else if DVV_Equals (Clock (snd my)) (Clock (snd their)) then
          (if Sibling_Compare (snd my) (snd their) \<le> 0 then Delete new my else new)
        else new) rest"

fun sync_mine :: "sibling_set \<Rightarrow> sibling_set \<Rightarrow> sibling_set \<Rightarrow> sibling_set" where
  "sync_mine new [] other = new"
| "sync_mine new (my # ss) other = sync_mine (sync_mine_inner my (Add new my) other) ss other"

fun sync_theirs_inner :: "sibling_ptr \<Rightarrow> sibling_set \<Rightarrow> sibling_set \<Rightarrow> sibling_set" where
  "sync_theirs_inner their new [] = new"
| "sync_theirs_inner their new (my # rest) =
     sync_theirs_inner their
       (if HappenedBefore (Clock (snd their)) (Clock (snd my)) then Delete new their
        else if DVV_Equals (Clock (snd their)) (Clock (snd my)) then
          (if Sibling_Compare (snd their) (snd my) < 0 then Delete new their else new)
        else new) rest"

fun sync_theirs :: "sibling_set \<Rightarrow> sibling_set \<Rightarrow> sibling_set \<Rightarrow> sibling_set" where
  "sync_theirs new [] ss = new"
| "sync_theirs new (their # other) ss =
     sync_theirs (sync_theirs_inner their (Add new their) ss) other ss"

definition Sync :: "sibling_set \<Rightarrow> sibling_set \<Rightarrow> sibling_set" where
  "Sync ss other =
     (let newSiblingSet = sync_mine (NewSiblingSet []) ss other
      in sync_theirs newSiblingSet other ss)"

fun join_one_loop :: "sibling_set \<Rightarrow> string \<Rightarrow> u64 \<Rightarrow> u64" where
  "join_one_loop [] replica s = s"
| "join_one_loop (p # ss) replica s =
     (let maxDot = MaxDot (Clock (snd p)) replica
      in join_one_loop ss replica (if s < maxDot then maxDot else s))"

definition JoinOne :: "sibling_set \<Rightarrow> string \<Rightarrow> u64" where
  "JoinOne ss replica = join_one_loop ss replica 0"

type_synonym merge_state = "sibling_set \<times> u64 \<times> nat"

fun merge_inner :: "string \<Rightarrow> sibling_ptr \<Rightarrow> sibling_set \<Rightarrow> merge_state \<Rightarrow> merge_state" where
  "merge_inner replica my [] st = st"
| "merge_inner replica my (their # rest) (new, maxReplicaDot, alloc) =
     merge_inner replica my rest
       (if HappenedBefore (Clock (snd my)) (Clock (snd their))
           \<and> MaxDot (Clock (snd my)) replica < MaxDot (Clock (snd their)) replica
           \<and> MaxDot (Clock (snd my)) replica \<noteq> 0
        then (Add (Delete new my)
                (alloc, NewSibling
                   (NewDVV (NewDot replica (maxReplicaDot + 1)) (Context (Clock (snd my))))
                   (Sibling_Value (snd my)) (Timestamp (snd my))),
              maxReplicaDot + 1, Suc alloc)
        else (new, maxReplicaDot, alloc))"

fun merge_outer :: "string \<Rightarrow> bool \<Rightarrow> sibling_set \<Rightarrow> sibling_set \<Rightarrow> merge_state \<Rightarrow> merge_state" where
  "merge_outer replica forgot other [] st = st"
| "merge_outer replica forgot other (my # ss) (new, maxReplicaDot, alloc) =
     merge_outer replica forgot other ss
       (if forgot then merge_inner replica my other (Add new my, maxReplicaDot, alloc)
        else (Add new my, maxReplicaDot, alloc))"

definition MergeSync :: "nat \<Rightarrow> sibling_set \<Rightarrow> sibling_set \<Rightarrow> string \<Rightarrow> sibling_set \<times> nat" where
  "MergeSync alloc ss other replica =
     (let otherMaxReplicaDot = JoinOne other replica;
          myMaxReplicaDot = JoinOne ss replica
      in case merge_outer replica (myMaxReplicaDot < otherMaxReplicaDot) other ss
                (NewSiblingSet [], otherMaxReplicaDot, alloc) of
           (newSiblingSet, _, alloc') \<Rightarrow> (Sync newSiblingSet other, alloc'))"

fun diff_inner :: "sibling_ptr \<Rightarrow> sibling_set \<Rightarrow> sibling_set \<Rightarrow> sibling_set" where
  "diff_inner their d [] = d"
| "diff_inner their d (my # rest) =
     diff_inner their
       (if HappenedBefore (Clock (snd their)) (Clock (snd my))
           \<or> DVV_Equals (Clock (snd their)) (Clock (snd my))
        then Delete d their else d) rest"

fun diff_loop :: "sibling_set \<Rightarrow> sibling_set \<Rightarrow> sibling_set \<Rightarrow> sibling_set" where
  "diff_loop d [] ss = d"
| "diff_loop d (their # other) ss = diff_loop (diff_inner their (Add d their) ss) other ss"

definition SiblingSet_Diff :: "sibling_set \<Rightarrow> sibling_set \<Rightarrow> sibling_set" where
  "SiblingSet_Diff ss other = diff_loop (NewSiblingSet []) other ss"

definition join_put :: "dvv \<Rightarrow> (string \<times> u64) list \<Rightarrow> string \<Rightarrow> (string \<times> u64) list" where
  "join_put clock collectiveClock replica =
     (let maxDot = MaxDot clock replica
      in case map_of collectiveClock replica of
           None \<Rightarrow> AList.update replica maxDot collectiveClock
         | Some c \<Rightarrow>
             (if c < maxDot then AList.update replica maxDot collectiveClock
              else collectiveClock))"

fun join_loop :: "(string \<times> u64) list \<Rightarrow> sibling_set \<Rightarrow> (string \<times> u64) list" where
  "join_loop collectiveClock [] = collectiveClock"
| "join_loop collectiveClock (p # ss) =
     join_loop (foldl (join_put (Clock (snd p))) collectiveClock (Replicas (Clock (snd p)))) ss"

definition Join :: "sibling_set \<Rightarrow> (string \<times> u64) list" where
  "Join ss = join_loop [] ss"

fun discard_loop :: "sibling_set \<Rightarrow> sibling_set \<Rightarrow> dvv \<Rightarrow> sibling_set" where
  "discard_loop new [] clock = new"
| "discard_loop new (p # ss) clock =
     discard_loop (if \<not> HappenedBefore (Clock (snd p)) clock then Add new p else new) ss clock"

definition Discard :: "sibling_set \<Rightarrow> dvv \<Rightarrow> sibling_set" where
  "Discard ss clock = discard_loop (NewSiblingSet []) ss clock"

definition Event :: "sibling_set \<Rightarrow> (string \<times> u64) list \<Rightarrow> string \<Rightarrow> dvv" where
  "Event ss contextClock replica =
     (let s = (case map_of contextClock replica of Some c \<Rightarrow> c | None \<Rightarrow> 0);
          s = join_one_loop ss replica s
      in NewDVV (NewDot replica (s + 1)) contextClock)"

fun CanPurge :: "sibling_set \<Rightarrow> u64 \<Rightarrow> bool" where
  "CanPurge [] cutoff = True"
| "CanPurge (p # ss) cutoff =
     (if \<not> IsTombstone (snd p) \<or> Timestamp (snd p) \<ge> cutoff then False else CanPurge ss cutoff)"

fun oldest_tombstone_loop :: "sibling_ptr option \<Rightarrow> sibling_set \<Rightarrow> sibling_ptr option" where
  "oldest_tombstone_loop oldest [] = oldest"
| "oldest_tombstone_loop oldest (p # ss) =
     oldest_tombstone_loop
       (if IsTombstone (snd p) then
          (case oldest of
             None \<Rightarrow> Some p
           | Some q \<Rightarrow> if Timestamp (snd q) > Timestamp (snd p) then Some p else oldest)
        else oldest) ss"

definition GetOldestTombstone :: "sibling_set \<Rightarrow> sibling_ptr option" where
  "GetOldestTombstone ss = oldest_tombstone_loop None ss"

text \<open>The nil set (a key that is absent) hashes to zero.\<close>

definition SiblingSet_Hash :: "sibling_set option \<Rightarrow> bytes \<Rightarrow> hash" where
  "SiblingSet_Hash sso key =
     (case sso of
        None \<Rightarrow> zero_hash
      | Some ss \<Rightarrow>
          (let result = foldl (\<lambda>h p. Xor h (Sibling_Hash (Some (snd p)))) zero_hash ss
           in if Low result \<noteq> 0 \<and> High result \<noteq> 0 then Xor result (NewHash key) else result))"

text \<open>
  \<^verbatim>\<open>MarshalJSON\<close> hands the siblings to the JSON encoder as a list; \<^verbatim>\<open>UnmarshalJSON\<close> allocates
  one sibling per element of the decoded list.
\<close>

definition MarshalJSON :: "sibling_set \<Rightarrow> sibling list" where
  "MarshalJSON ss = map snd ss"

definition UnmarshalJSON :: "nat \<Rightarrow> sibling list \<Rightarrow> sibling_set \<times> nat" where
  "UnmarshalJSON alloc siblingList =
     (zip [alloc ..< alloc + length siblingList] siblingList, alloc + length siblingList)"

section \<open>What the loops compute\<close>

definition wf_ptr :: "sibling_ptr \<Rightarrow> bool" where
  "wf_ptr p \<longleftrightarrow> wf_dvv (Clock (snd p))"

definition wf_sibling_set :: "sibling_set \<Rightarrow> bool" where
  "wf_sibling_set ss \<longleftrightarrow> distinct ss \<and> (\<forall>p \<in> set ss. wf_ptr p)"

text \<open>When a sibling of mine, respectively one of theirs, is dropped because of the other's.\<close>

definition mine_loses :: "sibling_ptr \<Rightarrow> sibling_ptr \<Rightarrow> bool" where
  "mine_loses my their \<longleftrightarrow> HappenedBefore (Clock (snd my)) (Clock (snd their))
     \<or> DVV_Equals (Clock (snd my)) (Clock (snd their)) \<and> Sibling_Compare (snd my) (snd their) \<le> 0"

definition theirs_loses :: "sibling_ptr \<Rightarrow> sibling_ptr \<Rightarrow> bool" where
  "theirs_loses their my \<longleftrightarrow> HappenedBefore (Clock (snd their)) (Clock (snd my))
     \<or> DVV_Equals (Clock (snd their)) (Clock (snd my)) \<and> Sibling_Compare (snd their) (snd my) < 0"

lemma Delete_Add_fresh [simp]: "p \<notin> set ss \<Longrightarrow> Delete (Add ss p) p = ss"
  by (auto simp: Add_def Delete_def filter_id_conv)

lemma Add_fresh [simp]: "p \<notin> set ss \<Longrightarrow> Add ss p = ss @ [p]"
  by (simp add: Add_def)

lemma Delete_snoc [simp]: "p \<notin> set ss \<Longrightarrow> Delete (ss @ [p]) p = ss"
  by (auto simp: Delete_def filter_id_conv)

lemma Delete_absent [simp]: "p \<notin> set ss \<Longrightarrow> Delete ss p = ss"
  by (auto simp: Delete_def filter_id_conv)

lemma set_Delete [simp]: "set (Delete ss p) = set ss - {p}"
  by (auto simp: Delete_def)

lemma Delete_Delete [simp]: "Delete (Delete ss p) p = Delete ss p"
  by (simp add: Delete_def)

lemma sync_mine_inner_eq:
  "sync_mine_inner my new other = (if \<exists>t \<in> set other. mine_loses my t then Delete new my else new)"
  by (induction my new other rule: sync_mine_inner.induct) (auto simp: mine_loses_def)

lemma sync_theirs_inner_eq:
  "sync_theirs_inner their new ss
     = (if \<exists>m \<in> set ss. theirs_loses their m then Delete new their else new)"
  by (induction their new ss rule: sync_theirs_inner.induct) (auto simp: theirs_loses_def)

text \<open>
  The shape the loops of \<open>Sync\<close> and \<open>Diff\<close> share: each sibling is added and, when its inner
  loop finds a reason, deleted again. Such a loop filters.
\<close>

lemma add_delete_loop:
  assumes nil: "\<And>new. F new [] = new"
    and cons: "\<And>new x xs. F new (x # xs) = F (if P x then Delete (Add new x) x else Add new x) xs"
    and "distinct xs" "set xs \<inter> set new = {}"
  shows "F new xs = new @ filter (\<lambda>x. \<not> P x) xs"
  using assms(3,4)
proof (induction xs arbitrary: new)
  case Nil
  then show ?case by (simp add: nil)
next
  case (Cons x xs)
  then show ?case by (cases "P x") (auto simp: cons)
qed

lemma sync_mine_eq:
  assumes "distinct ss" "set ss \<inter> set new = {}"
  shows "sync_mine new ss other = new @ filter (\<lambda>m. \<not> (\<exists>t \<in> set other. mine_loses m t)) ss"
  using assms by (intro add_delete_loop) (simp_all only: sync_mine.simps sync_mine_inner_eq)

lemma sync_theirs_eq:
  assumes "distinct other" "set other \<inter> set new = {}"
  shows "sync_theirs new other ss = new @ filter (\<lambda>t. \<not> (\<exists>m \<in> set ss. theirs_loses t m)) other"
  using assms by (intro add_delete_loop [where F = "\<lambda>new other. sync_theirs new other ss"])
    (simp_all only: sync_theirs.simps sync_theirs_inner_eq)

lemma mine_loses_self: "wf_ptr p \<Longrightarrow> mine_loses p p"
  by (simp add: mine_loses_def wf_ptr_def scmp.cmp_refl)

lemma Sync_eq:
  assumes "wf_sibling_set ss" "wf_sibling_set other"
  shows "Sync ss other = filter (\<lambda>m. \<forall>t \<in> set other. \<not> mine_loses m t) ss
           @ filter (\<lambda>t. \<forall>m \<in> set ss. \<not> theirs_loses t m) other"
proof -
  have mine: "sync_mine [] ss other = filter (\<lambda>m. \<forall>t \<in> set other. \<not> mine_loses m t) ss"
    using assms by (simp add: sync_mine_eq wf_sibling_set_def)
  have "set other \<inter> set (sync_mine [] ss other) = {}"
    using assms mine_loses_self by (auto simp: mine wf_sibling_set_def)
  then show ?thesis
    using assms by (simp add: Sync_def NewSiblingSet_def sync_theirs_eq wf_sibling_set_def mine)
qed

text \<open>A sibling of theirs that \<open>Diff\<close> leaves out: one that mine already reflect.\<close>

definition known_to :: "sibling_ptr \<Rightarrow> sibling_ptr \<Rightarrow> bool" where
  "known_to their my \<longleftrightarrow> HappenedBefore (Clock (snd their)) (Clock (snd my))
     \<or> DVV_Equals (Clock (snd their)) (Clock (snd my))"

lemma diff_inner_eq:
  "diff_inner their d ss = (if \<exists>m \<in> set ss. known_to their m then Delete d their else d)"
  by (induction their d ss rule: diff_inner.induct) (auto simp: known_to_def)

lemma SiblingSet_Diff_eq:
  assumes "distinct other"
  shows "SiblingSet_Diff ss other = filter (\<lambda>t. \<forall>m \<in> set ss. \<not> known_to t m) other"
proof -
  have "diff_loop [] other ss = [] @ filter (\<lambda>t. \<not> (\<exists>m \<in> set ss. known_to t m)) other"
    using assms by (intro add_delete_loop [where F = "\<lambda>d other. diff_loop d other ss"])
      (simp_all only: diff_loop.simps diff_inner_eq, simp)
  then show ?thesis by (simp add: SiblingSet_Diff_def NewSiblingSet_def)
qed

lemma discard_loop_eq:
  assumes "distinct ss" "set ss \<inter> set new = {}"
  shows "discard_loop new ss clock = new @ filter (\<lambda>p. \<not> HappenedBefore (Clock (snd p)) clock) ss"
  using assms
  by (induction new ss clock rule: discard_loop.induct) auto

lemma Discard_eq:
  assumes "distinct ss"
  shows "Discard ss clock = filter (\<lambda>p. \<not> HappenedBefore (Clock (snd p)) clock) ss"
  using discard_loop_eq [OF assms, of "[]" clock] by (simp add: Discard_def NewSiblingSet_def)

lemma IsTombstoneSet_iff: "IsTombstoneSet ss \<longleftrightarrow> (\<forall>p \<in> set ss. IsTombstone (snd p))"
  by (induction ss) auto

lemma CanPurge_iff:
  "CanPurge ss cutoff \<longleftrightarrow> (\<forall>p \<in> set ss. IsTombstone (snd p) \<and> Timestamp (snd p) < cutoff)"
  by (induction ss cutoff rule: CanPurge.induct) auto

end
