(* ===== verification/Causality.thy ===== *)
theory Causality
  imports SiblingSet
begin

text \<open>
  What \<open>Sync\<close> means. In a causally consistent universe of siblings (every event has one sibling,
  contexts are closed under the causal past) the constant-time test \<open>HappenedBefore\<close> on dots
  coincides with inclusion of causal histories, which is a strict partial order, and \<open>Sync\<close>
  computes the maximal elements of the union. The locale \<open>causal_order\<close> is the interface: its
  lemmas turn the order laws into the semilattice laws of merging.
\<close>

section \<open>Maximal elements of a strict order\<close>

definition maximal :: "('a \<Rightarrow> 'a \<Rightarrow> bool) \<Rightarrow> 'a set \<Rightarrow> 'a set" where
  "maximal lt S = {x \<in> S. \<forall>y \<in> S. \<not> lt x y}"

definition antichain :: "('a \<Rightarrow> 'a \<Rightarrow> bool) \<Rightarrow> 'a set \<Rightarrow> bool" where
  "antichain lt S \<longleftrightarrow> (\<forall>x \<in> S. \<forall>y \<in> S. \<not> lt x y)"

lemma maximal_subset: "maximal lt S \<subseteq> S"
  by (auto simp: maximal_def)

lemma antichain_maximal [simp, intro]: "antichain lt (maximal lt S)"
  by (auto simp: antichain_def maximal_def)

lemma maximal_antichain: "antichain lt S \<Longrightarrow> maximal lt S = S"
  by (auto simp: antichain_def maximal_def)

locale causal_order =
  fixes lt :: "'a \<Rightarrow> 'a \<Rightarrow> bool"
  assumes lt_irrefl: "\<not> lt x x"
    and lt_trans: "lt x y \<Longrightarrow> lt y z \<Longrightarrow> lt x z"
begin

lemma maximal_above:
  assumes "finite S" "x \<in> S"
  shows "\<exists>y \<in> maximal lt S. x = y \<or> lt x y"
  using assms
proof (induction "card {y \<in> S. lt x y}" arbitrary: x rule: less_induct)
  case less
  show ?case
  proof (cases "x \<in> maximal lt S")
    case True
    then show ?thesis by blast
  next
    case False
    with less.prems obtain y where y: "y \<in> S" "lt x y" by (auto simp: maximal_def)
    have "{z \<in> S. lt y z} \<subset> {z \<in> S. lt x z}"
      using y lt_trans lt_irrefl by blast
    then have "card {z \<in> S. lt y z} < card {z \<in> S. lt x z}"
      using less.prems by (simp add: psubset_card_mono)
    from less.hyps [OF this less.prems(1) y(1)] show ?thesis
      using y(2) lt_trans by blast
  qed
qed

lemma maximal_Un:
  assumes "finite S"
  shows "maximal lt (maximal lt S \<union> T) = maximal lt (S \<union> T)"
proof
  show "maximal lt (maximal lt S \<union> T) \<subseteq> maximal lt (S \<union> T)"
  proof
    fix x assume x: "x \<in> maximal lt (maximal lt S \<union> T)"
    have "\<not> lt x y" if y: "y \<in> S" for y
    proof
      assume lt: "lt x y"
      obtain z where "z \<in> maximal lt S" "y = z \<or> lt y z"
        using maximal_above [OF assms y] by blast
      then have "z \<in> maximal lt S \<union> T" "lt x z" using lt lt_trans by blast+
      with x show False by (auto simp: maximal_def)
    qed
    with x show "x \<in> maximal lt (S \<union> T)" by (auto simp: maximal_def)
  qed
  show "maximal lt (S \<union> T) \<subseteq> maximal lt (maximal lt S \<union> T)"
    by (auto simp: maximal_def)
qed

lemma maximal_merge_assoc:
  assumes "finite A" "finite B" "finite C"
  shows "maximal lt (maximal lt (A \<union> B) \<union> C) = maximal lt (A \<union> maximal lt (B \<union> C))"
  using assms maximal_Un [of "A \<union> B" C] maximal_Un [of "B \<union> C" A]
  by (simp add: Un_ac)

text \<open>Leaving out elements that something kept is equal to or above does not change the result.\<close>

lemma maximal_dominated:
  assumes "finite S" "T \<subseteq> S" "\<And>x. x \<in> S \<Longrightarrow> x \<notin> T \<Longrightarrow> \<exists>y \<in> T. lt x y"
  shows "maximal lt T = maximal lt S"
proof
  show "maximal lt T \<subseteq> maximal lt S"
  proof
    fix x assume x: "x \<in> maximal lt T"
    have "\<not> lt x y" if "y \<in> S" for y
      using assms(3) [OF that] x lt_trans by (cases "y \<in> T") (auto simp: maximal_def)
    with x assms(2) show "x \<in> maximal lt S" by (auto simp: maximal_def)
  qed
  show "maximal lt S \<subseteq> maximal lt T"
    using assms(2,3) by (fastforce simp: maximal_def)
qed

end

section \<open>The causal order of siblings\<close>

definition sib_before :: "sibling \<Rightarrow> sibling \<Rightarrow> bool" where
  "sib_before a b \<longleftrightarrow> the_dot (Clock a) \<in> covered (Clock b) \<and> covered (Clock a) \<subset> covered (Clock b)"

interpretation so: causal_order sib_before
  by unfold_locales (auto simp: sib_before_def)

text \<open>A causally consistent universe of siblings.\<close>

definition causal_universe :: "sibling set \<Rightarrow> bool" where
  "causal_universe U \<longleftrightarrow>
     (\<forall>a \<in> U. wf_dvv (Clock a) \<and> proper_dvv (Clock a))
     \<and> (\<forall>a \<in> U. \<forall>b \<in> U. the_dot (Clock a) = the_dot (Clock b) \<longrightarrow> a = b)
     \<and> (\<forall>a \<in> U. \<forall>b \<in> U. the_dot (Clock a) \<in> covered (Clock b) \<longrightarrow> covered (Clock a) \<subseteq> covered (Clock b))"

lemma causal_universe_subset: "causal_universe U \<Longrightarrow> V \<subseteq> U \<Longrightarrow> causal_universe V"
  unfolding causal_universe_def by blast

lemma causal_universe_unique:
  "causal_universe U \<Longrightarrow> a \<in> U \<Longrightarrow> b \<in> U \<Longrightarrow> the_dot (Clock a) = the_dot (Clock b) \<Longrightarrow> a = b"
  unfolding causal_universe_def by blast

lemma HappenedBefore_causal:
  assumes "causal_universe U" "a \<in> U" "b \<in> U"
  shows "HappenedBefore (Clock a) (Clock b) \<longleftrightarrow> sib_before a b"
proof -
  have "proper_dvv (Clock a)" using assms unfolding causal_universe_def by blast
  moreover have "the_dot (Clock a) \<in> covered (Clock b) \<Longrightarrow> covered (Clock a) \<subseteq> covered (Clock b)"
    using assms unfolding causal_universe_def by blast
  ultimately show ?thesis
    unfolding sib_before_def HappenedBefore_iff proper_dvv_def by blast
qed

lemma DVV_Equals_causal:
  assumes "causal_universe U" "a \<in> U" "b \<in> U"
  shows "DVV_Equals (Clock a) (Clock b) \<longleftrightarrow> a = b"
proof
  assume "DVV_Equals (Clock a) (Clock b)"
  then show "a = b"
    using assms by (intro causal_universe_unique [OF assms]) (rule DVV_Equals_the_dot)
next
  assume "a = b"
  with assms(1,2) show "DVV_Equals (Clock a) (Clock b)"
    unfolding causal_universe_def by auto
qed

text \<open>The values a set of pointers holds.\<close>

definition siblings_of :: "sibling_set \<Rightarrow> sibling set" where
  "siblings_of ss = snd ` set ss"

lemma finite_siblings_of [simp]: "finite (siblings_of ss)"
  by (simp add: siblings_of_def)

lemma siblings_of_simps [simp]:
  "siblings_of [] = {}"
  "siblings_of (p # ss) = insert (snd p) (siblings_of ss)"
  "siblings_of (ss @ ts) = siblings_of ss \<union> siblings_of ts"
  by (auto simp: siblings_of_def)

lemma mine_loses_causal:
  assumes "causal_universe U" "snd m \<in> U" "snd t \<in> U"
  shows "mine_loses m t \<longleftrightarrow> sib_before (snd m) (snd t) \<or> snd m = snd t"
  using HappenedBefore_causal [OF assms] DVV_Equals_causal [OF assms]
  by (auto simp: mine_loses_def scmp.cmp_refl)

lemma theirs_loses_causal:
  assumes "causal_universe U" "snd t \<in> U" "snd m \<in> U"
  shows "theirs_loses t m \<longleftrightarrow> sib_before (snd t) (snd m)"
  using HappenedBefore_causal [OF assms] DVV_Equals_causal [OF assms]
  by (auto simp: theirs_loses_def scmp.cmp_refl)

lemma wf_of_causal:
  assumes "causal_universe U" "siblings_of ss \<subseteq> U" "distinct ss"
  shows "wf_sibling_set ss"
  using assms unfolding wf_sibling_set_def wf_ptr_def causal_universe_def siblings_of_def by auto

lemma Sync_siblings:
  assumes U: "causal_universe U" "siblings_of A \<subseteq> U" "siblings_of B \<subseteq> U"
    and d: "distinct A" "distinct B"
    and anti: "antichain sib_before (siblings_of A)" "antichain sib_before (siblings_of B)"
  shows "siblings_of (Sync A B) = maximal sib_before (siblings_of A \<union> siblings_of B)"
proof -
  have wf: "wf_sibling_set A" "wf_sibling_set B" using U d by (auto intro: wf_of_causal)
  have m: "mine_loses m t \<longleftrightarrow> sib_before (snd m) (snd t) \<or> snd m = snd t"
    and t: "theirs_loses t m \<longleftrightarrow> sib_before (snd t) (snd m)"
    if "m \<in> set A" "t \<in> set B" for m t
    using that U mine_loses_causal [OF U(1), of m t] theirs_loses_causal [OF U(1), of t m]
    by (auto simp: siblings_of_def)
  have "siblings_of (Sync A B)
      = {a \<in> siblings_of A. \<forall>b \<in> siblings_of B. \<not> sib_before a b \<and> a \<noteq> b}
        \<union> {b \<in> siblings_of B. \<forall>a \<in> siblings_of A. \<not> sib_before b a}"
    by (simp only: Sync_eq [OF wf] siblings_of_simps)
      (auto simp: siblings_of_def m t image_iff)
  also have "\<dots> = maximal sib_before (siblings_of A \<union> siblings_of B)"
    using anti by (auto simp: maximal_def antichain_def)
  finally show ?thesis .
qed

text \<open>No value appears behind two pointers.\<close>

lemma Sync_inj:
  assumes U: "causal_universe U" "siblings_of A \<subseteq> U" "siblings_of B \<subseteq> U"
    and d: "distinct A" "distinct B" and i: "inj_on snd (set A)" "inj_on snd (set B)"
  shows "inj_on snd (set (Sync A B))"
proof -
  have wf: "wf_sibling_set A" "wf_sibling_set B" using U d by (auto intro: wf_of_causal)
  have "snd m \<noteq> snd t" if "m \<in> set A" "t \<in> set B" "\<not> mine_loses m t" for m t
    using that U mine_loses_causal [OF U(1), of m t] by (auto simp: siblings_of_def)
  then have disj: "snd ` {m \<in> set A. \<forall>t \<in> set B. \<not> mine_loses m t} \<inter> snd ` set B = {}"
    by force
  have sub: "set (Sync A B) \<subseteq> {m \<in> set A. \<forall>t \<in> set B. \<not> mine_loses m t} \<union> set B"
    by (auto simp: Sync_eq [OF wf])
  have "inj_on snd {m \<in> set A. \<forall>t \<in> set B. \<not> mine_loses m t}"
    using i(1) by (rule inj_on_subset) auto
  then have "inj_on snd ({m \<in> set A. \<forall>t \<in> set B. \<not> mine_loses m t} \<union> set B)"
    unfolding inj_on_Un using i(2) disj by blast
  then show ?thesis using sub by (rule inj_on_subset)
qed

lemma distinct_Sync: "wf_sibling_set A \<Longrightarrow> wf_sibling_set B \<Longrightarrow> distinct (Sync A B)"
  using mine_loses_self by (fastforce simp: Sync_eq wf_sibling_set_def)

end
