(* ===== verification/SiblingSet_Laws.thy ===== *)
theory SiblingSet_Laws
  imports Causality
begin

text \<open>
  The contracts of the sibling-set operations the bucket store composes: the join of the clocks,
  the clock of a new event, discarding what an update supersedes, the repair of forgotten
  history in \<open>MergeSync\<close>, patches by \<open>Diff\<close>, tombstones and the object hash.
\<close>

section \<open>JoinOne and Join\<close>

lemma join_one_loop_start: "s \<le> join_one_loop ss r s"
  by (induction ss r s rule: join_one_loop.induct)
    (auto simp: Let_def intro: order_trans less_imp_le)

lemma join_one_loop_upper: "p \<in> set ss \<Longrightarrow> MaxDot (Clock (snd p)) r \<le> join_one_loop ss r s"
proof (induction ss arbitrary: s)
  case Nil
  then show ?case by simp
next
  case (Cons q ss)
  let ?s = "if s < MaxDot (Clock (snd q)) r then MaxDot (Clock (snd q)) r else s"
  have "MaxDot (Clock (snd q)) r \<le> join_one_loop ss r ?s"
    using join_one_loop_start [of ?s ss r] by (auto simp: not_less split: if_splits)
  with Cons show ?case by (auto simp: Let_def)
qed

lemma join_one_loop_attained:
  "join_one_loop ss r s = s \<or> (\<exists>p \<in> set ss. join_one_loop ss r s = MaxDot (Clock (snd p)) r)"
  by (induction ss r s rule: join_one_loop.induct) (auto simp: Let_def split: if_splits)

lemma JoinOne_upper: "p \<in> set ss \<Longrightarrow> MaxDot (Clock (snd p)) r \<le> JoinOne ss r"
  by (simp add: JoinOne_def join_one_loop_upper)

lemma JoinOne_attained: "JoinOne ss r = 0 \<or> (\<exists>p \<in> set ss. JoinOne ss r = MaxDot (Clock (snd p)) r)"
  unfolding JoinOne_def by (rule join_one_loop_attained)

text \<open>
  \<open>Join\<close> maps a replica to the largest event of that replica in any of the siblings' histories:
  an upper bound that one of the siblings attains.
\<close>

definition join_inv :: "(string \<times> u64) list \<Rightarrow> (dvv \<times> string) set \<Rightarrow> bool" where
  "join_inv cc seen \<longleftrightarrow> distinct (map fst cc)
     \<and> (\<forall>(d, r) \<in> seen. \<exists>c. map_of cc r = Some c \<and> MaxDot d r \<le> c)
     \<and> (\<forall>r c. map_of cc r = Some c \<longrightarrow> (\<exists>(d, r') \<in> seen. r' = r \<and> c = MaxDot d r))"

lemma join_put_inv:
  assumes "join_inv cc seen"
  shows "join_inv (join_put d cc r) (insert (d, r) seen)"
proof -
  have "distinct (map fst (join_put d cc r))"
    using assms by (auto simp: join_put_def join_inv_def Let_def distinct_update split: option.splits)
  moreover have "\<exists>c. map_of (join_put d cc r) r' = Some c \<and> MaxDot d' r' \<le> c"
    if "(d', r') \<in> insert (d, r) seen" for d' r'
    using assms that
    by (fastforce simp: join_put_def join_inv_def Let_def update_conv' split: option.splits)
  moreover have "\<exists>(d', r'') \<in> insert (d, r) seen. r'' = r' \<and> c = MaxDot d' r'"
    if "map_of (join_put d cc r) r' = Some c" for r' c
    using assms that
    by (fastforce simp: join_put_def join_inv_def Let_def update_conv' split: option.splits if_splits)
  ultimately show ?thesis by (auto simp: join_inv_def)
qed

lemma join_puts_inv:
  "join_inv cc seen \<Longrightarrow> join_inv (foldl (join_put d) cc rs) (seen \<union> {d} \<times> set rs)"
proof (induction rs arbitrary: cc seen)
  case Nil
  then show ?case by simp
next
  case (Cons r rs)
  from Cons.IH [OF join_put_inv [OF Cons.prems, of d r]] show ?case
    by (simp add: Un_commute insert_Times_insert)
qed

lemma join_loop_inv:
  "join_inv cc seen \<Longrightarrow>
   join_inv (join_loop cc ss) (seen \<union> {(Clock (snd p), r) | p r. p \<in> set ss \<and> r \<in> set (Replicas (Clock (snd p)))})"
proof (induction ss arbitrary: cc seen)
  case Nil
  then show ?case by simp
next
  case (Cons p ss)
  let ?d = "Clock (snd p)"
  have "join_inv (foldl (join_put ?d) cc (Replicas ?d)) (seen \<union> {?d} \<times> set (Replicas ?d))"
    using Cons.prems by (rule join_puts_inv)
  from Cons.IH [OF this] show ?case
    by (cases p, simp, elim back_subst [where P = "join_inv _"]) auto
qed

lemma Join_inv:
  "join_inv (Join ss) {(Clock (snd p), r) | p r. p \<in> set ss \<and> r \<in> set (Replicas (Clock (snd p)))}"
proof -
  have "join_inv [] {}" by (simp add: join_inv_def)
  from join_loop_inv [OF this, of ss] show ?thesis by (simp add: Join_def)
qed

lemma distinct_Join [simp]: "distinct (map fst (Join ss))"
  using Join_inv [of ss] by (simp add: join_inv_def)

lemma Join_upper:
  assumes "p \<in> set ss" "r \<in> set (Replicas (Clock (snd p)))"
  shows "\<exists>c. map_of (Join ss) r = Some c \<and> MaxDot (Clock (snd p)) r \<le> c"
  using Join_inv [of ss] assms unfolding join_inv_def by blast

lemma Join_attained:
  assumes "map_of (Join ss) r = Some c"
  shows "\<exists>p \<in> set ss. r \<in> set (Replicas (Clock (snd p))) \<and> c = MaxDot (Clock (snd p)) r"
  using Join_inv [of ss] assms unfolding join_inv_def by blast

lemma Join_le_JoinOne: "map_of (Join ss) r = Some c \<Longrightarrow> c \<le> JoinOne ss r"
  using Join_attained JoinOne_upper by blast

section \<open>The clock of a new event\<close>

definition nonempty_ids :: "sibling_set \<Rightarrow> bool" where
  "nonempty_ids ss \<longleftrightarrow> (\<forall>p \<in> set ss. NodeID (Dot (Clock (snd p))) \<noteq> [])"

text \<open>No 64-bit wrap-around of the event counter of \<open>replica\<close>.\<close>

definition event_fits :: "sibling_set \<Rightarrow> (string \<times> u64) list \<Rightarrow> string \<Rightarrow> bool" where
  "event_fits ss ctx replica \<longleftrightarrow>
     join_one_loop ss replica (case map_of ctx replica of Some c \<Rightarrow> c | None \<Rightarrow> 0) < - 1"

lemma less_plus_one: "(x :: u64) < - 1 \<Longrightarrow> x < x + 1"
proof -
  assume "x < - 1"
  then have "1 + x \<noteq> 0" by (metis add_eq_0_iff order_less_irrefl)
  then show "x < x + 1" using unatSuc [of x] by (simp add: word_less_nat_alt add.commute)
qed

lemma Event_access [simp]:
  "Context (Event ss ctx r) = ctx"
  "NodeID (Dot (Event ss ctx r)) = r"
  "Count (Dot (Event ss ctx r)) = join_one_loop ss r (case map_of ctx r of Some c \<Rightarrow> c | None \<Rightarrow> 0) + 1"
  by (simp_all add: Event_def Let_def)

lemma Event_new_dot:
  assumes "event_fits ss ctx r" "p \<in> set ss"
  shows "MaxDot (Clock (snd p)) r < Count (Dot (Event ss ctx r))"
  using join_one_loop_upper [OF assms(2)] less_plus_one [OF assms(1) [unfolded event_fits_def]]
  unfolding Event_access by (rule order_le_less_trans)

lemma Event_not_seen:
  assumes "event_fits ss ctx r" "p \<in> set ss"
  shows "the_dot (Event ss ctx r) \<notin> history (Clock (snd p))"
proof
  assume "the_dot (Event ss ctx r) \<in> history (Clock (snd p))"
  then have "Count (Dot (Event ss ctx r)) \<le> MaxDot (Clock (snd p)) r"
    by (intro MaxDot_upper) (simp add: the_dot_def)
  with Event_new_dot [OF assms] show False by simp
qed

lemma Event_proper:
  assumes "event_fits ss ctx r"
  shows "proper_dvv (Event ss ctx r)"
proof -
  have "c < Count (Dot (Event ss ctx r))" if "map_of ctx r = Some c" for c
    using that join_one_loop_start [of c ss r] less_plus_one assms
    unfolding event_fits_def by (auto intro: order_le_less_trans)
  then show ?thesis
    by (auto simp: proper_dvv_def the_dot_def covered_def simp del: Event_access(3))
qed

text \<open>With the join of the clocks as its context, an event supersedes every sibling.\<close>

lemma HappenedBefore_Join:
  assumes "p \<in> set ss" "wf_ptr p" "NodeID (Dot (Clock (snd p))) \<noteq> []"
  shows "HappenedBefore (Clock (snd p)) (Event ss (Join ss) r)"
proof -
  let ?n = "NodeID (Dot (Clock (snd p)))"
  have "?n \<in> set (Replicas (Clock (snd p)))"
    using assms by (simp add: set_Replicas wf_ptr_def)
  then obtain c where c: "map_of (Join ss) ?n = Some c" "MaxDot (Clock (snd p)) ?n \<le> c"
    using Join_upper assms(1) by blast
  have "Count (Dot (Clock (snd p))) \<le> MaxDot (Clock (snd p)) ?n"
    by (simp add: MaxDot_eq)
  with c show ?thesis
    by (auto simp: HappenedBefore_def)
qed

lemma Discard_Join:
  assumes "wf_sibling_set ss" "nonempty_ids ss"
  shows "Discard ss (Event ss (Join ss) r) = []"
  using assms HappenedBefore_Join
  by (auto simp: Discard_eq wf_sibling_set_def nonempty_ids_def filter_empty_conv)

section \<open>Tombstones and the object hash\<close>

lemma oldest_tombstone_loop_None:
  "oldest_tombstone_loop old ss = None \<longleftrightarrow> old = None \<and> (\<forall>p \<in> set ss. \<not> IsTombstone (snd p))"
  by (induction old ss rule: oldest_tombstone_loop.induct) (auto split: option.splits)

lemma oldest_tombstone_loop_in:
  "oldest_tombstone_loop old ss = Some q \<Longrightarrow> old = Some q \<or> q \<in> set ss \<and> IsTombstone (snd q)"
  by (induction old ss rule: oldest_tombstone_loop.induct) (auto split: option.splits if_splits)

lemma oldest_tombstone_loop_old:
  "oldest_tombstone_loop (Some o') ss = Some q \<Longrightarrow> Timestamp (snd q) \<le> Timestamp (snd o')"
proof (induction ss arbitrary: o')
  case Nil
  then show ?case by simp
next
  case (Cons p ss)
  show ?case
  proof (cases "IsTombstone (snd p) \<and> Timestamp (snd p) < Timestamp (snd o')")
    case True
    with Cons.prems have "Timestamp (snd q) \<le> Timestamp (snd p)" by (intro Cons.IH) simp
    with True show ?thesis by (meson less_imp_le order_trans)
  next
    case False
    with Cons.prems have "oldest_tombstone_loop (Some o') ss = Some q"
      by (auto split: if_splits)
    then show ?thesis by (rule Cons.IH)
  qed
qed

lemma oldest_tombstone_loop_least:
  "oldest_tombstone_loop old ss = Some q \<Longrightarrow> p \<in> set ss \<Longrightarrow> IsTombstone (snd p)
     \<Longrightarrow> Timestamp (snd q) \<le> Timestamp (snd p)"
proof (induction ss arbitrary: old)
  case Nil
  then show ?case by simp
next
  case (Cons p' ss)
  show ?case
  proof (cases "p \<in> set ss")
    case True
    with Cons show ?thesis by simp
  next
    case False
    with Cons.prems have "p' = p" by simp
    with Cons.prems obtain o' where "oldest_tombstone_loop (Some o') ss = Some q"
      "Timestamp (snd o') \<le> Timestamp (snd p)"
      by (auto simp: not_less split: option.splits if_splits)
    then show ?thesis using oldest_tombstone_loop_old [of o' ss q] by simp
  qed
qed

lemma GetOldestTombstone_Some:
  "GetOldestTombstone ss = Some q \<Longrightarrow> q \<in> set ss \<and> IsTombstone (snd q)
     \<and> (\<forall>p \<in> set ss. IsTombstone (snd p) \<longrightarrow> Timestamp (snd q) \<le> Timestamp (snd p))"
  using oldest_tombstone_loop_in [of None ss q] oldest_tombstone_loop_least [of None ss q]
  by (auto simp: GetOldestTombstone_def)

lemma GetOldestTombstone_None:
  "GetOldestTombstone ss = None \<longleftrightarrow> (\<forall>p \<in> set ss. \<not> IsTombstone (snd p))"
  by (simp add: GetOldestTombstone_def oldest_tombstone_loop_None)

lemma SiblingSet_Hash_perm:
  "mset ss = mset ts \<Longrightarrow> SiblingSet_Hash (Some ss) key = SiblingSet_Hash (Some ts) key"
  using hx.foldl_xor_perm [of ss ts "\<lambda>p. Sibling_Hash (Some (snd p))" zero_hash]
  by (simp add: SiblingSet_Hash_def Let_def)

lemma SiblingSet_Hash_tombstones:
  "IsTombstoneSet ss \<Longrightarrow> SiblingSet_Hash (Some ss) key = zero_hash"
  using hx.foldl_xor_zero [of ss "\<lambda>p. Sibling_Hash (Some (snd p))"]
  by (simp add: SiblingSet_Hash_def IsTombstoneSet_iff Sibling_Hash_tombstone)
    (simp add: zero_hash_def Low_def)

lemma SiblingSet_Hash_purgeable:
  "CanPurge ss cutoff \<Longrightarrow> SiblingSet_Hash (Some ss) key = zero_hash"
  by (rule SiblingSet_Hash_tombstones) (simp add: CanPurge_iff IsTombstoneSet_iff)

section \<open>MergeSync\<close>

lemma merge_outer_False:
  assumes "distinct ss" "set ss \<inter> set new = {}"
  shows "merge_outer r False other ss (new, mx, a) = (new @ ss, mx, a)"
  using assms by (induction ss arbitrary: new) auto

text \<open>
  A replica that knows all of its own events merges with plain \<open>Sync\<close> and allocates nothing.
\<close>

lemma MergeSync_Sync:
  assumes "distinct ss" "JoinOne other r \<le> JoinOne ss r"
  shows "MergeSync a ss other r = (Sync ss other, a)"
  using assms by (simp add: MergeSync_def Let_def NewSiblingSet_def merge_outer_False leD
      flip: not_le)

text \<open>The siblings of mine that \<open>MergeSync\<close> writes again under a new event, and the rewrite.\<close>

definition rewritten_for :: "string \<Rightarrow> sibling_ptr \<Rightarrow> sibling_ptr \<Rightarrow> bool" where
  "rewritten_for r my their \<longleftrightarrow> HappenedBefore (Clock (snd my)) (Clock (snd their))
     \<and> MaxDot (Clock (snd my)) r < MaxDot (Clock (snd their)) r
     \<and> MaxDot (Clock (snd my)) r \<noteq> 0"

definition renewed :: "string \<Rightarrow> sibling \<Rightarrow> u64 \<Rightarrow> sibling" where
  "renewed r s c = NewSibling (NewDVV (NewDot r c) (Context (Clock s))) (Sibling_Value s) (Timestamp s)"

lemma merge_inner_Cons:
  "merge_inner r my (their # rest) (new, mx, a) = merge_inner r my rest
     (if rewritten_for r my their then (Add (Delete new my) (a, renewed r (snd my) (mx + 1)), mx + 1, Suc a)
      else (new, mx, a))"
  by (simp add: rewritten_for_def renewed_def)

declare merge_inner.simps(2) [simp del]

text \<open>
  What one run of the inner loop keeps: the pointers of \<open>new\<close> other than \<open>my\<close> stay, \<open>my\<close> is
  rewritten under an event above \<open>base\<close> if any of their siblings requires it, and the event
  counter advances by at most one per sibling of theirs.
\<close>

lemma merge_inner_spec:
  assumes "merge_inner r my other (new, base + of_nat n, a) = (new', mx', a')"
    and "\<forall>p \<in> set new. fst p < a" "fst my < a"
  shows "\<exists>n'. n \<le> n' \<and> n' \<le> n + length other \<and> mx' = base + of_nat n' \<and> a \<le> a'
    \<and> (\<forall>p \<in> set new'. fst p < a')
    \<and> (\<forall>p \<in> set new. p \<noteq> my \<longrightarrow> p \<in> set new')
    \<and> ((\<exists>t \<in> set other. rewritten_for r my t) \<longrightarrow>
         (\<exists>q \<in> set new'. a \<le> fst q \<and> (\<exists>j. n < j \<and> j \<le> n' \<and> snd q = renewed r (snd my) (base + of_nat j))))"
  using assms
proof (induction other arbitrary: new n a)
  case Nil
  then show ?case by auto
next
  case (Cons t other)
  show ?case
  proof (cases "rewritten_for r my t")
    case False
    with Cons.prems have "merge_inner r my other (new, base + of_nat n, a) = (new', mx', a')"
      by (simp add: merge_inner_Cons)
    from Cons.IH [OF this Cons.prems(2,3)] False show ?thesis by (auto intro: le_SucI)
  next
    case True
    let ?q = "(a, renewed r (snd my) (base + of_nat (Suc n)))"
    let ?new = "Add (Delete new my) ?q"
    have run: "merge_inner r my other (?new, base + of_nat (Suc n), Suc a) = (new', mx', a')"
      using Cons.prems(1) True by (simp add: merge_inner_Cons add.commute add.left_commute)
    have "?new = Delete new my @ [?q]"
      using Cons.prems(2) by (intro Add_fresh) auto
    then have new: "set ?new = insert ?q (set new - {my})" by simp
    have "\<forall>p \<in> set ?new. fst p < Suc a" "fst my < Suc a"
      using Cons.prems(2,3) unfolding new by (auto intro: less_SucI)
    from Cons.IH [OF run this] obtain n' where n':
      "Suc n \<le> n'" "n' \<le> Suc n + length other" "mx' = base + of_nat n'" "Suc a \<le> a'"
      "\<forall>p \<in> set new'. fst p < a'" "\<forall>p \<in> set ?new. p \<noteq> my \<longrightarrow> p \<in> set new'" by blast
    have "?q \<noteq> my" using Cons.prems(3) by (metis fst_conv less_irrefl)
    then have "?q \<in> set new'" using n'(6) new by blast
    then have ex: "\<exists>q \<in> set new'. a \<le> fst q
        \<and> (\<exists>j. n < j \<and> j \<le> n' \<and> snd q = renewed r (snd my) (base + of_nat j))"
      using n'(1) by (intro bexI [of _ ?q] conjI exI [of _ "Suc n"]) simp_all
    have keep: "\<forall>p \<in> set new. p \<noteq> my \<longrightarrow> p \<in> set new'" using n'(6) new by blast
    have "n \<le> n'" "n' \<le> n + length (t # other)" "a \<le> a'" using n' by simp_all
    with n'(3,5) ex keep show ?thesis by blast
  qed
qed

lemma merge_outer_spec:
  assumes "merge_outer r True other ss (new, base + of_nat n, a) = (new', mx', a')"
    and "\<forall>p \<in> set new. fst p < a" "\<forall>p \<in> set ss. fst p < lo" "lo \<le> a"
  shows "(\<forall>q \<in> set new. lo \<le> fst q \<longrightarrow> q \<in> set new')
    \<and> (\<forall>m \<in> set ss. (\<exists>t \<in> set other. rewritten_for r m t) \<longrightarrow>
         (\<exists>q \<in> set new'. \<exists>j. 0 < j \<and> j \<le> n + length ss * length other
            \<and> snd q = renewed r (snd m) (base + of_nat j)))"
  using assms
proof (induction ss arbitrary: new n a)
  case Nil
  then show ?case by simp
next
  case (Cons m ss)
  obtain new1 mx1 a1 where run: "merge_inner r m other (Add new m, base + of_nat n, a) = (new1, mx1, a1)"
    by (metis prod_cases3)
  have m: "\<forall>p \<in> set (Add new m). fst p < a" "fst m < a"
    using Cons.prems by (auto simp: Add_def)
  from merge_inner_spec [OF run m] obtain n1 where n1:
    "n \<le> n1" "n1 \<le> n + length other" "mx1 = base + of_nat n1" "a \<le> a1"
    "\<forall>p \<in> set new1. fst p < a1" "\<forall>p \<in> set (Add new m). p \<noteq> m \<longrightarrow> p \<in> set new1"
    "(\<exists>t \<in> set other. rewritten_for r m t) \<longrightarrow>
         (\<exists>q \<in> set new1. a \<le> fst q \<and> (\<exists>j. n < j \<and> j \<le> n1 \<and> snd q = renewed r (snd m) (base + of_nat j)))"
    by blast
  have "merge_outer r True other ss (new1, base + of_nat n1, a1) = (new', mx', a')"
    using Cons.prems(1) run n1(3) by simp
  note IH = Cons.IH [OF this n1(5)]
  have lo: "\<forall>p \<in> set ss. fst p < lo" "lo \<le> a1" "fst m < lo"
    using Cons.prems n1(4) by auto
  have keep: "\<forall>q \<in> set new. lo \<le> fst q \<longrightarrow> q \<in> set new1"
    using n1(6) lo(3) by (auto simp: Add_def split: if_splits)
  have bound: "n1 + length ss * length other \<le> n + length (m # ss) * length other"
    using n1(2) by simp
  have "\<exists>q \<in> set new'. \<exists>j. 0 < j \<and> j \<le> n + length (m # ss) * length other
            \<and> snd q = renewed r (snd m) (base + of_nat j)"
    if rw: "\<exists>t \<in> set other. rewritten_for r m t"
  proof -
    from n1(7) rw obtain q j where q: "q \<in> set new1" "a \<le> fst q" "n < j" "j \<le> n1"
      "snd q = renewed r (snd m) (base + of_nat j)" by blast
    then have "q \<in> set new'" using IH [OF lo(1,2)] Cons.prems(4) by auto
    moreover have "j \<le> n + length (m # ss) * length other" using q(4) bound by linarith
    ultimately show ?thesis using q by (metis gr_zeroI not_less0)
  qed
  with IH [OF lo(1,2)] keep bound show ?case
    by (auto 0 4 intro: order_trans)
qed

text \<open>The rebuilt set is well-formed: rewrites keep the context of the sibling they replace.\<close>

lemma merge_inner_wf:
  assumes "merge_inner r my other (new, mx, a) = (new', mx', a')"
    and "distinct new" "\<forall>p \<in> insert my (set new). wf_ptr p" "\<forall>p \<in> set new. fst p < a"
  shows "distinct new' \<and> (\<forall>p \<in> set new'. wf_ptr p \<and> fst p < a' \<and> (p \<in> set new \<or> a \<le> fst p)) \<and> a \<le> a'"
  using assms
proof (induction other arbitrary: new mx a)
  case Nil
  then show ?case by simp
next
  case (Cons t other)
  show ?case
  proof (cases "rewritten_for r my t")
    case False
    with Cons show ?thesis by (simp add: merge_inner_Cons)
  next
    case True
    let ?q = "(a, renewed r (snd my) (mx + 1))"
    have new: "Add (Delete new my) ?q = Delete new my @ [?q]"
      using Cons.prems(4) by (intro Add_fresh) auto
    have wf: "wf_ptr ?q"
      using Cons.prems(3) by (simp add: wf_ptr_def renewed_def wf_dvv_def)
    have "distinct (Delete new my @ [?q])" "\<forall>p \<in> insert my (set (Delete new my @ [?q])). wf_ptr p"
      "\<forall>p \<in> set (Delete new my @ [?q]). fst p < Suc a"
      using Cons.prems(2-4) wf by (auto simp: Delete_def intro: less_SucI)
    with Cons.IH [of "Delete new my @ [?q]" "mx + 1" "Suc a"] Cons.prems(1) True new
    have "distinct new' \<and> (\<forall>p \<in> set new'. wf_ptr p \<and> fst p < a'
        \<and> (p \<in> set (Delete new my @ [?q]) \<or> Suc a \<le> fst p)) \<and> Suc a \<le> a'"
      by (simp add: merge_inner_Cons)
    then show ?thesis by (fastforce dest: Suc_leD)
  qed
qed

lemma merge_outer_wf_gen:
  assumes "merge_outer r True other ss (new, mx, a) = (new', mx', a')"
    and "distinct new" "\<forall>p \<in> set new. wf_ptr p" "\<forall>p \<in> set new. fst p < a"
    and "\<forall>p \<in> set ss. wf_ptr p \<and> fst p < a"
  shows "wf_sibling_set new'"
  using assms
proof (induction ss arbitrary: new mx a)
  case Nil
  then show ?case by (simp add: wf_sibling_set_def)
next
  case (Cons m ss)
  obtain new1 mx1 a1 where run: "merge_inner r m other (Add new m, mx, a) = (new1, mx1, a1)"
    by (metis prod_cases3)
  have "distinct (Add new m)" "\<forall>p \<in> insert m (set (Add new m)). wf_ptr p" "\<forall>p \<in> set (Add new m). fst p < a"
    using Cons.prems by (auto simp: Add_def)
  from merge_inner_wf [OF run this] have "distinct new1" "\<forall>p \<in> set new1. wf_ptr p"
    "\<forall>p \<in> set new1. fst p < a1" "a \<le> a1" by blast+
  moreover have "\<forall>p \<in> set ss. wf_ptr p \<and> fst p < a1" using Cons.prems(5) \<open>a \<le> a1\<close> by auto
  ultimately show ?case using Cons.IH [of new1 mx1 a1] Cons.prems(1) run by simp
qed

lemma merge_outer_wf:
  assumes "merge_outer r True other ss ([], mx, a) = (new, mx', a')"
    and "wf_sibling_set ss" "\<forall>p \<in> set ss. fst p < a"
  shows "wf_sibling_set new"
  using merge_outer_wf_gen [OF assms(1)] assms(2,3) by (simp add: wf_sibling_set_def)

lemma plus_of_nat_greater:
  assumes "0 < j" "unat (x :: u64) + j < 2 ^ 64"
  shows "x < x + of_nat j"
proof -
  have "unat (of_nat j :: u64) = j"
    using assms(2) by (simp add: unat_of_nat)
  then have "unat (x + of_nat j) = unat x + j"
    using assms(2) by (subst unat_add_lem [THEN iffD1]) simp_all
  then show ?thesis using assms(1) by (simp add: word_less_nat_alt)
qed

text \<open>An event of \<open>r\<close> above everything the other set knows of \<open>r\<close> survives \<open>Sync\<close>.\<close>

lemma fresh_event_survives:
  assumes "\<forall>p \<in> set other. wf_ptr p" "JoinOne other r < c" "q \<in> set new" "snd q = renewed r s c"
    and "wf_sibling_set new" "wf_sibling_set other"
  shows "q \<in> set (Sync new other)"
proof -
  have hist: "(r, c) \<notin> history (Clock (snd t))" if "t \<in> set other" for t
    using that MaxDot_upper [of r c "Clock (snd t)"] JoinOne_upper [OF that, of r] assms(2) by auto
  have dot: "the_dot (Clock (snd q)) = (r, c)"
    by (simp add: assms(4) renewed_def the_dot_def)
  have "\<not> mine_loses q t" if t: "t \<in> set other" for t
    using hist [OF t] dot DVV_Equals_the_dot [of "Clock (snd q)" "Clock (snd t)"]
    by (auto simp: mine_loses_def HappenedBefore_iff history_def)
  with assms show ?thesis by (simp add: Sync_eq)
qed

section \<open>Diff: patches\<close>

text \<open>
  Merging only the siblings \<open>Diff\<close> reports is as good as merging the whole other set.
\<close>

lemma Diff_sufficient:
  assumes U: "causal_universe U" "siblings_of A \<subseteq> U" "siblings_of B \<subseteq> U"
    and d: "distinct A" "distinct B"
    and anti: "antichain sib_before (siblings_of A)" "antichain sib_before (siblings_of B)"
  shows "siblings_of (Sync A (SiblingSet_Diff A B)) = siblings_of (Sync A B)"
proof -
  let ?D = "SiblingSet_Diff A B"
  have sub: "siblings_of ?D \<subseteq> siblings_of B" and dD: "distinct ?D"
    using d by (auto simp: SiblingSet_Diff_eq siblings_of_def)
  have antiD: "antichain sib_before (siblings_of ?D)"
    using sub anti(2) by (auto simp: antichain_def)
  have dom: "\<exists>y \<in> siblings_of A \<union> siblings_of ?D. sib_before x y"
    if x: "x \<in> siblings_of A \<union> siblings_of B" "x \<notin> siblings_of A \<union> siblings_of ?D" for x
  proof -
    obtain t where t: "t \<in> set B" "t \<notin> set ?D" "snd t = x"
      using x by (auto simp: siblings_of_def)
    then obtain m where m: "m \<in> set A" "known_to t m"
      using d by (auto simp: SiblingSet_Diff_eq)
    have "snd t \<in> U" "snd m \<in> U" "snd t \<noteq> snd m"
      using t m U x by (auto simp: siblings_of_def)
    then have "sib_before (snd t) (snd m)"
      using m(2) HappenedBefore_causal [OF U(1)] DVV_Equals_causal [OF U(1)]
      by (auto simp: known_to_def)
    then show ?thesis using t m by (auto simp: siblings_of_def)
  qed
  have "siblings_of (Sync A ?D) = maximal sib_before (siblings_of A \<union> siblings_of ?D)"
    using U d anti sub dD antiD by (intro Sync_siblings [OF U(1)]) auto
  also have "\<dots> = maximal sib_before (siblings_of A \<union> siblings_of B)"
    using sub dom by (intro so.maximal_dominated) auto
  also have "\<dots> = siblings_of (Sync A B)"
    using U d anti by (intro Sync_siblings [OF U(1), symmetric]) auto
  finally show ?thesis .
qed

end
