(* ===== verification/Data_Properties.thy ===== *)
theory Data_Properties
  imports SiblingSet_Laws
begin

text \<open>
  The properties of the data component (\<^verbatim>\<open>data/\<close>), each with a witness on concrete sets of two
  replicas \<^verbatim>\<open>a\<close> and \<^verbatim>\<open>b\<close>.
\<close>

section \<open>Concrete siblings for the witnesses\<close>

definition ex_a1 :: sibling where
  "ex_a1 = NewSibling (NewDVV (NewDot ''a'' 1) []) (Some [1]) 10"

definition ex_b1 :: sibling where
  "ex_b1 = NewSibling (NewDVV (NewDot ''b'' 1) [(''a'', 1)]) (Some [2]) 20"

definition ex_b2 :: sibling where
  "ex_b2 = NewSibling (NewDVV (NewDot ''b'' 2) [(''a'', 1)]) (Some [3]) 30"

definition ex_a2 :: sibling where
  "ex_a2 = NewSibling (NewDVV (NewDot ''a'' 2) [(''b'', 5), (''a'', 1)]) None 40"

definition ex_b9 :: sibling where
  "ex_b9 = NewSibling (NewDVV (NewDot ''b'' 9) [(''b'', 8), (''a'', 1)]) None 5"

lemmas ex_defs = ex_a1_def ex_b1_def ex_b2_def ex_a2_def

lemma covered_simps [simp]:
  "covered (NewDVV d []) = {}"
  "covered (NewDVV d [(n, c)]) = {(n, x) | x. x \<le> c}"
  by (auto simp: covered_def split: if_splits)

lemma ex_causal: "causal_universe {ex_a1, ex_b1, ex_b2}"
  by (auto simp: causal_universe_def ex_defs wf_dvv_def proper_dvv_def the_dot_def)

lemma ex_antichains:
  "antichain sib_before {ex_a1}" "antichain sib_before {ex_b1, ex_b2}" "antichain sib_before {ex_b1}"
  "antichain sib_before {ex_b2}"
  by (auto simp: antichain_def sib_before_def ex_defs the_dot_def)

section \<open>Sync\<close>

text \<open>C3: the nested add/delete loops of \<open>Sync\<close> compute two filters: a sibling of mine stays
  unless one of theirs supersedes it or ties with it and wins, and one of theirs stays unless one
  of mine supersedes it or ties with it and is strictly larger. This holds also when the two
  sets share pointers.\<close>

theorem Sync_filters:
  assumes "wf_sibling_set ss" "wf_sibling_set other"
  shows "Sync ss other
    = filter (\<lambda>m. \<forall>t \<in> set other. \<not> HappenedBefore (Clock (snd m)) (Clock (snd t))
          \<and> \<not> (DVV_Equals (Clock (snd m)) (Clock (snd t)) \<and> Sibling_Compare (snd m) (snd t) \<le> 0)) ss
      @ filter (\<lambda>t. \<forall>m \<in> set ss. \<not> HappenedBefore (Clock (snd t)) (Clock (snd m))
          \<and> \<not> (DVV_Equals (Clock (snd t)) (Clock (snd m)) \<and> Sibling_Compare (snd t) (snd m) < 0)) other"
  unfolding Sync_eq [OF assms] mine_loses_def theirs_loses_def by simp

theorem Sync_filters_witness:
  "wf_sibling_set [(0, ex_a1)] \<and> wf_sibling_set [(1, ex_b1), (2, ex_b2)]
   \<and> Sync [(0, ex_a1)] [(1, ex_b1), (2, ex_b2)] = [(1, ex_b1), (2, ex_b2)]"
proof -
  have wf: "wf_sibling_set [(0, ex_a1)]" "wf_sibling_set [(1, ex_b1), (2, ex_b2)]"
    by (auto simp: wf_sibling_set_def wf_ptr_def wf_dvv_def ex_defs)
  have "Sync [(0, ex_a1)] [(1, ex_b1), (2, ex_b2)] = [(1, ex_b1), (2, ex_b2)]"
    unfolding Sync_filters [OF wf] by (simp add: ex_defs HappenedBefore_def DVV_Equals_def)
  with wf show ?thesis by simp
qed

text \<open>C1: in a causally consistent universe \<open>Sync\<close> keeps exactly the causally maximal siblings of
  both sets, and is commutative, associative and idempotent: replicas that merge the same updates
  in any order and grouping hold the same siblings.\<close>

theorem Sync_semilattice:
  assumes U: "causal_universe U" "siblings_of A \<union> siblings_of B \<union> siblings_of C \<subseteq> U"
    and d: "distinct A" "distinct B" "distinct C"
    and anti: "antichain sib_before (siblings_of A)" "antichain sib_before (siblings_of B)"
      "antichain sib_before (siblings_of C)"
  shows "siblings_of (Sync A B) = maximal sib_before (siblings_of A \<union> siblings_of B)
    \<and> siblings_of (Sync A B) = siblings_of (Sync B A)
    \<and> siblings_of (Sync (Sync A B) C) = siblings_of (Sync A (Sync B C))
    \<and> siblings_of (Sync A A) = siblings_of A"
proof (intro conjI)
  have wf: "wf_sibling_set A" "wf_sibling_set B" "wf_sibling_set C"
    using U d by (auto intro: wf_of_causal [OF U(1)])
  have S: "siblings_of (Sync X Y) = maximal sib_before (siblings_of X \<union> siblings_of Y)"
    if "siblings_of X \<subseteq> U" "siblings_of Y \<subseteq> U" "distinct X" "distinct Y"
      "antichain sib_before (siblings_of X)" "antichain sib_before (siblings_of Y)" for X Y
    using U(1) that by (rule Sync_siblings)
  show AB: "siblings_of (Sync A B) = maximal sib_before (siblings_of A \<union> siblings_of B)"
    using U d anti by (intro S) auto
  have BC: "siblings_of (Sync B C) = maximal sib_before (siblings_of B \<union> siblings_of C)"
    using U d anti by (intro S) auto
  show "siblings_of (Sync A B) = siblings_of (Sync B A)"
    using U d anti unfolding AB by (subst S) (auto simp: Un_commute)
  show "siblings_of (Sync A A) = siblings_of A"
    using U d anti by (subst S) (auto simp: maximal_antichain)
  have "siblings_of (Sync (Sync A B) C) = maximal sib_before (siblings_of (Sync A B) \<union> siblings_of C)"
    using U wf d anti AB maximal_subset [of sib_before "siblings_of A \<union> siblings_of B"]
    by (intro S) (auto simp: distinct_Sync)
  also have "\<dots> = maximal sib_before (siblings_of A \<union> siblings_of (Sync B C))"
    unfolding AB BC by (rule so.maximal_merge_assoc) simp_all
  also have "\<dots> = siblings_of (Sync A (Sync B C))"
    using U wf d anti BC maximal_subset [of sib_before "siblings_of B \<union> siblings_of C"]
    by (intro S [symmetric]) (auto simp: distinct_Sync)
  finally show "siblings_of (Sync (Sync A B) C) = siblings_of (Sync A (Sync B C))" .
qed

theorem Sync_semilattice_witness:
  "siblings_of (Sync (Sync [(0, ex_a1)] [(1, ex_b1)]) [(2, ex_b2)])
     = siblings_of (Sync [(0, ex_a1)] (Sync [(1, ex_b1)] [(2, ex_b2)]))
   \<and> siblings_of (Sync [(0, ex_a1)] [(1, ex_b1)]) = {ex_b1}"
proof -
  have U: "siblings_of [(0, ex_a1)] \<union> siblings_of [(1, ex_b1)] \<union> siblings_of [(2, ex_b2)]
      \<subseteq> {ex_a1, ex_b1, ex_b2}" by simp
  have "siblings_of (Sync [(0, ex_a1)] [(1, ex_b1)]) = maximal sib_before {ex_a1, ex_b1}"
    using Sync_semilattice [OF ex_causal U] ex_antichains by (simp add: insert_commute)
  also have "\<dots> = {ex_b1}"
    by (auto simp: maximal_def sib_before_def ex_defs the_dot_def)
  finally show ?thesis
    using Sync_semilattice [OF ex_causal U] ex_antichains by simp
qed

section \<open>MergeSync\<close>

text \<open>C10: a replica that has seen all of its own events merges exactly as \<open>Sync\<close> does.\<close>

theorem MergeSync_is_Sync:
  assumes "distinct ss" "JoinOne other replica \<le> JoinOne ss replica"
  shows "MergeSync alloc ss other replica = (Sync ss other, alloc)"
  using assms by (rule MergeSync_Sync)

theorem MergeSync_is_Sync_witness:
  "JoinOne [(1, ex_b1)] ''a'' \<le> JoinOne [(0, ex_a1)] ''a''
   \<and> MergeSync 7 [(0, ex_a1)] [(1, ex_b1)] ''a'' = (Sync [(0, ex_a1)] [(1, ex_b1)], 7)"
proof -
  have "JoinOne [(1, ex_b1)] ''a'' \<le> JoinOne [(0, ex_a1)] ''a''"
    by (simp add: JoinOne_def ex_defs MaxDot_def)
  with MergeSync_is_Sync [of "[(0, ex_a1)]" "[(1, ex_b1)]" "''a''" 7] show ?thesis by simp
qed

text \<open>C2: no lost update (CLD-434). When the other set shows that this replica forgot its own
  history, a sibling of mine that one of theirs would overwrite because of the forgotten events
  is written again under a fresh event of this replica, and that new version survives the merge
  with the same value and timestamp.\<close>

theorem MergeSync_no_lost_update:
  assumes wf: "wf_sibling_set ss" "wf_sibling_set other"
    and addr: "\<forall>p \<in> set ss. fst p < alloc" "\<forall>p \<in> set other. fst p < alloc"
    and forgot: "JoinOne ss replica < JoinOne other replica"
    and fits: "unat (JoinOne other replica) + length ss * length other < 2 ^ 64"
    and m: "m \<in> set ss" and t: "t \<in> set other"
    and over: "HappenedBefore (Clock (snd m)) (Clock (snd t))"
      "MaxDot (Clock (snd m)) replica < MaxDot (Clock (snd t)) replica"
      "MaxDot (Clock (snd m)) replica \<noteq> 0"
  shows "\<exists>q \<in> set (fst (MergeSync alloc ss other replica)).
     Sibling_Value (snd q) = Sibling_Value (snd m) \<and> Timestamp (snd q) = Timestamp (snd m)
     \<and> NodeID (Dot (Clock (snd q))) = replica \<and> JoinOne other replica < Count (Dot (Clock (snd q)))"
proof -
  let ?base = "JoinOne other replica"
  obtain new mx a where run: "merge_outer replica True other ss ([], ?base + of_nat 0, alloc) = (new, mx, a)"
    by (metis prod_cases3)
  have ms: "fst (MergeSync alloc ss other replica) = Sync new other"
    using run forgot by (simp add: MergeSync_def Let_def NewSiblingSet_def)
  have "\<exists>t \<in> set other. rewritten_for replica m t"
    using t over by (auto simp: rewritten_for_def)
  with merge_outer_spec [OF run _ addr(1)] m obtain q j where q: "q \<in> set new" "0 < j"
    "j \<le> length ss * length other" "snd q = renewed replica (snd m) (?base + of_nat j)"
    by auto
  have c: "?base < ?base + of_nat j"
    using q(2,3) fits by (intro plus_of_nat_greater) auto
  have "wf_sibling_set new"
    using merge_outer_wf [OF run] wf(1) addr(1) by simp
  then have "q \<in> set (Sync new other)"
    using fresh_event_survives [OF _ c q(1,4)] wf by (simp add: wf_sibling_set_def)
  with ms q(4) c show ?thesis by (auto simp: renewed_def intro!: bexI [of _ q])
qed

theorem MergeSync_no_lost_update_witness:
  "\<exists>q \<in> set (fst (MergeSync 7 [(0, ex_b1)] [(1, ex_b9)] ''b'')).
     Sibling_Value (snd q) = Some [2] \<and> Timestamp (snd q) = 20"
proof -
  have "\<exists>q \<in> set (fst (MergeSync 7 [(0, ex_b1)] [(1, ex_b9)] ''b'')).
     Sibling_Value (snd q) = Sibling_Value (snd (0::nat, ex_b1)) \<and> Timestamp (snd q) = Timestamp (snd (0::nat, ex_b1))
     \<and> NodeID (Dot (Clock (snd q))) = ''b'' \<and> JoinOne [(1, ex_b9)] ''b'' < Count (Dot (Clock (snd q)))"
    by (rule MergeSync_no_lost_update [of _ _ _ _ _ "(1, ex_b9)"])
      (auto simp: ex_defs ex_b9_def wf_sibling_set_def wf_ptr_def wf_dvv_def JoinOne_def MaxDot_def
        HappenedBefore_def Let_def)
  then show ?thesis by (auto simp: ex_defs)
qed

section \<open>Events and patches\<close>

text \<open>C11: a write made with the current siblings as its context gets an event no sibling has seen,
  is not in its own past, supersedes every sibling and leaves the new version alone in the set.\<close>

theorem Event_supersedes:
  assumes "wf_sibling_set ss" "nonempty_ids ss" "event_fits ss (Join ss) replica"
    and "q = (alloc, NewSibling (Event ss (Join ss) replica) val timestamp)"
  shows "Sync (Discard ss (Event ss (Join ss) replica)) (NewSiblingSet [q]) = [q]
    \<and> proper_dvv (Event ss (Join ss) replica)
    \<and> (\<forall>p \<in> set ss. HappenedBefore (Clock (snd p)) (Event ss (Join ss) replica)
           \<and> \<not> HappenedBefore (Event ss (Join ss) replica) (Clock (snd p)))"
proof (intro conjI)
  show "proper_dvv (Event ss (Join ss) replica)" using assms(3) by (rule Event_proper)
  have "\<not> HappenedBefore (Event ss (Join ss) replica) (Clock (snd p))" if "p \<in> set ss" for p
    using Event_not_seen [OF assms(3) that] by (simp add: HappenedBefore_iff history_def)
  then show "\<forall>p \<in> set ss. HappenedBefore (Clock (snd p)) (Event ss (Join ss) replica)
           \<and> \<not> HappenedBefore (Event ss (Join ss) replica) (Clock (snd p))"
    using assms HappenedBefore_Join by (auto simp: wf_sibling_set_def nonempty_ids_def)
  show "Sync (Discard ss (Event ss (Join ss) replica)) (NewSiblingSet [q]) = [q]"
    unfolding Discard_Join [OF assms(1,2)] by (simp add: Sync_def NewSiblingSet_def)
qed

theorem Event_supersedes_witness:
  "Sync (Discard [(1, ex_b1)] (Event [(1, ex_b1)] (Join [(1, ex_b1)]) ''a''))
     (NewSiblingSet [(2, NewSibling (Event [(1, ex_b1)] (Join [(1, ex_b1)]) ''a'') None 50)])
   = [(2, NewSibling (Event [(1, ex_b1)] (Join [(1, ex_b1)]) ''a'') None 50)]"
  by (rule Event_supersedes [THEN conjunct1])
    (auto simp: wf_sibling_set_def wf_ptr_def wf_dvv_def nonempty_ids_def event_fits_def ex_defs
      Join_def join_put_def Replicas_def MaxDot_def)

text \<open>C12: a patch computed by \<open>Diff\<close> is sufficient: merging it gives the same siblings as merging
  the whole set it was computed from.\<close>

theorem Diff_patch_sufficient:
  assumes "causal_universe U" "siblings_of A \<subseteq> U" "siblings_of B \<subseteq> U" "distinct A" "distinct B"
    and "antichain sib_before (siblings_of A)" "antichain sib_before (siblings_of B)"
  shows "siblings_of (Sync A (SiblingSet_Diff A B)) = siblings_of (Sync A B)"
  using assms by (rule Diff_sufficient)

theorem Diff_patch_sufficient_witness:
  "siblings_of (Sync [(0, ex_b1)] (SiblingSet_Diff [(0, ex_b1)] [(1, ex_b1), (2, ex_b2)]))
     = siblings_of (Sync [(0, ex_b1)] [(1, ex_b1), (2, ex_b2)])
   \<and> SiblingSet_Diff [(0, ex_b1)] [(1, ex_b1), (2, ex_b2)] = [(2, ex_b2)]"
  using Diff_patch_sufficient [OF ex_causal, of "[(0, ex_b1)]" "[(1, ex_b1), (2, ex_b2)]"] ex_antichains
  by (simp add: SiblingSet_Diff_eq known_to_def)
    (simp add: ex_defs HappenedBefore_def DVV_Equals_def)

section \<open>The object hash\<close>



end
