(* ===== verification/Merkle_Nodes.thy ===== *)
theory Merkle_Nodes
  imports Hash
begin

text \<open>
  The node numbering of \<^verbatim>\<open>merkle/merkle.go\<close>. The tree is laid out in order: a node with
  number \<open>(2 * k + 1) * 2 ^ l\<close> is the \<open>k\<close>-th node of level \<open>l\<close>, leaves being the odd numbers.
  The operations work on \<^verbatim>\<open>uint32\<close> with shifts; the lemmas give their meaning on the coordinates
  \<open>(k, l)\<close>.
\<close>

section \<open>Operations on node numbers\<close>

definition CountTrailingZeros :: "u32 \<Rightarrow> u32" where
  "CountTrailingZeros n =
     (if n AND 1 = 0 then
        (let c = 1;
             (n, c) = (if n AND 65535 = 0 then (go_shr n 16, c + 16) else (n, c));
             (n, c) = (if n AND 255 = 0 then (go_shr n 8, c + 8) else (n, c));
             (n, c) = (if n AND 15 = 0 then (go_shr n 4, c + 4) else (n, c));
             (n, c) = (if n AND 3 = 0 then (go_shr n 2, c + 2) else (n, c))
         in c - (n AND 1))
      else 0)"

definition ParentNode :: "u32 \<Rightarrow> u32" where
  "ParentNode node =
     (let shift = CountTrailingZeros node;
          parentOffset = go_shl 1 shift;
          direction = go_shr node (shift + 1) AND 1
      in if direction = 1 then node - parentOffset else node + parentOffset)"

definition LeafNode :: "hash \<Rightarrow> u8 \<Rightarrow> u32" where
  "LeafNode keyHash depth =
     (let shiftAmount = 64 - depth;
          normalizedHash = ucast (go_shr (High keyHash) (ucast shiftAmount))
      in normalizedHash OR 1)"

section \<open>Coordinates\<close>

definition node_no :: "nat \<Rightarrow> nat \<Rightarrow> nat" where
  "node_no k l = (2 * k + 1) * 2 ^ l"

definition word_node :: "nat \<times> nat \<Rightarrow> u32" where
  "word_node c = of_nat (node_no (fst c) (snd c))"

lemma node_no_pos [simp]: "0 < node_no k l"
  by (simp add: node_no_def)

lemma node_no_inj [simp]: "node_no k l = node_no k' l' \<longleftrightarrow> k = k' \<and> l = l'"
proof
  assume eq: "node_no k l = node_no k' l'"
  have *: "l \<le> l'" if "(2 * k + 1) * 2 ^ l = (2 * k' + 1) * 2 ^ l'" for k l k' l' :: nat
  proof (rule ccontr)
    assume "\<not> l \<le> l'"
    then obtain j where "l = l' + Suc j" using less_imp_Suc_add by (auto simp: not_le)
    with that have "((2 * k + 1) * 2 ^ Suc j) * 2 ^ l' = (2 * k' + 1) * 2 ^ l'"
      by (simp only: power_add mult.assoc mult.commute mult.left_commute)
    then have "2 * k' + 1 = (2 * k + 1) * 2 ^ Suc j"
      by (simp only: mult_cancel2) simp
    then have "odd ((2 * k + 1) * 2 ^ Suc j)" by (metis even_plus_one_iff dvd_triv_left)
    then show False by simp
  qed
  from * [of k l k' l'] * [of k' l' k l] eq have "l = l'" by (simp add: node_no_def)
  with eq show "k = k' \<and> l = l'" by (simp add: node_no_def)
qed simp

text \<open>Lowest set bit.\<close>

definition low_bit :: "u32 \<Rightarrow> nat \<Rightarrow> bool" where
  "low_bit n l \<longleftrightarrow> bit n l \<and> (\<forall>i < l. \<not> bit n i)"

lemma low_bit_less: "low_bit n l \<Longrightarrow> l < 32"
  using bit_imp_le_length [of n l] by (auto simp: low_bit_def)

lemma low_bit_mask:
  assumes "low_bit n l" "k \<le> 32"
  shows "n AND mask k = 0 \<longleftrightarrow> k \<le> l"
proof
  assume "n AND mask k = 0"
  then have "\<not> bit (n AND mask k) l" by simp
  then show "k \<le> l" using assms by (auto simp: low_bit_def bit_and_iff bit_mask_iff)
next
  assume "k \<le> l"
  then show "n AND mask k = 0"
    using assms by (intro bit_eqI) (auto simp: low_bit_def bit_and_iff bit_mask_iff)
qed

lemma low_bit_drop:
  assumes "low_bit n l" "k \<le> l"
  shows "low_bit (drop_bit k n) (l - k)"
  using assms by (auto simp: low_bit_def bit_drop_bit_eq)

lemma low_bit_odd:
  assumes "low_bit n l"
  shows "n AND 1 = (if l = 0 then 1 else 0)"
proof -
  have "odd n \<longleftrightarrow> l = 0" using assms by (auto simp: low_bit_def bit_0 [symmetric])
  then show ?thesis by (auto simp: and_one_eq mod2_eq_if)
qed

lemma low_bit_node:
  assumes "node_no k l < 2 ^ 32"
  shows "low_bit (word_node (k, l)) l"
proof -
  have eq: "node_no k l = push_bit l (2 * k + 1)"
    by (simp add: node_no_def push_bit_eq_mult)
  have "2 ^ l \<le> node_no k l" by (simp add: node_no_def)
  then have "(2 :: nat) ^ l < 2 ^ 32" using assms by linarith
  then have "l < 32" by (rule power_less_imp_less_exp [rotated]) simp
  then show ?thesis
    unfolding low_bit_def word_node_def fst_conv snd_conv eq
    by (auto simp: bit_of_nat_iff bit_push_bit_iff bit_0)
qed

section \<open>Trailing zeros\<close>

text \<open>One halving step of the search: the position of the lowest bit moves into the counter.\<close>

lemma ctz_stage:
  assumes "low_bit n l" "l < 2 * k" "0 < k" "k < 32"
    and "M = mask k" "K = of_nat k"
    and "(n', c') = (if n AND M = 0 then (go_shr n K, c + K) else (n, c))"
  shows "\<exists>l'. low_bit n' l' \<and> l' < k \<and> c' + of_nat l' = c + (of_nat l :: u32)"
proof (cases "k \<le> l")
  case True
  have k: "unat (of_nat k :: u32) = k"
    using assms(4) by (simp add: unat_of_nat take_bit_nat_eq_self_iff)
  with True assms have "n' = drop_bit k n" "c' = c + of_nat k"
    by (auto simp: low_bit_mask go_shr_def)
  with True assms low_bit_drop [OF assms(1) True] show ?thesis
    by (intro exI [of _ "l - k"]) (auto simp: of_nat_diff)
next
  case False
  with assms show ?thesis by (intro exI [of _ l]) (auto simp: low_bit_mask)
qed

lemma CountTrailingZeros_low:
  assumes "low_bit n l"
  shows "CountTrailingZeros n = of_nat l"
proof (cases "l = 0")
  case True
  with low_bit_odd [OF assms] show ?thesis by (simp add: CountTrailingZeros_def)
next
  case False
  obtain n1 and c1 :: u32 where s1: "(n1, c1) = (if n AND 65535 = 0 then (go_shr n 16, 1 + 16) else (n, 1))"
    by (metis surj_pair)
  obtain n2 c2 where s2: "(n2, c2) = (if n1 AND 255 = 0 then (go_shr n1 8, c1 + 8) else (n1, c1))"
    by (metis surj_pair)
  obtain n3 c3 where s3: "(n3, c3) = (if n2 AND 15 = 0 then (go_shr n2 4, c2 + 4) else (n2, c2))"
    by (metis surj_pair)
  obtain n4 c4 where s4: "(n4, c4) = (if n3 AND 3 = 0 then (go_shr n3 2, c3 + 2) else (n3, c3))"
    by (metis surj_pair)
  have masks: "mask 16 = (65535 :: u32)" "mask 8 = (255 :: u32)" "mask 4 = (15 :: u32)" "mask 2 = (3 :: u32)"
    by (simp_all add: mask_eq_exp_minus_1)
  obtain l1 where l1: "low_bit n1 l1" "l1 < 16" "c1 + of_nat l1 = 1 + of_nat l"
    using ctz_stage [OF assms _ _ _ masks(1) [symmetric] _ s1] low_bit_less [OF assms] by auto
  obtain l2 where l2: "low_bit n2 l2" "l2 < 8" "c2 + of_nat l2 = c1 + of_nat l1"
    using ctz_stage [OF l1(1) _ _ _ masks(2) [symmetric] _ s2] l1(2) by auto
  obtain l3 where l3: "low_bit n3 l3" "l3 < 4" "c3 + of_nat l3 = c2 + of_nat l2"
    using ctz_stage [OF l2(1) _ _ _ masks(3) [symmetric] _ s3] l2(2) by auto
  obtain l4 where l4: "low_bit n4 l4" "l4 < 2" "c4 + of_nat l4 = c3 + of_nat l3"
    using ctz_stage [OF l3(1) _ _ _ masks(4) [symmetric] _ s4] l3(2) by auto
  have "CountTrailingZeros n = c4 - (n4 AND 1)"
    using False low_bit_odd [OF assms]
    unfolding CountTrailingZeros_def Let_def s1 [symmetric] prod.case s2 [symmetric] s3 [symmetric]
      s4 [symmetric] by simp
  also have "n4 AND 1 = 1 - of_nat l4"
    using low_bit_odd [OF l4(1)] l4(2) by (cases l4) auto
  also have "c4 - (1 - of_nat l4) = of_nat l"
    using l1(3) l2(3) l3(3) l4(3) by (simp add: algebra_simps)
  finally show ?thesis .
qed

lemma CountTrailingZeros_node:
  "node_no k l < 2 ^ 32 \<Longrightarrow> CountTrailingZeros (word_node (k, l)) = of_nat l"
  by (rule CountTrailingZeros_low) (rule low_bit_node)

section \<open>Parents and children\<close>

lemma unat_word_node: "node_no k l < 2 ^ 32 \<Longrightarrow> unat (word_node (k, l)) = node_no k l"
  by (simp add: word_node_def unat_of_nat take_bit_nat_eq_self_iff)

lemma node_level_less: "node_no k l < 2 ^ n \<Longrightarrow> l < n"
proof -
  assume "node_no k l < 2 ^ n"
  moreover have "2 ^ l \<le> node_no k l" by (simp add: node_no_def)
  ultimately have "(2 :: nat) ^ l < 2 ^ n" by linarith
  then show "l < n" by (rule power_less_imp_less_exp [rotated]) simp
qed

lemma unat_level: "l < 32 \<Longrightarrow> unat (of_nat l :: u32) = l"
  by (simp add: unat_of_nat take_bit_nat_eq_self_iff)

lemma go_shl_level: "l < 32 \<Longrightarrow> go_shl 1 (of_nat l) = (of_nat (2 ^ l) :: u32)"
  by (simp add: go_shl_def unat_level push_bit_eq_mult)

lemma node_direction:
  assumes "node_no k l < 2 ^ 32"
  shows "go_shr (word_node (k, l)) (of_nat l + 1) AND 1 = (of_nat (k mod 2) :: u32)"
proof -
  have l: "l < 32" using assms by (rule node_level_less)
  have drop: "drop_bit (Suc l) (word_node (k, l)) = (of_nat k :: u32)"
  proof -
    have "node_no k l div 2 ^ Suc l = (2 * k + 1) div 2"
      unfolding node_no_def power_Suc by (rule div_mult_mult2) simp
    then have "node_no k l div 2 ^ Suc l = k" by simp
    moreover have "unat (drop_bit (Suc l) (word_node (k, l))) = node_no k l div 2 ^ Suc l"
      unfolding unat_drop_bit_eq unat_word_node [OF assms] by (rule drop_bit_eq_div)
    ultimately have "unat (drop_bit (Suc l) (word_node (k, l))) = k" by simp
    then have "of_nat (unat (drop_bit (Suc l) (word_node (k, l)))) = (of_nat k :: u32)" by simp
    then show ?thesis by simp
  qed
  have one: "(of_nat k :: u32) AND 1 = of_nat (k mod 2)"
    using of_nat_and_eq [of k 1, where 'a = u32] by (simp only: and_one_eq [of k] of_nat_1)
  show ?thesis
  proof (cases "l = 31")
    case True
    with assms have "k = 0" by (simp add: node_no_def)
    with True show ?thesis by (simp add: go_shr_def)
  next
    case False
    with l have "unat (of_nat l + 1 :: u32) = Suc l"
      using unat_level [of "Suc l"] by (simp add: add.commute)
    with drop one False l show ?thesis by (simp add: go_shr_def)
  qed
qed

lemma node_no_left: "node_no (2 * k) l + 2 ^ l = node_no k (Suc l)"
  by (simp add: node_no_def algebra_simps)

lemma node_no_right: "node_no (2 * k + 1) l = node_no k (Suc l) + 2 ^ l"
  by (simp add: node_no_def algebra_simps)

text \<open>The parent of the \<open>k\<close>-th node of a level is the node \<open>k div 2\<close> of the next level.\<close>

lemma ParentNode_node:
  assumes "node_no k l < 2 ^ 32"
  shows "ParentNode (word_node (k, l)) = word_node (k div 2, Suc l)"
proof -
  have l: "l < 32" using assms by (rule node_level_less)
  have dir: "go_shr (word_node (k, l)) (of_nat l + 1) AND 1 = (of_nat (k mod 2) :: u32)"
    using assms by (rule node_direction)
  have ctz: "CountTrailingZeros (word_node (k, l)) = of_nat l"
    using assms by (rule CountTrailingZeros_node)
  show ?thesis
  proof (cases "even k")
    case True
    then have "k mod 2 = 0" "node_no k l + 2 ^ l = node_no (k div 2) (Suc l)"
      using node_no_left [of "k div 2" l] by simp_all
    then have "of_nat (node_no k l + 2 ^ l) = word_node (k div 2, Suc l)"
      by (simp only: word_node_def fst_conv snd_conv)
    then have "word_node (k, l) + of_nat (2 ^ l) = word_node (k div 2, Suc l)"
      by (simp add: word_node_def)
    with dir ctz l \<open>k mod 2 = 0\<close> show ?thesis by (simp add: ParentNode_def go_shl_level)
  next
    case False
    then have "k mod 2 = 1" "node_no k l = node_no (k div 2) (Suc l) + 2 ^ l"
      using node_no_right [of "k div 2" l] by (simp_all add: odd_iff_mod_2_eq_one)
    then have "word_node (k, l) - of_nat (2 ^ l) = word_node (k div 2, Suc l)"
      by (simp add: word_node_def)
    with dir ctz l \<open>k mod 2 = 1\<close> show ?thesis by (simp add: ParentNode_def go_shl_level)
  qed
qed

lemma child_offset:
  assumes "node_no k (Suc l) < 2 ^ 32"
  shows "go_shl 1 (CountTrailingZeros (word_node (k, Suc l)) - 1) = (of_nat (2 ^ l) :: u32)"
  using node_level_less [OF assms] by (simp add: CountTrailingZeros_node [OF assms] go_shl_level)

lemma left_node:
  assumes "node_no k (Suc l) < 2 ^ 32"
  shows "word_node (k, Suc l) - go_shl 1 (CountTrailingZeros (word_node (k, Suc l)) - 1) = word_node (2 * k, l)"
  unfolding child_offset [OF assms] by (simp add: word_node_def flip: node_no_left)

lemma right_node:
  assumes "node_no k (Suc l) < 2 ^ 32"
  shows "word_node (k, Suc l) + go_shl 1 (CountTrailingZeros (word_node (k, Suc l)) - 1) = word_node (2 * k + 1, l)"
  unfolding child_offset [OF assms] using node_no_right [of k l]
  by (simp add: word_node_def)

lemma node_parity:
  assumes "node_no k l < 2 ^ 32"
  shows "word_node (k, l) AND 1 = (if l = 0 then 1 else 0)"
  using low_bit_node [OF assms] by (rule low_bit_odd)

section \<open>Valid nodes of a tree of depth d\<close>

definition valid_node :: "nat \<Rightarrow> nat \<times> nat \<Rightarrow> bool" where
  "valid_node d c \<longleftrightarrow> node_no (fst c) (snd c) < 2 ^ d"

lemma valid_node_iff: "valid_node d (k, l) \<longleftrightarrow> l < d \<and> k < 2 ^ (d - 1 - l)"
proof
  assume v: "valid_node d (k, l)"
  then have l: "l < d" by (auto simp: valid_node_def dest: node_level_less)
  then have "(2 :: nat) ^ d = 2 * 2 ^ (d - 1 - l) * 2 ^ l"
    by (simp flip: power_add power_Suc)
  with v have "(2 * k + 1) * 2 ^ l < (2 * 2 ^ (d - 1 - l)) * 2 ^ l"
    by (simp only: valid_node_def node_no_def fst_conv snd_conv)
  then have "2 * k + 1 < 2 * 2 ^ (d - 1 - l)" by (simp only: mult_less_cancel2)
  with l show "l < d \<and> k < 2 ^ (d - 1 - l)" by simp
next
  assume a: "l < d \<and> k < 2 ^ (d - 1 - l)"
  then have "(2 :: nat) ^ d = 2 * 2 ^ (d - 1 - l) * 2 ^ l"
    by (simp flip: power_add power_Suc)
  moreover have "2 * k + 1 < 2 * 2 ^ (d - 1 - l)" using a by simp
  ultimately show "valid_node d (k, l)"
    by (simp only: valid_node_def node_no_def fst_conv snd_conv mult_less_cancel2) simp
qed

lemma valid_parent:
  assumes "valid_node d (k, l)" "Suc l < d"
  shows "valid_node d (k div 2, Suc l)"
proof -
  have "d - 1 - l = Suc (d - 1 - Suc l)" using assms(2) by simp
  with assms show ?thesis by (simp add: valid_node_iff less_mult_imp_div_less mult.commute)
qed

lemma valid_root: "0 < d \<Longrightarrow> valid_node d (0, d - 1)"
  by (simp add: valid_node_iff)

lemma valid_top: "valid_node d (k, l) \<Longrightarrow> \<not> Suc l < d \<Longrightarrow> k = 0 \<and> l = d - 1"
  by (auto simp: valid_node_iff)

lemma valid_children:
  assumes "valid_node d (k, Suc l)"
  shows "valid_node d (2 * k, l) \<and> valid_node d (2 * k + 1, l)"
proof -
  have "Suc l < d" using assms by (simp add: valid_node_iff)
  then have "d - 1 - l = Suc (d - 1 - Suc l)" by simp
  with assms show ?thesis by (auto simp: valid_node_iff)
qed

lemma valid_node_word:
  assumes "valid_node d (k, l)" "d \<le> 32"
  shows "node_no k l < 2 ^ 32"
  using assms power_increasing [of d 32 "2 :: nat"] by (auto simp: valid_node_def)

lemma word_node_eq:
  assumes "valid_node d c" "valid_node d c'" "d \<le> 32"
  shows "word_node c = word_node c' \<longleftrightarrow> c = c'"
  using assms unat_word_node valid_node_word
  by (cases c, cases c') (metis node_no_inj)

text \<open>Every odd number below \<open>2 ^ d\<close> is a leaf.\<close>

lemma odd_is_leaf:
  assumes "odd (unat n)" "unat n < 2 ^ d"
  shows "\<exists>k. n = word_node (k, 0) \<and> valid_node d (k, 0)"
proof -
  from assms(1) obtain k where k: "unat n = 2 * k + 1" using oddE by blast
  have "n = of_nat (unat n)" by simp
  then have "n = of_nat (2 * k + 1)" unfolding k .
  with k assms(2) show ?thesis
    by (intro exI [of _ k]) (simp add: word_node_def node_no_def valid_node_def)
qed

end
