(* ===== verification/Merkle_Queue.thy ===== *)
theory Merkle_Queue
  imports Prelude
begin

text \<open>
  The circular work queue of \<^verbatim>\<open>merkle/merkle.go\<close>. It has a fixed capacity and drops what does
  not fit, so its users depend on never filling it: the locale \<open>bounded_queue\<close> states the
  contract by a list abstraction and a capacity, and shows the pattern the tree walks use
  (dequeue one node, enqueue at most one) never loses an element.
\<close>

record queue =
  q_arr :: "u32 list"
  q_head :: u32
  q_size :: u32

definition NewQueue :: "u32 \<Rightarrow> queue" where
  "NewQueue capacity = \<lparr>q_arr = replicate (unat capacity) 0, q_head = 0, q_size = 0\<rparr>"

definition Queue_Size :: "queue \<Rightarrow> u32" where
  "Queue_Size q = q_size q"

definition Enqueue :: "u32 \<Rightarrow> queue \<Rightarrow> queue" where
  "Enqueue n q =
     (if q_size q = of_nat (length (q_arr q)) then q
      else
        (let i = q_head q + q_size q;
             i = (if of_nat (length (q_arr q)) \<le> i then i - of_nat (length (q_arr q)) else i)
         in q\<lparr>q_arr := (q_arr q)[unat i := n], q_size := q_size q + 1\<rparr>))"

definition Dequeue :: "queue \<Rightarrow> u32 \<times> queue" where
  "Dequeue q =
     (if q_size q = 0 then (0, q)
      else
        (let n = q_arr q ! unat (q_head q);
             q = q\<lparr>q_head := q_head q + 1, q_size := q_size q - 1\<rparr>;
             q = (if of_nat (length (q_arr q)) \<le> q_head q then q\<lparr>q_head := 0\<rparr> else q)
         in (n, q)))"

section \<open>The interface\<close>

locale bounded_queue =
  fixes ok :: "'q \<Rightarrow> bool"
    and elems :: "'q \<Rightarrow> 'a list"
    and cap :: "'q \<Rightarrow> nat"
    and enq :: "'a \<Rightarrow> 'q \<Rightarrow> 'q"
    and deq :: "'q \<Rightarrow> 'a \<times> 'q"
  assumes enq_ok: "ok q \<Longrightarrow> ok (enq x q)"
    and enq_cap: "ok q \<Longrightarrow> cap (enq x q) = cap q"
    and enq_elems: "ok q \<Longrightarrow> elems (enq x q) = (if length (elems q) < cap q then elems q @ [x] else elems q)"
    and deq_ok: "ok q \<Longrightarrow> elems q \<noteq> [] \<Longrightarrow> ok (snd (deq q))"
    and deq_cap: "ok q \<Longrightarrow> elems q \<noteq> [] \<Longrightarrow> cap (snd (deq q)) = cap q"
    and deq_fst: "ok q \<Longrightarrow> elems q \<noteq> [] \<Longrightarrow> fst (deq q) = hd (elems q)"
    and deq_elems: "ok q \<Longrightarrow> elems q \<noteq> [] \<Longrightarrow> elems (snd (deq q)) = tl (elems q)"
    and elems_cap: "ok q \<Longrightarrow> length (elems q) \<le> cap q"
begin

lemma deq_enq:
  assumes "ok q" "elems q \<noteq> []"
  shows "elems (enq x (snd (deq q))) = tl (elems q) @ [x]"
proof -
  have "length (tl (elems q)) < cap q"
    using elems_cap [OF assms(1)] assms(2) by (cases "elems q") auto
  with assms show ?thesis by (simp add: enq_elems deq_ok deq_cap deq_elems)
qed

lemma deq_enq_ok: "ok q \<Longrightarrow> elems q \<noteq> [] \<Longrightarrow> ok (enq x (snd (deq q)))"
  by (simp add: enq_ok deq_ok)

lemma fold_enq:
  assumes "ok q" "length (elems q) + length xs \<le> cap q"
  shows "ok (fold enq xs q) \<and> elems (fold enq xs q) = elems q @ xs \<and> cap (fold enq xs q) = cap q"
  using assms by (induction xs arbitrary: q) (auto simp: enq_ok enq_elems enq_cap)

end

section \<open>The circular buffer implements it\<close>

definition queue_ok :: "queue \<Rightarrow> bool" where
  "queue_ok q \<longleftrightarrow> 2 * length (q_arr q) < 2 ^ 32 \<and> unat (q_size q) \<le> length (q_arr q) \<and>
     (q_arr q \<noteq> [] \<longrightarrow> unat (q_head q) < length (q_arr q))"

definition queue_elems :: "queue \<Rightarrow> u32 list" where
  "queue_elems q = map (\<lambda>i. q_arr q ! ((unat (q_head q) + i) mod length (q_arr q))) [0..<unat (q_size q)]"

lemma length_queue_elems [simp]: "length (queue_elems q) = unat (q_size q)"
  by (simp add: queue_elems_def)

lemma unat_length:
  "queue_ok q \<Longrightarrow> unat (of_nat (length (q_arr q)) :: u32) = length (q_arr q)"
  by (simp add: queue_ok_def unat_of_nat take_bit_nat_eq_self_iff)

lemma size_full_iff: "queue_ok q \<Longrightarrow> q_size q = of_nat (length (q_arr q)) \<longleftrightarrow> unat (q_size q) = length (q_arr q)"
  by (metis unat_length word_unat_eq_iff)

lemma unat_sum:
  "queue_ok q \<Longrightarrow> q_arr q \<noteq> [] \<Longrightarrow> unat (q_head q + q_size q) = unat (q_head q) + unat (q_size q)"
  by (subst unat_add_lem [symmetric]) (auto simp: queue_ok_def)

lemma wrap_index:
  assumes "queue_ok q" "q_arr q \<noteq> []"
  defines "i \<equiv> q_head q + q_size q" and "n \<equiv> length (q_arr q)"
  shows "unat (if of_nat n \<le> i then i - of_nat n else i) = (unat (q_head q) + unat (q_size q)) mod n"
proof -
  have s: "unat i = unat (q_head q) + unat (q_size q)" unfolding i_def using assms(1,2) by (rule unat_sum)
  have n: "unat (of_nat n :: u32) = n" unfolding n_def using assms(1) by (rule unat_length)
  have lt: "unat i < 2 * n" using assms(1,2) unfolding s queue_ok_def n_def by auto
  show ?thesis
  proof (cases "n \<le> unat i")
    case True
    then have "of_nat n \<le> i" by (simp add: word_le_nat_alt n)
    then have "unat (i - of_nat n) = unat i - n" by (simp add: unat_sub n)
    with True lt \<open>of_nat n \<le> i\<close> show ?thesis
      unfolding s [symmetric] by (simp add: le_mod_geq)
  next
    case False
    then have "\<not> of_nat n \<le> i" by (simp add: word_le_nat_alt n)
    with False show ?thesis unfolding s [symmetric] by simp
  qed
qed

lemma Enqueue_full: "queue_ok q \<Longrightarrow> unat (q_size q) = length (q_arr q) \<Longrightarrow> Enqueue x q = q"
  by (simp add: Enqueue_def size_full_iff)

lemma Enqueue_room:
  assumes "queue_ok q" "unat (q_size q) < length (q_arr q)"
  shows "Enqueue x q = q\<lparr>q_arr := (q_arr q)[(unat (q_head q) + unat (q_size q)) mod length (q_arr q) := x],
      q_size := q_size q + 1\<rparr>"
proof -
  have "q_arr q \<noteq> []" using assms(2) by force
  moreover have "q_size q \<noteq> of_nat (length (q_arr q))" using assms by (simp add: size_full_iff)
  ultimately show ?thesis using wrap_index [OF assms(1)] by (simp add: Enqueue_def Let_def)
qed

lemma size_Suc:
  assumes "queue_ok q" "unat (q_size q) < length (q_arr q)"
  shows "unat (q_size q + 1) = Suc (unat (q_size q))"
proof -
  have "unat (q_size q) + 1 < 2 ^ 32" using assms by (auto simp: queue_ok_def)
  then show ?thesis using unat_add_lem [of "q_size q" 1] by simp
qed

lemma Enqueue_elems:
  assumes "queue_ok q" "unat (q_size q) < length (q_arr q)"
  shows "queue_elems (Enqueue x q) = queue_elems q @ [x]"
proof -
  let ?n = "length (q_arr q)" and ?h = "unat (q_head q)" and ?s = "unat (q_size q)"
  have neq: "(?h + i) mod ?n \<noteq> (?h + ?s) mod ?n" if "i < ?s" for i
  proof
    assume "(?h + i) mod ?n = (?h + ?s) mod ?n"
    then have "?n dvd (?h + ?s) - (?h + i)" by (metis mod_eq_dvd_iff_nat add_le_cancel_left that less_imp_le)
    then have "?n \<le> ?s - i" using that by (auto dest: dvd_imp_le)
    with that assms(2) show False by simp
  qed
  have idx: "(?h + ?s) mod ?n < ?n" using assms(2) by (intro mod_less_divisor) linarith
  show ?thesis
    unfolding queue_elems_def Enqueue_room [OF assms]
    using neq [THEN not_sym] idx size_Suc [OF assms] by (auto simp: nth_list_update)
qed

lemma Dequeue_nonempty:
  assumes "queue_ok q" "q_size q \<noteq> 0"
  shows "fst (Dequeue q) = hd (queue_elems q) \<and> queue_elems (snd (Dequeue q)) = tl (queue_elems q)
    \<and> queue_ok (snd (Dequeue q)) \<and> length (q_arr (snd (Dequeue q))) = length (q_arr q)"
proof -
  let ?n = "length (q_arr q)" and ?h = "unat (q_head q)" and ?s = "unat (q_size q)"
  have s: "0 < ?s" using assms(2) by (simp add: unat_gt_0)
  then have ne: "q_arr q \<noteq> []" using assms(1) by (auto simp: queue_ok_def)
  then have h: "?h < ?n" using assms(1) by (simp add: queue_ok_def)
  then have "?h + 1 < 2 ^ 32" using assms(1) by (auto simp: queue_ok_def)
  then have h1: "unat (q_head q + 1) = Suc ?h" using unat_add_lem [of "q_head q" 1] by simp
  have s1: "unat (q_size q - 1) = ?s - 1" using assms(2) by (simp add: unat_minus_one)
  have wrap: "of_nat ?n \<le> q_head q + 1 \<longleftrightarrow> Suc ?h = ?n"
    using h by (auto simp: word_le_nat_alt unat_length [OF assms(1)] h1)
  define h' where "h' = (if of_nat ?n \<le> q_head q + 1 then 0 else q_head q + 1)"
  have h': "unat h' = Suc ?h mod ?n" using h by (auto simp: h'_def wrap h1 mod_Suc)
  have eq: "snd (Dequeue q) = q\<lparr>q_head := h', q_size := q_size q - 1\<rparr>"
    using assms(2) by (simp add: Dequeue_def Let_def h'_def)
  have step: "(unat h' + i) mod ?n = (?h + Suc i) mod ?n" for i
    by (simp add: h' mod_simps)
  have up: "[0..<?s] = 0 # map Suc [0..<?s - 1]"
    using s by (simp add: map_Suc_upt upt_conv_Cons)
  have els: "queue_elems (snd (Dequeue q)) = map (\<lambda>i. q_arr q ! ((?h + Suc i) mod ?n)) [0..<?s - 1]"
    by (simp add: eq queue_elems_def s1 step del: add_Suc_right)
  have old: "queue_elems q = q_arr q ! ?h # map (\<lambda>i. q_arr q ! ((?h + Suc i) mod ?n)) [0..<?s - 1]"
    using h by (simp add: queue_elems_def up o_def del: add_Suc_right)
  have ok: "queue_ok (snd (Dequeue q))"
    using assms(1) ne h' s1 s h by (auto simp: eq queue_ok_def)
  have fst: "fst (Dequeue q) = q_arr q ! ?h"
    using assms(2) by (simp add: Dequeue_def Let_def)
  show ?thesis using ok fst els old by (simp add: eq)
qed

lemma Enqueue_ok: "queue_ok q \<Longrightarrow> queue_ok (Enqueue x q) \<and> length (q_arr (Enqueue x q)) = length (q_arr q)"
proof (cases "unat (q_size q) < length (q_arr q)")
  case True
  assume "queue_ok q"
  with True size_Suc [OF this True] show ?thesis by (auto simp: Enqueue_room queue_ok_def)
next
  case False
  assume "queue_ok q"
  with False show ?thesis using Enqueue_full by (auto simp: queue_ok_def)
qed

lemma elems_nonempty_iff: "queue_elems q \<noteq> [] \<longleftrightarrow> q_size q \<noteq> 0"
  by (metis length_queue_elems length_0_conv unat_eq_zero)

interpretation mq: bounded_queue queue_ok queue_elems "\<lambda>q. length (q_arr q)" Enqueue Dequeue
proof unfold_locales
  fix q x
  assume ok: "queue_ok q"
  show "queue_ok (Enqueue x q)" "length (q_arr (Enqueue x q)) = length (q_arr q)"
    using Enqueue_ok [OF ok] by auto
  show "queue_elems (Enqueue x q)
      = (if length (queue_elems q) < length (q_arr q) then queue_elems q @ [x] else queue_elems q)"
    using Enqueue_elems [OF ok] Enqueue_full [OF ok] ok by (auto simp: queue_ok_def)
  show "length (queue_elems q) \<le> length (q_arr q)"
    using ok by (simp add: queue_ok_def)
next
  fix q
  assume "queue_ok q" "queue_elems q \<noteq> []"
  then show "queue_ok (snd (Dequeue q))" "length (q_arr (snd (Dequeue q))) = length (q_arr q)"
    "fst (Dequeue q) = hd (queue_elems q)" "queue_elems (snd (Dequeue q)) = tl (queue_elems q)"
    using Dequeue_nonempty [of q] by (auto simp: elems_nonempty_iff)
qed

lemma NewQueue_ok:
  assumes "n < 2 ^ 31"
  shows "queue_ok (NewQueue (of_nat n)) \<and> queue_elems (NewQueue (of_nat n)) = []
    \<and> length (q_arr (NewQueue (of_nat n))) = n"
  using assms by (auto simp: NewQueue_def queue_ok_def queue_elems_def unat_of_nat take_bit_nat_eq_self_iff)

end
