(* ===== verification/Update.thy ===== *)
theory Update
  imports SiblingSet
begin

text \<open>
  \<^verbatim>\<open>data/update.go\<close>: the set of per-key differences a write produces. The Go map is an
  association list in iteration order; the order is arbitrary, so the results about updates
  hold for every list with distinct keys.
\<close>

record diff =
  diff_key :: string
  diff_old :: "sibling_set option"
  diff_new :: "sibling_set option"

type_synonym update = "(string \<times> diff) list"

definition OldSiblingSet :: "diff \<Rightarrow> sibling_set option" where
  "OldSiblingSet df = diff_old df"

definition NewSiblingSet_of :: "diff \<Rightarrow> sibling_set option" where
  "NewSiblingSet_of df = diff_new df"

definition Key :: "diff \<Rightarrow> string" where
  "Key df = diff_key df"

definition NewUpdate :: update where
  "NewUpdate = []"

definition AddDiff :: "update \<Rightarrow> string \<Rightarrow> sibling_set option \<Rightarrow> sibling_set option \<Rightarrow> update" where
  "AddDiff u key old new = AList.update key \<lparr>diff_key = key, diff_old = old, diff_new = new\<rparr> u"

definition Update_Iter :: "update \<Rightarrow> diff list" where
  "Update_Iter u = map snd u"

definition Update_Size :: "update \<Rightarrow> nat" where
  "Update_Size u = length u"

text \<open>Every entry is filed under its own key and no key occurs twice.\<close>

definition wf_update :: "update \<Rightarrow> bool" where
  "wf_update u \<longleftrightarrow> distinct (map fst u) \<and> (\<forall>(k, df) \<in> set u. diff_key df = k)"

lemma wf_NewUpdate [simp]: "wf_update NewUpdate"
  by (simp add: wf_update_def NewUpdate_def)

lemma set_AList_update: "set (AList.update k v al) \<subseteq> insert (k, v) (set al)"
  by (induction al) auto

lemma wf_AddDiff: "wf_update u \<Longrightarrow> wf_update (AddDiff u key old new)"
  using set_AList_update [of key "\<lparr>diff_key = key, diff_old = old, diff_new = new\<rparr>" u]
  by (fastforce simp: wf_update_def AddDiff_def distinct_update)

lemma map_of_AddDiff:
  "map_of (AddDiff u key old new) = (map_of u)(key \<mapsto> \<lparr>diff_key = key, diff_old = old, diff_new = new\<rparr>)"
  by (simp add: AddDiff_def update_conv')

lemma distinct_Iter_keys: "wf_update u \<Longrightarrow> distinct (map diff_key (Update_Iter u))"
proof -
  assume "wf_update u"
  moreover from this have "map diff_key (map snd u) = map fst u"
    by (auto simp: wf_update_def intro!: map_cong)
  ultimately show ?thesis by (simp only: wf_update_def Update_Iter_def)
qed

end
