(* ===== verification/Merkle.thy ===== *)
theory Merkle
  imports Merkle_Nodes Merkle_Queue Update
begin

text \<open>
  The Merkle tree of \<^verbatim>\<open>merkle/merkle.go\<close>: the node array, its accessors and the updates that
  keep every inner node equal to the XOR of its children. An index out of range panics in
  Go and is \<open>None\<close> here; the tree walks are \<open>while\<close> loops and return \<open>None\<close> when they would
  not end.
\<close>

section \<open>State and accessors\<close>

definition MerkleMinDepth :: u8 where "MerkleMinDepth = 1"
definition MerkleDefaultDepth :: u8 where "MerkleDefaultDepth = 19"
definition MerkleMaxDepth :: u8 where "MerkleMaxDepth = 28"

text \<open>A nil node slice, as in a dummy tree, is the empty list.\<close>

record merkle_tree =
  mt_depth :: u8
  mt_nodes :: "hash list"

datatype merkle_error = EDepth

definition NewMerkleTree :: "u8 \<Rightarrow> merkle_error + merkle_tree" where
  "NewMerkleTree depth =
     (if depth < MerkleMinDepth \<or> MerkleMaxDepth < depth then Inl EDepth
      else Inr \<lparr>mt_depth = depth, mt_nodes = replicate (2 ^ unat depth) zero_hash\<rparr>)"

definition NewDummyMerkleTree :: "u8 \<Rightarrow> merkle_error + merkle_tree" where
  "NewDummyMerkleTree depth =
     (if depth < MerkleMinDepth \<or> MerkleMaxDepth < depth then Inl EDepth
      else Inr \<lparr>mt_depth = depth, mt_nodes = []\<rparr>)"

definition slice_get :: "'a list \<Rightarrow> nat \<Rightarrow> 'a option" where
  "slice_get xs i = (if i < length xs then Some (xs ! i) else None)"

definition slice_set :: "'a list \<Rightarrow> nat \<Rightarrow> 'a \<Rightarrow> 'a list option" where
  "slice_set xs i v = (if i < length xs then Some (xs[i := v]) else None)"

definition RootHash :: "merkle_tree \<Rightarrow> hash option" where
  "RootHash tree = slice_get (mt_nodes tree) (unat (go_shl (1 :: u64) (ucast (mt_depth tree - 1))))"

definition RangeHash :: "merkle_tree \<Rightarrow> u32 \<Rightarrow> u32 \<Rightarrow> hash option" where
  "RangeHash tree rangeMin rangeMax =
     slice_get (mt_nodes tree) (unat (rangeMin + (rangeMax - rangeMin) div 2))"

definition NodeHash :: "merkle_tree \<Rightarrow> u32 \<Rightarrow> hash" where
  "NodeHash tree node =
     (if of_nat (length (mt_nodes tree)) \<le> node then zero_hash else mt_nodes tree ! unat node)"

definition NodeLimit :: "merkle_tree \<Rightarrow> u32" where
  "NodeLimit tree =
     (if mt_nodes tree = [] then of_nat (2 ^ unat (mt_depth tree)) else of_nat (length (mt_nodes tree)))"

definition SubRangeMin :: "u32 \<Rightarrow> u32" where
  "SubRangeMin nodeID = nodeID - go_shl 1 (CountTrailingZeros nodeID)"

definition SubRangeMax :: "u32 \<Rightarrow> u32" where
  "SubRangeMax nodeID = nodeID + go_shl 1 (CountTrailingZeros nodeID)"

definition Depth :: "merkle_tree \<Rightarrow> u8" where
  "Depth tree = mt_depth tree"

definition Level :: "merkle_tree \<Rightarrow> u32 \<Rightarrow> u8" where
  "Level tree nodeID = Depth tree - ucast (CountTrailingZeros nodeID)"

definition SetNodeHash :: "merkle_tree \<Rightarrow> u32 \<Rightarrow> hash \<Rightarrow> merkle_tree option" where
  "SetNodeHash tree nodeID h =
     map_option (\<lambda>ns. tree\<lparr>mt_nodes := ns\<rparr>) (slice_set (mt_nodes tree) (unat nodeID) h)"

fun SetNodeHashes :: "merkle_tree \<Rightarrow> (u32 \<times> hash) list \<Rightarrow> merkle_tree option" where
  "SetNodeHashes tree [] = Some tree"
| "SetNodeHashes tree ((nodeID, h) # rest) =
     Option.bind (SetNodeHash tree nodeID h) (\<lambda>tree. SetNodeHashes tree rest)"

definition TranslateNode :: "merkle_tree \<Rightarrow> u32 \<Rightarrow> u8 \<Rightarrow> u32" where
  "TranslateNode tree nodeID depth =
     (if Depth tree < depth then go_shl nodeID (ucast (depth - Depth tree))
      else go_shr nodeID (ucast (Depth tree - depth)))"

definition Tree_LeafNode :: "merkle_tree \<Rightarrow> bytes \<Rightarrow> u32" where
  "Tree_LeafNode tree key = LeafNode (NewHash key) (mt_depth tree)"

definition RootNode :: "merkle_tree \<Rightarrow> u32" where
  "RootNode tree = go_shl 1 (ucast (mt_depth tree - 1))"

definition LeftChild :: "u32 \<Rightarrow> u32" where
  "LeftChild node = (if node AND 1 = 1 then node else node - go_shl 1 (CountTrailingZeros node - 1))"

definition RightChild :: "u32 \<Rightarrow> u32" where
  "RightChild node = (if node AND 1 = 1 then node else node + go_shl 1 (CountTrailingZeros node - 1))"

definition IsLeaf :: "merkle_tree \<Rightarrow> u32 \<Rightarrow> bool" where
  "IsLeaf tree nodeID \<longleftrightarrow> nodeID AND 1 = 1 \<and> nodeID < go_shl 1 (ucast (Depth tree))"

section \<open>Updates\<close>

text \<open>\<^verbatim>\<open>tree.nodes[node] = tree.nodes[left].Xor(tree.nodes[right])\<close>.\<close>

definition xor_children :: "merkle_tree \<Rightarrow> u32 \<Rightarrow> u32 \<Rightarrow> u32 \<Rightarrow> merkle_tree option" where
  "xor_children tree node left right =
     Option.bind (slice_get (mt_nodes tree) (unat left)) (\<lambda>l.
     Option.bind (slice_get (mt_nodes tree) (unat right)) (\<lambda>r.
       SetNodeHash tree node (Xor l r)))"

partial_function (option) update_leaf_loop :: "merkle_tree \<Rightarrow> u32 \<Rightarrow> merkle_tree option" where
  "update_leaf_loop tree node =
     (if node = ParentNode (RootNode tree) then Some tree
      else
        (let left = LeftChild node; right = RightChild node in
         Option.bind (if node AND 1 \<noteq> 1 then xor_children tree node left right else Some tree)
           (\<lambda>tree. update_leaf_loop tree (ParentNode node))))"

definition UpdateLeafHash :: "merkle_tree \<Rightarrow> u32 \<Rightarrow> hash \<Rightarrow> merkle_tree option" where
  "UpdateLeafHash tree nodeID h =
     (if \<not> IsLeaf tree nodeID then Some tree
      else Option.bind (SetNodeHash tree nodeID h) (\<lambda>tree. update_leaf_loop tree nodeID))"

type_synonym object_hashes = "u32 \<rightharpoonup> (string \<rightharpoonup> hash)"

definition put_object_hash :: "object_hashes \<Rightarrow> u32 \<Rightarrow> string \<Rightarrow> hash \<Rightarrow> object_hashes" where
  "put_object_hash objectHashes leaf key h =
     (let objectHashes = (if objectHashes leaf = None then objectHashes(leaf \<mapsto> Map.empty) else objectHashes)
      in objectHashes(leaf \<mapsto> (the (objectHashes leaf))(key \<mapsto> h)))"

text \<open>\<^verbatim>\<open>tree.nodes[leaf] = tree.nodes[leaf].Xor(oldObjectHash).Xor(newObjectHash)\<close>.\<close>

definition xor_leaf :: "merkle_tree \<Rightarrow> u32 \<Rightarrow> hash \<Rightarrow> hash \<Rightarrow> merkle_tree option" where
  "xor_leaf tree leaf old new =
     Option.bind (slice_get (mt_nodes tree) (unat leaf)) (\<lambda>h. SetNodeHash tree leaf (Xor (Xor h old) new))"

fun update_diffs ::
  "diff list \<Rightarrow> merkle_tree \<times> queue \<times> object_hashes \<Rightarrow> (merkle_tree \<times> queue \<times> object_hashes) option" where
  "update_diffs [] st = Some st"
| "update_diffs (df # rest) (tree, nodeQueue, objectHashes) =
     (let key = Key df;
          keyHash = NewHash (bytes_of_string key);
          newObjectHash = SiblingSet_Hash (NewSiblingSet_of df) (bytes_of_string key);
          oldObjectHash = SiblingSet_Hash (OldSiblingSet df) (bytes_of_string key);
          leaf = LeafNode keyHash (mt_depth tree);
          objectHashes = put_object_hash objectHashes leaf key newObjectHash;
          nodeQueue = Enqueue leaf nodeQueue
      in Option.bind (xor_leaf tree leaf oldObjectHash newObjectHash)
           (\<lambda>tree. update_diffs rest (tree, nodeQueue, objectHashes)))"

partial_function (option) update_walk ::
  "queue \<Rightarrow> (u32 \<rightharpoonup> bool) \<Rightarrow> merkle_tree \<Rightarrow> ((u32 \<rightharpoonup> bool) \<times> merkle_tree) option" where
  "update_walk nodeQueue modifiedNodes tree =
     (if \<not> 0 < Queue_Size nodeQueue then Some (modifiedNodes, tree)
      else
        (let (node, nodeQueue) = Dequeue nodeQueue;
             shift = CountTrailingZeros node - 1;
             left = node - go_shl 1 shift;
             right = node + go_shl 1 shift;
             modifiedNodes = modifiedNodes(node \<mapsto> True);
             nodeQueue = (if node \<noteq> RootNode tree then Enqueue (ParentNode node) nodeQueue else nodeQueue)
         in Option.bind (if node AND 1 \<noteq> 1 then xor_children tree node left right else Some tree)
              (\<lambda>tree. update_walk nodeQueue modifiedNodes tree)))"

definition Tree_Update ::
  "merkle_tree \<Rightarrow> update \<Rightarrow> ((u32 \<rightharpoonup> bool) \<times> object_hashes \<times> merkle_tree) option" where
  "Tree_Update tree u =
     (let nodeQueue = NewQueue (of_nat (Update_Size u)) in
      Option.bind (update_diffs (Update_Iter u) (tree, nodeQueue, Map.empty))
        (\<lambda>(tree, nodeQueue, objectHashes).
           Option.bind (update_walk nodeQueue Map.empty tree)
             (\<lambda>(modifiedNodes, tree). Some (modifiedNodes, objectHashes, tree))))"

fun undo_diffs :: "diff list \<Rightarrow> merkle_tree \<times> queue \<Rightarrow> (merkle_tree \<times> queue) option" where
  "undo_diffs [] st = Some st"
| "undo_diffs (df # rest) (tree, nodeQueue) =
     (let key = Key df;
          keyHash = NewHash (bytes_of_string key);
          newObjectHash = SiblingSet_Hash (NewSiblingSet_of df) (bytes_of_string key);
          oldObjectHash = SiblingSet_Hash (OldSiblingSet df) (bytes_of_string key);
          leaf = LeafNode keyHash (mt_depth tree);
          nodeQueue = Enqueue leaf nodeQueue
      in Option.bind (xor_leaf tree leaf oldObjectHash newObjectHash)
           (\<lambda>tree. undo_diffs rest (tree, nodeQueue)))"

partial_function (option) undo_walk :: "queue \<Rightarrow> merkle_tree \<Rightarrow> merkle_tree option" where
  "undo_walk nodeQueue tree =
     (if \<not> 0 < Queue_Size nodeQueue then Some tree
      else
        (let (node, nodeQueue) = Dequeue nodeQueue;
             shift = CountTrailingZeros node - 1;
             left = node - go_shl 1 shift;
             right = node + go_shl 1 shift;
             nodeQueue = (if node \<noteq> RootNode tree then Enqueue (ParentNode node) nodeQueue else nodeQueue)
         in Option.bind (if node AND 1 \<noteq> 1 then xor_children tree node left right else Some tree)
              (\<lambda>tree. undo_walk nodeQueue tree)))"

definition UndoUpdate :: "merkle_tree \<Rightarrow> update \<Rightarrow> merkle_tree option" where
  "UndoUpdate tree u =
     (let nodeQueue = NewQueue (of_nat (Update_Size u)) in
      Option.bind (undo_diffs (Update_Iter u) (tree, nodeQueue))
        (\<lambda>(tree, nodeQueue). undo_walk nodeQueue tree))"

fun preview_diffs ::
  "merkle_tree \<Rightarrow> diff list \<Rightarrow> (u32 \<rightharpoonup> hash) \<times> object_hashes \<Rightarrow> ((u32 \<rightharpoonup> hash) \<times> object_hashes) option" where
  "preview_diffs tree [] st = Some st"
| "preview_diffs tree (df # rest) (leafHashes, objectHashes) =
     (let key = Key df;
          keyHash = NewHash (bytes_of_string key);
          newObjectHash = SiblingSet_Hash (NewSiblingSet_of df) (bytes_of_string key);
          oldObjectHash = SiblingSet_Hash (OldSiblingSet df) (bytes_of_string key);
          leaf = LeafNode keyHash (mt_depth tree);
          objectHashes = put_object_hash objectHashes leaf key newObjectHash
      in Option.bind (case leafHashes leaf of
                        None \<Rightarrow> slice_get (mt_nodes tree) (unat leaf)
                      | Some h \<Rightarrow> Some h)
           (\<lambda>h. preview_diffs tree rest
              (leafHashes(leaf \<mapsto> Xor (Xor h oldObjectHash) newObjectHash), objectHashes)))"

definition PreviewUpdate :: "merkle_tree \<Rightarrow> update \<Rightarrow> ((u32 \<rightharpoonup> hash) \<times> object_hashes) option" where
  "PreviewUpdate tree u = preview_diffs tree (Update_Iter u) (Map.empty, Map.empty)"

end
