(* ===== verification/Merkle_Laws.thy ===== *)
theory Merkle_Laws
  imports Merkle
begin

text \<open>
  Correctness of the Merkle tree. The invariant is that every inner node is the XOR of its two
  children. During an update it fails on ancestors of queued nodes only; each dequeued node
  repairs itself and hands the obligation to its parent, so the walk ends with the
  invariant restored. With it, a node hash is the XOR of the leaf hashes below it, and a tree whose
  leaves accumulate the object hashes of a database keeps doing so under \<^verbatim>\<open>Update\<close>.
\<close>

section \<open>Invariant\<close>

abbreviation td :: "merkle_tree \<Rightarrow> nat" where
  "td t \<equiv> unat (mt_depth t)"

definition tree_ok :: "merkle_tree \<Rightarrow> bool" where
  "tree_ok t \<longleftrightarrow> 1 \<le> td t \<and> td t \<le> 28 \<and> length (mt_nodes t) = 2 ^ td t"

definition node_at :: "hash list \<Rightarrow> nat \<times> nat \<Rightarrow> hash" where
  "node_at ns c = ns ! node_no (fst c) (snd c)"

definition consistent :: "hash list \<Rightarrow> nat \<Rightarrow> nat \<Rightarrow> bool" where
  "consistent ns k l \<longleftrightarrow> node_at ns (k, Suc l) = Xor (node_at ns (2 * k, l)) (node_at ns (2 * k + 1, l))"

definition merkle_ok :: "merkle_tree \<Rightarrow> bool" where
  "merkle_ok t \<longleftrightarrow> tree_ok t \<and> (\<forall>k l. valid_node (td t) (k, Suc l) \<longrightarrow> consistent (mt_nodes t) k l)"

lemma merkle_ok_tree [simp]: "merkle_ok t \<Longrightarrow> tree_ok t"
  by (simp add: merkle_ok_def)

definition ancestor :: "nat \<times> nat \<Rightarrow> nat \<times> nat \<Rightarrow> bool" where
  "ancestor a c \<longleftrightarrow> snd c \<le> snd a \<and> fst a = fst c div 2 ^ (snd a - snd c)"

lemma ancestor_refl [simp]: "ancestor c c"
  by (simp add: ancestor_def)

lemma ancestor_parent:
  assumes "ancestor a (k, l)" "a \<noteq> (k, l)"
  shows "ancestor a (k div 2, Suc l)"
proof -
  obtain k' l' where a: "a = (k', l')" by fastforce
  with assms have "l < l'" by (cases "l = l'") (auto simp: ancestor_def)
  then have "l' - l = Suc (l' - Suc l)" by simp
  with assms a \<open>l < l'\<close> show ?thesis by (simp add: ancestor_def div_mult2_eq)
qed

lemma ancestor_valid: "ancestor (k', l') (k, l) \<Longrightarrow> valid_node d (k, l) \<Longrightarrow> l' < d \<Longrightarrow> valid_node d (k', l')"
proof -
  assume a: "ancestor (k', l') (k, l)" "valid_node d (k, l)" "l' < d"
  then have "d - 1 - l = (d - 1 - l') + (l' - l)" by (simp add: ancestor_def)
  then have "(2 :: nat) ^ (d - 1 - l) = 2 ^ (d - 1 - l') * 2 ^ (l' - l)" by (simp add: power_add)
  with a show ?thesis by (simp add: ancestor_def valid_node_iff less_mult_imp_div_less)
qed

text \<open>Whatever is inconsistent is an ancestor of something still to be visited.\<close>

definition covered_by :: "nat \<Rightarrow> hash list \<Rightarrow> (nat \<times> nat) set \<Rightarrow> bool" where
  "covered_by d ns C \<longleftrightarrow>
     (\<forall>k l. valid_node d (k, Suc l) \<longrightarrow> consistent ns k l \<or> (\<exists>c \<in> C. ancestor (k, Suc l) c))"

lemma covered_by_empty: "tree_ok t \<Longrightarrow> covered_by (td t) (mt_nodes t) {} \<Longrightarrow> merkle_ok t"
  by (auto simp: merkle_ok_def covered_by_def)

section \<open>One visit\<close>

fun recompute :: "hash list \<Rightarrow> nat \<times> nat \<Rightarrow> hash list" where
  "recompute ns (k, 0) = ns"
| "recompute ns (k, Suc l) = ns[node_no k (Suc l) := Xor (node_at ns (2 * k, l)) (node_at ns (2 * k + 1, l))]"

definition next_nodes :: "nat \<Rightarrow> nat \<times> nat \<Rightarrow> (nat \<times> nat) list" where
  "next_nodes d c = (if c = (0, d - 1) then [] else [(fst c div 2, Suc (snd c))])"

lemma length_recompute [simp]: "length (recompute ns c) = length ns"
  by (cases "(ns, c)" rule: recompute.cases) auto

lemma node_at_update:
  assumes "valid_node d c" "length ns = 2 ^ d"
  shows "node_at (ns[node_no (fst c) (snd c) := h]) c' = (if c' = c then h else node_at ns c')"
proof -
  have "node_no (fst c) (snd c) < length ns" using assms by (simp add: valid_node_def)
  moreover have "node_no (fst c') (snd c') = node_no (fst c) (snd c) \<longleftrightarrow> c' = c"
    by (cases c, cases c') simp
  ultimately show ?thesis by (auto simp: node_at_def nth_list_update)
qed

lemma node_at_recompute:
  assumes "valid_node d c" "length ns = 2 ^ d"
  shows "node_at (recompute ns c) c' =
    (case c of (k, Suc l) \<Rightarrow> if c' = c then Xor (node_at ns (2 * k, l)) (node_at ns (2 * k + 1, l))
                           else node_at ns c'
     | _ \<Rightarrow> node_at ns c')"
  using node_at_update [OF assms] by (cases "(ns, c)" rule: recompute.cases) auto

lemma node_at_recompute_other:
  "valid_node d c \<Longrightarrow> length ns = 2 ^ d \<Longrightarrow> c' \<noteq> c \<Longrightarrow> node_at (recompute ns c) c' = node_at ns c'"
  by (simp add: node_at_recompute split: prod.split nat.split)

lemma node_at_recompute_leaf:
  "valid_node d c \<Longrightarrow> length ns = 2 ^ d \<Longrightarrow> node_at (recompute ns c) (j, 0) = node_at ns (j, 0)"
  by (auto simp: node_at_recompute split: prod.split nat.split)

lemma next_nodes_valid:
  assumes "valid_node d c" "c' \<in> set (next_nodes d c)"
  shows "valid_node d c' \<and> snd c' = Suc (snd c)"
proof -
  obtain k l where c: "c = (k, l)" by fastforce
  with assms have "c \<noteq> (0, d - 1)" "c' = (k div 2, Suc l)" by (auto simp: next_nodes_def split: if_splits)
  then show ?thesis using assms(1) c valid_top [of d k l] valid_parent [of d k l] by auto
qed

lemma covered_by_visit:
  assumes cov: "covered_by d ns (insert c C)" and c: "valid_node d c" and len: "length ns = 2 ^ d"
  shows "covered_by d (recompute ns c) (C \<union> set (next_nodes d c))"
  unfolding covered_by_def
proof (intro allI impI)
  fix k l
  assume v: "valid_node d (k, Suc l)"
  let ?ns = "recompute ns c"
  note at = node_at_recompute_other [OF c len]
  show "consistent ?ns k l \<or> (\<exists>c' \<in> C \<union> set (next_nodes d c). ancestor (k, Suc l) c')"
  proof (cases "c = (k, Suc l)")
    case True
    then show ?thesis
      using node_at_recompute [OF c len, of c] at [of "(2 * k, l)"] at [of "(2 * k + 1, l)"]
      by (simp add: consistent_def)
  next
    case neq: False
    obtain a b where ab: "c = (a, b)" by fastforce
    show ?thesis
    proof (cases "ancestor (k, Suc l) c")
      case True
      then have "ancestor (k, Suc l) (a div 2, Suc b)" using ancestor_parent neq ab by auto
      moreover have "c \<noteq> (0, d - 1)"
      proof
        assume "c = (0, d - 1)"
        with True v have "(k, Suc l) = c" by (auto simp: ancestor_def valid_node_iff)
        with neq show False by simp
      qed
      ultimately show ?thesis by (auto simp: next_nodes_def ab)
    next
      case False
      then have "c \<noteq> (2 * k, l)" "c \<noteq> (2 * k + 1, l)" by (auto simp: ancestor_def)
      with neq at have "consistent ?ns k l \<longleftrightarrow> consistent ns k l" by (simp add: consistent_def)
      with cov v False show ?thesis by (auto simp: covered_by_def)
    qed
  qed
qed

section \<open>The array operations on coordinates\<close>

lemma node_bound: "tree_ok t \<Longrightarrow> valid_node (td t) (k, l) \<Longrightarrow> node_no k l < 2 ^ 32"
  by (rule valid_node_word) (auto simp: tree_ok_def)

lemma slice_get_node:
  "tree_ok t \<Longrightarrow> valid_node (td t) c \<Longrightarrow> slice_get (mt_nodes t) (unat (word_node c)) = Some (node_at (mt_nodes t) c)"
  using node_bound [of t "fst c" "snd c"] unat_word_node [of "fst c" "snd c"]
  by (simp add: slice_get_def node_at_def valid_node_def tree_ok_def)

lemma SetNodeHash_node:
  "tree_ok t \<Longrightarrow> valid_node (td t) c \<Longrightarrow>
     SetNodeHash t (word_node c) h = Some (t\<lparr>mt_nodes := (mt_nodes t)[node_no (fst c) (snd c) := h]\<rparr>)"
  using node_bound [of t "fst c" "snd c"] unat_word_node [of "fst c" "snd c"]
  by (simp add: SetNodeHash_def slice_set_def valid_node_def tree_ok_def)

lemma depth_shift: "tree_ok t \<Longrightarrow> ucast (mt_depth t - 1) = (of_nat (td t - 1) :: u32)"
proof -
  assume t: "tree_ok t"
  then have "unat (mt_depth t - 1) = td t - 1" by (intro unat_minus_one) (auto simp: tree_ok_def)
  then show ?thesis by (metis of_nat_unat)
qed

lemma RootNode_node: "tree_ok t \<Longrightarrow> RootNode t = word_node (0, td t - 1)"
  unfolding RootNode_def
  by (simp only: depth_shift) (subst go_shl_level, auto simp: tree_ok_def word_node_def node_no_def)

lemma word_node_root_iff:
  "tree_ok t \<Longrightarrow> valid_node (td t) c \<Longrightarrow> word_node c = RootNode t \<longleftrightarrow> c = (0, td t - 1)"
  using valid_root [of "td t"] word_node_eq [of "td t" c "(0, td t - 1)"]
  by (simp add: RootNode_node tree_ok_def)

text \<open>The guarded assignment of the loops is \<open>recompute\<close>.\<close>

lemma visit_node:
  assumes t: "tree_ok t" and c: "valid_node (td t) c" and node: "node = word_node c"
  shows "(if node AND 1 \<noteq> 1 then
            xor_children t node (node - go_shl 1 (CountTrailingZeros node - 1))
              (node + go_shl 1 (CountTrailingZeros node - 1))
          else Some t) = Some (t\<lparr>mt_nodes := recompute (mt_nodes t) c\<rparr>)"
proof (cases "(mt_nodes t, c)" rule: recompute.cases)
  case (1 ns k)
  with node_parity [of k 0] node_bound [OF t, of k 0] c node show ?thesis by simp
next
  case (2 ns k l)
  then have v: "valid_node (td t) (k, Suc l)" using c by simp
  have b: "node_no k (Suc l) < 2 ^ 32" using node_bound [OF t v] .
  have "node AND 1 = 0" using node_parity [OF b] node 2 by simp
  moreover have "valid_node (td t) (2 * k, l)" "valid_node (td t) (2 * k + 1, l)" using valid_children [OF v] by auto
  ultimately show ?thesis
    using 2 node left_node [OF b] right_node [OF b] slice_get_node [OF t] SetNodeHash_node [OF t v]
    by (simp add: xor_children_def)
qed

lemma visit_node_children:
  assumes t: "tree_ok t" and c: "valid_node (td t) c" and node: "node = word_node c"
  shows "(if node AND 1 \<noteq> 1 then xor_children t node (LeftChild node) (RightChild node) else Some t)
    = Some (t\<lparr>mt_nodes := recompute (mt_nodes t) c\<rparr>)"
  using visit_node [OF assms] by (auto simp: LeftChild_def RightChild_def split: if_splits)

lemma parent_word:
  "tree_ok t \<Longrightarrow> valid_node (td t) c \<Longrightarrow> ParentNode (word_node c) = word_node (fst c div 2, Suc (snd c))"
  using ParentNode_node [of "fst c" "snd c"] node_bound [of t "fst c" "snd c"] by simp

section \<open>The queue walk returns and restores the invariant\<close>

definition ancestors_of :: "nat \<Rightarrow> (nat \<times> nat) set \<Rightarrow> (nat \<times> nat) set" where
  "ancestors_of d C = {a. valid_node d a \<and> (\<exists>c \<in> C. ancestor a c)}"

lemma ancestor_trans_parent: "ancestor a (k div 2, Suc l) \<Longrightarrow> ancestor a (k, l)"
proof -
  assume a: "ancestor a (k div 2, Suc l)"
  then have "Suc l \<le> snd a" by (simp add: ancestor_def)
  then have "snd a - l = Suc (snd a - Suc l)" by arith
  with a show ?thesis by (simp add: ancestor_def div_mult2_eq)
qed

lemma ancestors_of_step:
  assumes "valid_node d c"
  shows "ancestors_of d (insert c C) = insert c (ancestors_of d (C \<union> set (next_nodes d c)))"
proof -
  obtain k l where c: "c = (k, l)" by fastforce
  have "ancestor a c \<longleftrightarrow> a = c \<or> (\<exists>c' \<in> set (next_nodes d c). ancestor a c')" if a: "valid_node d a" for a
  proof (cases "c = (0, d - 1)")
    case True
    have "a = c" if "ancestor a c"
      using that a True by (cases a) (auto simp: ancestor_def valid_node_iff)
    with True show ?thesis by (auto simp: next_nodes_def)
  next
    case False
    then show ?thesis using ancestor_parent [of a k l] ancestor_trans_parent [of a k l]
      by (auto simp: next_nodes_def c)
  qed
  with assms show ?thesis by (auto simp: ancestors_of_def)
qed

text \<open>What a walk over the nodes \<open>C\<close> may change.\<close>

definition repaired :: "(nat \<times> nat) set \<Rightarrow> merkle_tree \<Rightarrow> merkle_tree \<Rightarrow> bool" where
  "repaired C t t' \<longleftrightarrow> merkle_ok t' \<and> mt_depth t' = mt_depth t \<and> mt_nodes t' ! 0 = mt_nodes t ! 0
     \<and> (\<forall>j. node_at (mt_nodes t') (j, 0) = node_at (mt_nodes t) (j, 0))
     \<and> (\<forall>a. valid_node (td t) a \<longrightarrow> a \<notin> ancestors_of (td t) C \<longrightarrow>
            node_at (mt_nodes t') a = node_at (mt_nodes t) a)"

definition visited :: "merkle_tree \<Rightarrow> nat \<times> nat \<Rightarrow> merkle_tree" where
  "visited t c = t\<lparr>mt_nodes := recompute (mt_nodes t) c\<rparr>"

lemma visited_simps [simp]:
  "mt_depth (visited t c) = mt_depth t" "tree_ok (visited t c) = tree_ok t" "RootNode (visited t c) = RootNode t"
  by (auto simp: visited_def tree_ok_def RootNode_def)

lemma recompute_nth_0 [simp]: "recompute ns c ! 0 = ns ! 0"
  by (cases "(ns, c)" rule: recompute.cases) (auto simp: nth_list_update_neq)

lemma repaired_step:
  assumes "tree_ok t" "valid_node (td t) c"
    and "repaired (C \<union> set (next_nodes (td t) c)) (visited t c) t'"
  shows "repaired (insert c C) t t'"
proof -
  have len: "length (mt_nodes t) = 2 ^ td t" using assms(1) by (simp add: tree_ok_def)
  show ?thesis
    using assms(3) node_at_recompute_leaf [OF assms(2) len] node_at_recompute_other [OF assms(2) len]
    unfolding repaired_def ancestors_of_step [OF assms(2)]
    by (simp add: visited_def)
qed

definition walk_queue :: "merkle_tree \<Rightarrow> queue \<Rightarrow> queue" where
  "walk_queue t q = (let (node, q) = Dequeue q in
     if node \<noteq> RootNode t then Enqueue (ParentNode node) q else q)"

lemma walk_queue_spec:
  assumes "tree_ok t" "queue_ok q" "queue_elems q = map word_node (c # cs)" "valid_node (td t) c"
  shows "queue_ok (walk_queue t q) \<and> queue_elems (walk_queue t q) = map word_node (cs @ next_nodes (td t) c)
    \<and> fst (Dequeue q) = word_node c"
proof -
  have ne: "queue_elems q \<noteq> []" using assms(3) by simp
  have f: "fst (Dequeue q) = word_node c" using mq.deq_fst [OF assms(2) ne] assms(3) by simp
  then show ?thesis
    using mq.deq_ok [OF assms(2) ne] mq.deq_elems [OF assms(2) ne] mq.deq_enq [OF assms(2) ne]
      mq.deq_enq_ok [OF assms(2) ne] assms(3) word_node_root_iff [OF assms(1,4)] parent_word [OF assms(1,4)]
    by (auto simp: walk_queue_def next_nodes_def split: prod.split)
qed

lemma walk_unfold:
  assumes "tree_ok t" "queue_ok q" "queue_elems q = map word_node (c # cs)" "valid_node (td t) c"
  shows "update_walk q m t = update_walk (walk_queue t q) (m(word_node c \<mapsto> True)) (visited t c)
    \<and> undo_walk q t = undo_walk (walk_queue t q) (visited t c)"
proof -
  have "q_size q \<noteq> 0" using assms(3) elems_nonempty_iff by fastforce
  then have sz: "0 < Queue_Size q" by (simp add: Queue_Size_def word_neq_0_conv)
  obtain q' where dq: "Dequeue q = (word_node c, q')"
    using walk_queue_spec [OF assms] by (metis prod.collapse)
  note v = visit_node [OF assms(1,4) refl]
  show ?thesis
    by (subst update_walk.simps, subst undo_walk.simps)
      (simp only: sz dq prod.case Let_def v not_True_eq_False if_False Option.bind.bind_lunit
        visited_def walk_queue_def)
qed

lemma walk_returns:
  assumes "tree_ok t" "queue_ok q" "queue_elems q = map word_node cs"
    and "\<forall>c \<in> set cs. valid_node (td t) c" "covered_by (td t) (mt_nodes t) (set cs)"
  shows "\<exists>t'. update_walk q m t
          = Some (\<lambda>n. if n \<in> word_node ` ancestors_of (td t) (set cs) then Some True else m n, t')
        \<and> undo_walk q t = Some t' \<and> repaired (set cs) t t'"
  using assms
proof (induction "\<Sum>c \<leftarrow> cs. td t - snd c" arbitrary: cs q m t rule: less_induct)
  case less
  show ?case
  proof (cases cs)
    case Nil
    then have "Queue_Size q = 0" using less.prems(3) elems_nonempty_iff [of q] by (simp add: Queue_Size_def)
    then show ?thesis
      using Nil covered_by_empty [OF less.prems(1)] less.prems(5)
      by (simp add: update_walk.simps undo_walk.simps repaired_def ancestors_of_def)
  next
    case (Cons c cs')
    let ?t = "visited t c" and ?q = "walk_queue t q" and ?cs = "cs' @ next_nodes (td t) c"
    have c: "valid_node (td t) c" using less.prems(4) Cons by simp
    have el: "queue_elems q = map word_node (c # cs')" using less.prems(3) Cons by simp
    have len: "length (mt_nodes t) = 2 ^ td t" using less.prems(1) by (simp add: tree_ok_def)
    have w: "queue_ok ?q" "queue_elems ?q = map word_node ?cs"
      using walk_queue_spec [OF less.prems(1,2) el c] by auto
    have "snd c < td t" using c by (cases c) (simp add: valid_node_iff)
    then have "(\<Sum>c \<leftarrow> next_nodes (td t) c. td t - snd c) < td t - snd c"
      by (auto simp: next_nodes_def)
    then have dec: "(\<Sum>c \<leftarrow> ?cs. td ?t - snd c) < (\<Sum>c \<leftarrow> cs. td t - snd c)" using Cons by simp
    have val: "\<forall>c \<in> set ?cs. valid_node (td ?t) c"
      using less.prems(4) next_nodes_valid [OF c] Cons by auto
    have cov: "covered_by (td ?t) (mt_nodes ?t) (set ?cs)"
      using covered_by_visit [of "td t" "mt_nodes t" c "set cs'"] less.prems(5) c len Cons
      by (simp add: visited_def)
    obtain t' where t': "update_walk ?q (m(word_node c \<mapsto> True)) ?t =
        Some (\<lambda>n. if n \<in> word_node ` ancestors_of (td ?t) (set ?cs) then Some True
          else (m(word_node c \<mapsto> True)) n, t')"
      "undo_walk ?q ?t = Some t'" "repaired (set ?cs) ?t t'"
      using less.hyps [OF dec _ w val cov, of "m(word_node c \<mapsto> True)"] less.prems(1) by auto
    have "repaired (set cs) t t'"
      using repaired_step [OF less.prems(1) c, of "set cs'" t'] t'(3) Cons by simp
    moreover have "ancestors_of (td t) (set cs) = insert c (ancestors_of (td t) (set ?cs))"
      using ancestors_of_step [OF c, of "set cs'"] Cons by simp
    ultimately show ?thesis
      using walk_unfold [OF less.prems(1,2) el c] t'(1,2)
      by (intro exI [of _ t']) (auto simp: fun_eq_iff)
  qed
qed

text \<open>The single path of \<^verbatim>\<open>UpdateLeafHash\<close> repairs the tree in the same way.\<close>

lemma above_root: "tree_ok t \<Longrightarrow> ParentNode (RootNode t) = word_node (0, td t)"
  using parent_word [of t "(0, td t - 1)"] valid_root [of "td t"] by (simp add: RootNode_node tree_ok_def)

lemma below_above_root:
  assumes "tree_ok t" "valid_node (td t) (k, l)"
  shows "word_node (k, l) \<noteq> word_node (0, td t)"
proof -
  have "valid_node 32 (k, l)" using node_bound [OF assms] by (simp add: valid_node_def)
  moreover have "valid_node 32 (0, td t)" using assms(1) by (simp add: valid_node_iff tree_ok_def)
  ultimately show ?thesis using assms(2) word_node_eq [of 32 "(k, l)" "(0, td t)"] by (auto simp: valid_node_iff)
qed

lemma update_leaf_loop_returns:
  assumes "tree_ok t" "valid_node (td t) (k, l)" "covered_by (td t) (mt_nodes t) {(k, l)}"
  shows "\<exists>t'. update_leaf_loop t (word_node (k, l)) = Some t' \<and> repaired {(k, l)} t t'"
  using assms
proof (induction "td t - l" arbitrary: k l t rule: less_induct)
  case less
  let ?t = "visited t (k, l)"
  have unfold: "update_leaf_loop t (word_node (k, l)) = update_leaf_loop ?t (word_node (k div 2, Suc l))"
    using visit_node_children [OF less.prems(1,2) refl] parent_word [OF less.prems(1,2)]
      below_above_root [OF less.prems(1,2)] above_root [OF less.prems(1)]
    by (subst update_leaf_loop.simps) (simp add: Let_def visited_def)
  have len: "length (mt_nodes t) = 2 ^ td t" using less.prems(1) by (simp add: tree_ok_def)
  have cov: "covered_by (td ?t) (mt_nodes ?t) (set (next_nodes (td t) (k, l)))"
    using covered_by_visit [of "td t" "mt_nodes t" "(k, l)" "{}"] less.prems(2,3) len by (simp add: visited_def)
  note step = repaired_step [OF less.prems(1,2), of "{}"]
  show ?case
  proof (cases "(k, l) = (0, td t - 1)")
    case True
    then have "next_nodes (td t) (k, l) = []" by (simp add: next_nodes_def)
    moreover have "word_node (k div 2, Suc l) = ParentNode (RootNode ?t)"
      using True above_root [OF less.prems(1)] less.prems(1) by (simp add: tree_ok_def)
    moreover have "repaired {} ?t ?t"
      using cov covered_by_empty [of ?t] less.prems(1) calculation(1) by (simp add: repaired_def)
    ultimately show ?thesis using step [of ?t] unfold by (simp add: update_leaf_loop.simps [of ?t])
  next
    case False
    then have nn: "next_nodes (td t) (k, l) = [(k div 2, Suc l)]" by (simp add: next_nodes_def)
    then have v: "valid_node (td ?t) (k div 2, Suc l)"
      using next_nodes_valid [OF less.prems(2), of "(k div 2, Suc l)"] by simp
    have "td ?t - Suc l < td t - l" using less.prems(2) by (auto simp: valid_node_iff)
    then have "\<exists>t'. update_leaf_loop ?t (word_node (k div 2, Suc l)) = Some t' \<and> repaired {(k div 2, Suc l)} ?t t'"
      using cov v less.prems(1) nn by (intro less.hyps) simp_all
    then show ?thesis using step unfold nn by auto
  qed
qed

end
