(* ===== verification/Merkle_Database.thy ===== *)
theory Merkle_Database
  imports Merkle_Laws
begin

text \<open>
  What the Merkle tree says about a database: when the leaves accumulate the object hashes of the
  keys that map to them, every node is the XOR of the object hashes in its range, and the
  updates keep this relation. Accumulation over sets of keys is the \<open>comm_monoid_set\<close> instance of the
  XOR group.
\<close>

interpretation hxs: comm_monoid_set Xor zero_hash
  by unfold_locales (auto simp: hx.xor_ac)

lemma foldl_Xor_F:
  "distinct xs \<Longrightarrow> foldl (\<lambda>h x. Xor h (f x)) a xs = Xor a (hxs.F f (set xs))"
proof (induction xs arbitrary: a)
  case (Cons x xs)
  then show ?case by (simp add: hx.xor_ac)
qed simp

lemma foldl_Xor_image:
  assumes "distinct (map g xs)"
  shows "foldl (\<lambda>h x. Xor h (f (g x))) a xs = Xor a (hxs.F f (g ` set xs))"
  using foldl_Xor_F [OF assms, of f a] by (simp add: foldl_map)

section \<open>Leaves of keys\<close>

definition key_leaf :: "u8 \<Rightarrow> string \<Rightarrow> u32" where
  "key_leaf depth key = LeafNode (NewHash (bytes_of_string key)) depth"

lemma LeafNode_nat:
  assumes "1 \<le> unat depth" "unat depth \<le> 28"
  shows "odd (unat (LeafNode h depth)) \<and> unat (LeafNode h depth) < 2 ^ unat depth"
proof -
  let ?d = "unat depth"
  let ?x = "drop_bit (64 - ?d) (High h)"
  have "depth \<le> 64" using assms(2) by (simp add: word_le_nat_alt)
  then have s: "unat (64 - depth) = 64 - ?d" by (simp add: unat_sub)
  have x: "go_shr (High h) (ucast (64 - depth)) = ?x"
    using assms by (auto simp: go_shr_def s)
  have "unat ?x = unat (High h) div 2 ^ (64 - ?d)" unfolding unat_drop_bit_eq by (rule drop_bit_eq_div)
  moreover have "unat (High h) < 2 ^ ?d * 2 ^ (64 - ?d)"
    using assms unsigned_less [of "High h", where 'a = nat] by (simp flip: power_add)
  ultimately have lt: "unat ?x < 2 ^ ?d" by (simp add: less_mult_imp_div_less)
  have p: "(2 :: nat) ^ ?d \<le> 2 ^ 28" using assms(2) by (intro power_increasing) auto
  have uc: "unat (ucast ?x :: u32) = unat ?x"
    using lt p by (simp add: unsigned_ucast_eq take_bit_nat_eq_self_iff)
  have leaf: "LeafNode h depth = ucast ?x OR 1" by (simp add: LeafNode_def Let_def x)
  have n: "unat (LeafNode h depth) = unat ?x OR 1"
    unfolding leaf unsigned_or_eq uc by simp
  moreover have "unat ?x OR 1 < 2 ^ ?d"
  proof -
    have "take_bit ?d (unat ?x) = unat ?x" "take_bit ?d (1 :: nat) = 1"
      using lt one_less_power [of "2 :: nat" ?d] assms(1) by (simp_all only: take_bit_nat_eq_self_iff)
    then have "take_bit ?d (unat ?x OR 1) = unat ?x OR 1" by (simp only: take_bit_or)
    then show ?thesis by (simp only: take_bit_nat_eq_self_iff)
  qed
  ultimately show ?thesis by (simp add: even_or_iff)
qed

lemma key_leaf_valid:
  assumes "tree_ok t"
  shows "\<exists>k. key_leaf (mt_depth t) key = word_node (k, 0) \<and> valid_node (td t) (k, 0)"
  unfolding key_leaf_def using LeafNode_nat assms by (intro odd_is_leaf) (auto simp: tree_ok_def)

definition leaf_idx :: "u8 \<Rightarrow> string \<Rightarrow> nat" where
  "leaf_idx depth key = unat (key_leaf depth key) div 2"

lemma leaf_idx:
  assumes "tree_ok t"
  shows "key_leaf (mt_depth t) key = word_node (leaf_idx (mt_depth t) key, 0)
    \<and> valid_node (td t) (leaf_idx (mt_depth t) key, 0)"
proof -
  obtain k where k: "key_leaf (mt_depth t) key = word_node (k, 0)" "valid_node (td t) (k, 0)"
    using key_leaf_valid [OF assms] by blast
  then have "unat (key_leaf (mt_depth t) key) = node_no k 0" using unat_word_node node_bound [OF assms] by simp
  then have "leaf_idx (mt_depth t) key = k" by (simp add: leaf_idx_def node_no_def)
  with k show ?thesis by simp
qed

section \<open>The leaf phase of an update\<close>

abbreviation new_hash :: "diff \<Rightarrow> hash" where
  "new_hash df \<equiv> SiblingSet_Hash (diff_new df) (bytes_of_string (diff_key df))"

abbreviation old_hash :: "diff \<Rightarrow> hash" where
  "old_hash df \<equiv> SiblingSet_Hash (diff_old df) (bytes_of_string (diff_key df))"

definition add_leaf :: "u8 \<Rightarrow> diff \<Rightarrow> hash list \<Rightarrow> hash list" where
  "add_leaf depth df ns =
     ns[unat (key_leaf depth (diff_key df)) :=
          Xor (Xor (ns ! unat (key_leaf depth (diff_key df))) (old_hash df)) (new_hash df)]"

definition note_hash :: "u8 \<Rightarrow> diff \<Rightarrow> object_hashes \<Rightarrow> object_hashes" where
  "note_hash depth df oh = put_object_hash oh (key_leaf depth (diff_key df)) (diff_key df) (new_hash df)"

lemma length_add_leaves [simp]: "length (fold (add_leaf depth) dfs ns) = length ns"
  by (induction dfs arbitrary: ns) (auto simp: add_leaf_def)

lemma key_leaf_bound: "tree_ok t \<Longrightarrow> unat (key_leaf (mt_depth t) key) < length (mt_nodes t)"
  using LeafNode_nat [of "mt_depth t"] by (auto simp: tree_ok_def key_leaf_def)

lemma update_diffs_eq:
  assumes "tree_ok t"
  shows "update_diffs dfs (t, q, oh) =
    Some (t\<lparr>mt_nodes := fold (add_leaf (mt_depth t)) dfs (mt_nodes t)\<rparr>,
          fold Enqueue (map (key_leaf (mt_depth t) \<circ> diff_key) dfs) q,
          fold (note_hash (mt_depth t)) dfs oh)"
  using assms
proof (induction dfs arbitrary: t q oh)
  case (Cons df dfs)
  let ?leaf = "key_leaf (mt_depth t) (diff_key df)"
  let ?t = "t\<lparr>mt_nodes := add_leaf (mt_depth t) df (mt_nodes t)\<rparr>"
  have "xor_leaf t ?leaf (old_hash df) (new_hash df) = Some ?t"
    using key_leaf_bound [OF Cons.prems]
    by (simp add: xor_leaf_def slice_get_def SetNodeHash_def slice_set_def add_leaf_def)
  moreover have "tree_ok ?t" using Cons.prems by (simp add: tree_ok_def add_leaf_def)
  ultimately show ?case
    using Cons.IH [of ?t "Enqueue ?leaf q" "note_hash (mt_depth t) df oh"]
    by (simp add: Let_def Key_def NewSiblingSet_of_def OldSiblingSet_def key_leaf_def note_hash_def)
qed simp

lemma undo_diffs_eq: "undo_diffs dfs (t, q) = map_option (\<lambda>(t, q, oh). (t, q)) (update_diffs dfs (t, q, oh))"
proof (induction dfs arbitrary: t q oh)
  case (Cons df dfs)
  show ?case using Cons.IH by (auto simp: Let_def map_option_bind split: Option.bind_splits)
qed simp

text \<open>The value of every leaf after the phase; nothing else changes.\<close>

lemma fold_add_leaf_nth:
  assumes "n < length ns"
  shows "fold (add_leaf depth) dfs ns ! n
    = foldl (\<lambda>h df. Xor h (Xor (old_hash df) (new_hash df))) (ns ! n)
        (filter (\<lambda>df. unat (key_leaf depth (diff_key df)) = n) dfs)"
  using assms
proof (induction dfs arbitrary: ns)
  case (Cons df dfs)
  have l: "n < length (add_leaf depth df ns)" using Cons.prems by (simp add: add_leaf_def)
  show ?case using Cons.IH [OF l] Cons.prems by (auto simp: add_leaf_def hx.xor_assoc)
qed simp

lemma leaf_number_odd: "tree_ok t \<Longrightarrow> odd (unat (key_leaf (mt_depth t) key))"
  using LeafNode_nat by (auto simp: tree_ok_def key_leaf_def)

lemma add_leaves_inner:
  assumes "tree_ok t" "n < 2 ^ td t" "n \<notin> (\<lambda>df. unat (key_leaf (mt_depth t) (diff_key df))) ` set dfs"
  shows "fold (add_leaf (mt_depth t)) dfs (mt_nodes t) ! n = mt_nodes t ! n"
proof -
  have "filter (\<lambda>df. unat (key_leaf (mt_depth t) (diff_key df)) = n) dfs = []"
    using assms(3) by (auto simp: filter_empty_conv)
  with assms(1,2) show ?thesis by (simp add: fold_add_leaf_nth tree_ok_def)
qed

lemma add_leaves_0: "tree_ok t \<Longrightarrow> fold (add_leaf (mt_depth t)) dfs (mt_nodes t) ! 0 = mt_nodes t ! 0"
proof (rule add_leaves_inner)
  assume t: "tree_ok t"
  show "0 \<notin> (\<lambda>df. unat (key_leaf (mt_depth t) (diff_key df))) ` set dfs"
    using leaf_number_odd [OF t] by (metis (no_types, lifting) even_zero imageE)
qed simp_all

definition leaf_coords :: "u8 \<Rightarrow> diff list \<Rightarrow> (nat \<times> nat) list" where
  "leaf_coords depth dfs = map (\<lambda>df. (leaf_idx depth (diff_key df), 0)) dfs"

lemma leaf_coords_words:
  "tree_ok t \<Longrightarrow> map (key_leaf (mt_depth t) \<circ> diff_key) dfs = map word_node (leaf_coords (mt_depth t) dfs)"
  by (simp add: leaf_coords_def leaf_idx)

lemma covered_add_leaves:
  assumes "merkle_ok t"
  shows "covered_by (td t) (fold (add_leaf (mt_depth t)) dfs (mt_nodes t)) (set (leaf_coords (mt_depth t) dfs))"
  unfolding covered_by_def
proof (intro allI impI disjCI)
  fix k l
  let ?ns = "fold (add_leaf (mt_depth t)) dfs (mt_nodes t)"
  assume v: "valid_node (td t) (k, Suc l)"
    and no: "\<not> (\<exists>c \<in> set (leaf_coords (mt_depth t) dfs). ancestor (k, Suc l) c)"
  have t: "tree_ok t" using assms by simp
  have same: "node_at ?ns c = node_at (mt_nodes t) c"
    if c: "valid_node (td t) c" "c = (k, Suc l) \<or> ancestor (k, Suc l) c" for c
  proof -
    have "node_no (fst c) (snd c) \<noteq> unat (key_leaf (mt_depth t) (diff_key df))" if df: "df \<in> set dfs" for df
    proof
      let ?j = "leaf_idx (mt_depth t) (diff_key df)"
      assume "node_no (fst c) (snd c) = unat (key_leaf (mt_depth t) (diff_key df))"
      then have "node_no (fst c) (snd c) = node_no ?j 0"
        using leaf_idx [OF t] unat_word_node [of ?j 0] node_bound [OF t] by metis
      then have "c = (?j, 0)" by (cases c) simp
      with c(2) no df show False by (auto simp: leaf_coords_def)
    qed
    then have "node_no (fst c) (snd c) \<notin> (\<lambda>df. unat (key_leaf (mt_depth t) (diff_key df))) ` set dfs" by blast
    then show ?thesis
      unfolding node_at_def using add_leaves_inner [OF t] c(1) by (simp add: valid_node_def)
  qed
  have "ancestor (k, Suc l) (2 * k, l)" "ancestor (k, Suc l) (2 * k + 1, l)" by (auto simp: ancestor_def)
  with same v valid_children [OF v] have "consistent ?ns k l \<longleftrightarrow> consistent (mt_nodes t) k l"
    by (simp add: consistent_def)
  with assms v show "consistent ?ns k l" by (simp add: merkle_ok_def)
qed

section \<open>Update and UndoUpdate\<close>

text \<open>
  Both operations return, repair the tree above the changed leaves and agree on the resulting tree.
  The queue is as large as the update, so nothing is dropped.
\<close>

lemma Tree_Update_returns:
  assumes "merkle_ok t" "length u < 2 ^ 31"
  defines "C \<equiv> leaf_coords (mt_depth t) (Update_Iter u)"
    and "ns \<equiv> fold (add_leaf (mt_depth t)) (Update_Iter u) (mt_nodes t)"
  shows "\<exists>t'. Tree_Update t u =
      Some (\<lambda>n. if n \<in> word_node ` ancestors_of (td t) (set C) then Some True else None,
            fold (note_hash (mt_depth t)) (Update_Iter u) Map.empty, t')
    \<and> UndoUpdate t u = Some t' \<and> repaired (set C) (t\<lparr>mt_nodes := ns\<rparr>) t'"
proof -
  have t: "tree_ok t" using assms(1) by simp
  let ?t = "t\<lparr>mt_nodes := ns\<rparr>"
  let ?p = "NewQueue (of_nat (Update_Size u))"
  let ?q = "fold Enqueue (map word_node C) ?p"
  have q0: "queue_ok ?p" "queue_elems ?p = []" "length (q_arr ?p) = Update_Size u"
    using NewQueue_ok [of "Update_Size u"] assms(2) by (auto simp: Update_Size_def)
  have "length (queue_elems ?p) + length (map word_node C) \<le> length (q_arr ?p)"
    unfolding q0(2,3) by (simp add: C_def leaf_coords_def Update_Iter_def Update_Size_def)
  from mq.fold_enq [OF q0(1) this] have q: "queue_ok ?q" "queue_elems ?q = map word_node C"
    unfolding q0(2) by auto
  have t': "tree_ok ?t" using t by (simp add: tree_ok_def ns_def)
  have val: "\<forall>c \<in> set C. valid_node (td ?t) c" using leaf_idx [OF t] by (auto simp: C_def leaf_coords_def)
  have cov: "covered_by (td ?t) (mt_nodes ?t) (set C)"
    using covered_add_leaves [OF assms(1)] by (simp add: C_def ns_def)
  have leaf: "update_diffs (Update_Iter u) (t, ?p, oh) =
      Some (?t, ?q, fold (note_hash (mt_depth t)) (Update_Iter u) oh)" for oh
    using update_diffs_eq [OF t] leaf_coords_words [OF t] by (simp add: ns_def C_def)
  obtain t'' where w: "update_walk ?q Map.empty ?t
      = Some (\<lambda>n. if n \<in> word_node ` ancestors_of (td t) (set C) then Some True else None, t'')"
    "undo_walk ?q ?t = Some t''" "repaired (set C) ?t t''"
    using walk_returns [OF t' q val cov, of Map.empty] by auto
  show ?thesis
    using w leaf [of Map.empty] undo_diffs_eq [of "Update_Iter u" t ?p Map.empty]
    by (auto simp: Tree_Update_def UndoUpdate_def)
qed

lemma repaired_simps:
  "repaired C t t' \<Longrightarrow> mt_depth t' = mt_depth t"
  "repaired C t t' \<Longrightarrow> merkle_ok t'"
  "repaired C t t' \<Longrightarrow> node_at (mt_nodes t') (j, 0) = node_at (mt_nodes t) (j, 0)"
  by (simp_all add: repaired_def)

text \<open>A node hash is the XOR of the leaf hashes below it, so the leaves determine the tree.\<close>

lemma node_sum:
  assumes "merkle_ok t" "valid_node (td t) (k, l)"
  shows "node_at (mt_nodes t) (k, l) = hxs.F (\<lambda>j. node_at (mt_nodes t) (j, 0)) {k * 2 ^ l ..< (k + 1) * 2 ^ l}"
  using assms(2)
proof (induction l arbitrary: k)
  case 0
  have "{k ..< k + 1} = {k}" by auto
  then show ?case by simp
next
  case (Suc l)
  let ?f = "\<lambda>j. node_at (mt_nodes t) (j, 0)"
  have split: "{k * 2 ^ Suc l ..< (k + 1) * 2 ^ Suc l}
      = {2 * k * 2 ^ l ..< (2 * k + 1) * 2 ^ l} \<union> {(2 * k + 1) * 2 ^ l ..< (2 * k + 1 + 1) * 2 ^ l}"
    by (subst ivl_disj_un) (auto simp: algebra_simps)
  have "node_at (mt_nodes t) (k, Suc l)
      = Xor (node_at (mt_nodes t) (2 * k, l)) (node_at (mt_nodes t) (2 * k + 1, l))"
    using assms(1) Suc.prems by (simp add: merkle_ok_def consistent_def)
  also have "\<dots> = Xor (hxs.F ?f {2 * k * 2 ^ l ..< (2 * k + 1) * 2 ^ l})
      (hxs.F ?f {(2 * k + 1) * 2 ^ l ..< (2 * k + 1 + 1) * 2 ^ l})"
    using Suc.IH valid_children [OF Suc.prems] by simp
  also have "\<dots> = hxs.F ?f {k * 2 ^ Suc l ..< (k + 1) * 2 ^ Suc l}"
    unfolding split by (subst hxs.union_disjoint) auto
  finally show ?case .
qed

lemma nat_is_node: "0 < n \<Longrightarrow> \<exists>k l. n = node_no k l"
proof (induction n rule: less_induct)
  case (less n)
  show ?case
  proof (cases "odd n")
    case True
    then obtain k where "n = 2 * k + 1" using oddE by blast
    then have "n = node_no k 0" by (simp add: node_no_def)
    then show ?thesis by blast
  next
    case False
    then obtain m where m: "n = 2 * m" by blast
    with less obtain k l where "m = node_no k l" by (metis less_add_same_cancel1 mult_2 nat_0_less_mult_iff)
    with m have "n = node_no k (Suc l)" by (simp add: node_no_def)
    then show ?thesis by blast
  qed
qed

lemma leaves_determine_tree:
  assumes "merkle_ok s" "merkle_ok t" "mt_depth s = mt_depth t" "mt_nodes s ! 0 = mt_nodes t ! 0"
    and "\<And>j. valid_node (td s) (j, 0) \<Longrightarrow> node_at (mt_nodes s) (j, 0) = node_at (mt_nodes t) (j, 0)"
  shows "mt_nodes s = mt_nodes t"
proof (rule nth_equalityI)
  show "length (mt_nodes s) = length (mt_nodes t)"
    using assms(1-3) by (simp add: merkle_ok_def tree_ok_def)
  fix n assume n: "n < length (mt_nodes s)"
  show "mt_nodes s ! n = mt_nodes t ! n"
  proof (cases "n = 0")
    case False
    then obtain k l where kl: "n = node_no k l" using nat_is_node by blast
    with n assms(1) have v: "valid_node (td s) (k, l)" by (simp add: valid_node_def merkle_ok_def tree_ok_def)
    have "valid_node (td s) (j, 0)" if "j \<in> {k * 2 ^ l ..< (k + 1) * 2 ^ l}" for j
    proof -
      have "j < (k + 1) * 2 ^ l" using that by simp
      also have "\<dots> \<le> 2 ^ (td s - 1 - l) * 2 ^ l" using v by (intro mult_right_mono) (auto simp: valid_node_iff)
      also have "\<dots> = 2 ^ (td s - 1)" using v by (simp add: valid_node_iff flip: power_add)
      finally show ?thesis using v by (simp add: valid_node_iff)
    qed
    with assms(5) have "hxs.F (\<lambda>j. node_at (mt_nodes s) (j, 0)) {k * 2 ^ l ..< (k + 1) * 2 ^ l}
        = hxs.F (\<lambda>j. node_at (mt_nodes t) (j, 0)) {k * 2 ^ l ..< (k + 1) * 2 ^ l}"
      by (intro hxs.cong) auto
    then have "node_at (mt_nodes s) (k, l) = node_at (mt_nodes t) (k, l)"
      using node_sum [OF assms(1) v] node_sum [OF assms(2), of k l] v assms(3) by simp
    with kl show ?thesis by (simp add: node_at_def)
  qed (use assms(4) in simp)
qed

section \<open>The tree of a database\<close>

type_synonym database = "string \<Rightarrow> sibling_set option"

definition obj_hash :: "database \<Rightarrow> string \<Rightarrow> hash" where
  "obj_hash D key = SiblingSet_Hash (D key) (bytes_of_string key)"

lemma obj_hash_None: "D key = None \<Longrightarrow> obj_hash D key = zero_hash"
  by (simp add: obj_hash_def SiblingSet_Hash_def)

definition represents :: "merkle_tree \<Rightarrow> database \<Rightarrow> bool" where
  "represents t D \<longleftrightarrow> merkle_ok t \<and> finite (dom D) \<and>
     (\<forall>j. valid_node (td t) (j, 0) \<longrightarrow>
        node_at (mt_nodes t) (j, 0) = hxs.F (obj_hash D) {key \<in> dom D. leaf_idx (mt_depth t) key = j})"

definition apply_update :: "database \<Rightarrow> update \<Rightarrow> database" where
  "apply_update D u key = (case map_of u key of None \<Rightarrow> D key | Some df \<Rightarrow> diff_new df)"

definition update_of :: "database \<Rightarrow> update \<Rightarrow> bool" where
  "update_of D u \<longleftrightarrow> wf_update u \<and> length u < 2 ^ 31 \<and> (\<forall>(key, df) \<in> set u. diff_old df = D key)"

lemma obj_hash_superset:
  assumes "finite B" "{key \<in> dom D. P key} \<subseteq> B" "\<forall>key \<in> B. P key"
  shows "hxs.F (obj_hash D) {key \<in> dom D. P key} = hxs.F (obj_hash D) B"
  using assms by (intro hxs.mono_neutral_left) (auto intro!: obj_hash_None)

lemma dom_apply_update: "dom (apply_update D u) \<subseteq> dom D \<union> fst ` set u"
proof
  fix key assume "key \<in> dom (apply_update D u)"
  then show "key \<in> dom D \<union> fst ` set u"
    using map_of_eq_None_iff [of u key] by (cases "map_of u key") (auto simp: apply_update_def)
qed

lemma finite_dom_apply: "finite (dom D) \<Longrightarrow> finite (dom (apply_update D u))"
  using dom_apply_update by (rule finite_subset) simp

lemma diff_hashes:
  assumes "update_of D u" "df \<in> set (Update_Iter u)"
  shows "old_hash df = obj_hash D (diff_key df)" "new_hash df = obj_hash (apply_update D u) (diff_key df)"
proof -
  from assms obtain key where k: "(key, df) \<in> set u" by (auto simp: Update_Iter_def)
  with assms have "diff_key df = key" "diff_old df = D key" "map_of u key = Some df"
    by (auto simp: update_of_def wf_update_def intro: map_of_is_SomeI)
  then show "old_hash df = obj_hash D (diff_key df)" "new_hash df = obj_hash (apply_update D u) (diff_key df)"
    by (simp_all add: obj_hash_def apply_update_def)
qed

lemma keys_of_Iter: "wf_update u \<Longrightarrow> diff_key ` set (Update_Iter u) = fst ` set u"
  by (force simp: wf_update_def Update_Iter_def)

text \<open>The change of one leaf: the old object hashes cancel and the new ones remain.\<close>

lemma leaf_after_update:
  assumes rep: "represents t D" and u: "update_of D u" and j: "valid_node (td t) (j, 0)"
  shows "node_at (fold (add_leaf (mt_depth t)) (Update_Iter u) (mt_nodes t)) (j, 0)
    = hxs.F (obj_hash (apply_update D u)) {key \<in> dom (apply_update D u). leaf_idx (mt_depth t) key = j}"
proof -
  let ?D = "apply_update D u" and ?P = "\<lambda>key. leaf_idx (mt_depth t) key = j"
  let ?sel = "filter (\<lambda>df. unat (key_leaf (mt_depth t) (diff_key df)) = node_no j 0) (Update_Iter u)"
  let ?g = "\<lambda>key. Xor (obj_hash D key) (obj_hash ?D key)"
  let ?B = "{key \<in> dom D \<union> fst ` set u. ?P key}"
  have t: "tree_ok t" using rep by (simp add: represents_def)
  have wf: "wf_update u" using u by (simp add: update_of_def)
  have fin: "finite ?B" using rep by (simp add: represents_def)
  have sel: "unat (key_leaf (mt_depth t) key) = node_no j 0 \<longleftrightarrow> ?P key" for key
    using leaf_idx [OF t, of key] unat_word_node [of "leaf_idx (mt_depth t) key" 0]
      node_bound [OF t, of "leaf_idx (mt_depth t) key" 0] by simp
  have lt: "node_no j 0 < length (mt_nodes t)" using j t by (simp add: valid_node_def tree_ok_def)
  have keys: "diff_key ` set ?sel = {key \<in> fst ` set u. ?P key}"
    unfolding keys_of_Iter [OF wf, symmetric] by (auto simp: sel)
  have dist: "distinct (map diff_key ?sel)"
    using distinct_Iter_keys [OF wf] by (rule distinct_map_filter)
  have "node_at (fold (add_leaf (mt_depth t)) (Update_Iter u) (mt_nodes t)) (j, 0)
      = foldl (\<lambda>h df. Xor h (Xor (old_hash df) (new_hash df))) (node_at (mt_nodes t) (j, 0)) ?sel"
    using fold_add_leaf_nth [OF lt] by (simp add: node_at_def)
  also have "\<dots> = foldl (\<lambda>h df. Xor h (?g (diff_key df))) (node_at (mt_nodes t) (j, 0)) ?sel"
    using diff_hashes [OF u] by (intro foldl_cong) auto
  also have "\<dots> = Xor (node_at (mt_nodes t) (j, 0)) (hxs.F ?g {key \<in> fst ` set u. ?P key})"
    using foldl_Xor_image [OF dist, of ?g] keys by simp
  also have "hxs.F ?g {key \<in> fst ` set u. ?P key} = hxs.F ?g ?B"
  proof (intro hxs.mono_neutral_left ballI)
    fix key assume "key \<in> ?B - {key \<in> fst ` set u. ?P key}"
    then have "map_of u key = None" by (auto simp: map_of_eq_None_iff)
    then show "?g key = zero_hash" by (simp add: obj_hash_def apply_update_def)
  qed (use fin in auto)
  also have "node_at (mt_nodes t) (j, 0) = hxs.F (obj_hash D) ?B"
  proof -
    have "hxs.F (obj_hash D) {key \<in> dom D. ?P key} = hxs.F (obj_hash D) ?B"
      using fin by (rule obj_hash_superset) auto
    with rep j show ?thesis by (simp only: represents_def)
  qed
  also have "Xor (hxs.F (obj_hash D) ?B) (hxs.F ?g ?B) = hxs.F (obj_hash ?D) ?B"
    by (simp only: hxs.distrib hx.xor_left_cancel)
  also have "\<dots> = hxs.F (obj_hash ?D) {key \<in> dom ?D. ?P key}"
    using fin dom_apply_update [of D u] by (intro obj_hash_superset [symmetric]) auto
  finally show ?thesis .
qed

lemma represents_Update:
  assumes "represents t D" "update_of D u"
    and "repaired C (t\<lparr>mt_nodes := fold (add_leaf (mt_depth t)) (Update_Iter u) (mt_nodes t)\<rparr>) t'"
  shows "represents t' (apply_update D u)"
  using leaf_after_update [OF assms(1,2)] assms(1) finite_dom_apply [of D u] repaired_simps [OF assms(3)]
  by (simp add: represents_def)

lemma leaf_in_range:
  assumes "tree_ok t"
  shows "leaf_idx (mt_depth t) key \<in> {..< 2 ^ (td t - 1)}"
  using leaf_idx [OF assms, of key] by (simp add: valid_node_iff)

lemma node_covers_keys:
  assumes "represents t D" "valid_node (td t) (k, l)"
  shows "node_at (mt_nodes t) (k, l)
    = hxs.F (obj_hash D) {key \<in> dom D. leaf_idx (mt_depth t) key \<in> {k * 2 ^ l ..< (k + 1) * 2 ^ l}}"
proof -
  let ?I = "{k * 2 ^ l ..< (k + 1) * 2 ^ l}" and ?g = "leaf_idx (mt_depth t)"
  let ?S = "{key \<in> dom D. ?g key \<in> ?I}"
  have m: "merkle_ok t" and fin: "finite ?S" using assms(1) by (auto simp: represents_def)
  have v: "valid_node (td t) (j, 0)" if "j \<in> ?I" for j
  proof -
    have "j < (k + 1) * 2 ^ l" using that by simp
    also have "\<dots> \<le> 2 ^ (td t - 1 - l) * 2 ^ l"
      using assms(2) by (intro mult_right_mono) (auto simp: valid_node_iff)
    also have "\<dots> = 2 ^ (td t - 1)" using assms(2) by (simp add: valid_node_iff flip: power_add)
    finally show ?thesis using assms(2) by (simp add: valid_node_iff)
  qed
  have "node_at (mt_nodes t) (k, l) = hxs.F (\<lambda>j. node_at (mt_nodes t) (j, 0)) ?I"
    using node_sum [OF m assms(2)] .
  also have "\<dots> = hxs.F (\<lambda>j. hxs.F (obj_hash D) {key \<in> ?S. ?g key = j}) ?I"
  proof (intro hxs.cong refl)
    fix j assume j: "j \<in> ?I"
    then have "{key \<in> ?S. ?g key = j} = {key \<in> dom D. ?g key = j}" by auto
    with assms(1) v [OF j] show "node_at (mt_nodes t) (j, 0) = hxs.F (obj_hash D) {key \<in> ?S. ?g key = j}"
      by (simp add: represents_def)
  qed
  also have "\<dots> = hxs.F (obj_hash D) ?S" using fin by (intro hxs.group) auto
  finally show ?thesis .
qed

section \<open>Previews\<close>

definition preview_of :: "hash list \<Rightarrow> u32 set \<Rightarrow> u32 \<rightharpoonup> hash" where
  "preview_of ns S n = (if n \<in> S then Some (ns ! unat n) else None)"

lemma preview_diffs_eq:
  assumes "tree_ok t" "length ns = length (mt_nodes t)" "\<And>n. n \<notin> S \<Longrightarrow> ns ! unat n = mt_nodes t ! unat n"
  shows "preview_diffs t dfs (preview_of ns S, oh) =
    Some (preview_of (fold (add_leaf (mt_depth t)) dfs ns) (S \<union> (key_leaf (mt_depth t) \<circ> diff_key) ` set dfs),
          fold (note_hash (mt_depth t)) dfs oh)"
  using assms(2,3)
proof (induction dfs arbitrary: ns S oh)
  case (Cons df dfs)
  let ?leaf = "key_leaf (mt_depth t) (diff_key df)" and ?ns = "add_leaf (mt_depth t) df ns"
  have b: "unat ?leaf < length ns" using key_leaf_bound [OF assms(1)] Cons.prems(1) by simp
  have get: "(case preview_of ns S ?leaf of None \<Rightarrow> slice_get (mt_nodes t) (unat ?leaf) | Some h \<Rightarrow> Some h)
      = Some (ns ! unat ?leaf)"
    using Cons.prems b by (simp add: preview_of_def slice_get_def)
  have at: "?ns ! unat n = (if n = ?leaf then Xor (Xor (ns ! unat ?leaf) (old_hash df)) (new_hash df) else ns ! unat n)" for n
    using b by (auto simp: add_leaf_def nth_list_update word_unat_eq_iff)
  have put: "(preview_of ns S)(?leaf \<mapsto> Xor (Xor (ns ! unat ?leaf) (old_hash df)) (new_hash df))
      = preview_of ?ns (insert ?leaf S)"
    by (auto simp: preview_of_def at fun_eq_iff)
  have "preview_diffs t (df # dfs) (preview_of ns S, oh)
      = preview_diffs t dfs (preview_of ?ns (insert ?leaf S), note_hash (mt_depth t) df oh)"
    by (simp only: preview_diffs.simps Let_def Key_def NewSiblingSet_of_def OldSiblingSet_def
        key_leaf_def [symmetric] note_hash_def get put Option.bind.bind_lunit)
  also have "\<dots> = Some (preview_of (fold (add_leaf (mt_depth t)) dfs ?ns)
      (insert ?leaf S \<union> (key_leaf (mt_depth t) \<circ> diff_key) ` set dfs), fold (note_hash (mt_depth t)) (df # dfs) oh)"
  proof (subst Cons.IH)
    show "length ?ns = length (mt_nodes t)" using Cons.prems(1) by (simp add: add_leaf_def)
    show "?ns ! unat n = mt_nodes t ! unat n" if "n \<notin> insert ?leaf S" for n
      using that Cons.prems(2) by (simp add: at)
  qed simp
  finally show ?case by simp
qed simp

definition lookup_hash :: "object_hashes \<Rightarrow> u32 \<Rightarrow> string \<Rightarrow> hash option" where
  "lookup_hash oh n key = Option.bind (oh n) (\<lambda>m. m key)"

lemma lookup_put: "lookup_hash (put_object_hash oh n key h) n' key' =
    (if n' = n \<and> key' = key then Some h else lookup_hash oh n' key')"
  by (auto simp: lookup_hash_def put_object_hash_def Let_def)

lemma lookup_noted:
  assumes "distinct (map diff_key dfs)" "df \<in> set dfs"
  shows "lookup_hash (fold (note_hash depth) dfs oh) (key_leaf depth (diff_key df)) (diff_key df) = Some (new_hash df)"
  using assms
proof (induction dfs rule: rev_induct)
  case (snoc x xs)
  then have "df \<noteq> x \<Longrightarrow> df \<in> set xs \<and> diff_key df \<noteq> diff_key x" by (auto simp: image_iff)
  with snoc show ?case by (cases "df = x") (auto simp: note_hash_def lookup_put)
qed simp

end
