(* ===== verification/Merkle_Properties.thy ===== *)
theory Merkle_Properties
  imports Merkle_Database Data_Properties
begin

text \<open>The properties of the Merkle tree, stated over the operations of \<^verbatim>\<open>merkle/merkle.go\<close>.\<close>

section \<open>Examples\<close>

definition ex_tree :: merkle_tree where
  "ex_tree = \<lparr>mt_depth = 2, mt_nodes = replicate 4 zero_hash\<rparr>"

definition ex_update :: update where
  "ex_update = AddDiff (AddDiff NewUpdate ''k1'' None (Some [(0, ex_b1)])) ''k2'' None (Some [(1, ex_b2)])"

lemma node_at_zeros: "valid_node d c \<Longrightarrow> node_at (replicate (2 ^ d) zero_hash) c = zero_hash"
  by (simp add: node_at_def valid_node_def)

lemma NewMerkleTree_represents:
  assumes "MerkleMinDepth \<le> depth" "depth \<le> MerkleMaxDepth"
  shows "\<exists>t. NewMerkleTree depth = Inr t \<and> mt_depth t = depth \<and> represents t Map.empty"
proof -
  have d: "1 \<le> unat depth" "unat depth \<le> 28"
    using assms by (simp_all add: MerkleMinDepth_def MerkleMaxDepth_def word_le_nat_alt)
  let ?t = "\<lparr>mt_depth = depth, mt_nodes = replicate (2 ^ unat depth) zero_hash\<rparr>"
  have "represents ?t Map.empty"
    using d node_at_zeros [of "unat depth"] valid_children
    by (auto simp: represents_def merkle_ok_def tree_ok_def consistent_def)
  with assms show ?thesis by (simp add: NewMerkleTree_def not_less)
qed

lemma ex_tree_represents: "represents ex_tree Map.empty"
  using NewMerkleTree_represents [of 2]
  by (simp add: NewMerkleTree_def MerkleMinDepth_def MerkleMaxDepth_def ex_tree_def)

lemma ex_update_of: "update_of Map.empty ex_update"
  by (simp add: update_of_def wf_update_def ex_update_def AddDiff_def NewUpdate_def)

section \<open>Ranges of nodes\<close>

lemma node_limit: "tree_ok t \<Longrightarrow> unat (NodeLimit t) = 2 ^ td t \<and> NodeLimit t = of_nat (length (mt_nodes t))"
proof -
  assume t: "tree_ok t"
  then have "(2 :: nat) ^ td t \<le> 2 ^ 28" by (intro power_increasing) (auto simp: tree_ok_def)
  then have "(2 :: nat) ^ td t < 2 ^ 32" by (rule le_less_trans) simp
  moreover have "mt_nodes t \<noteq> []" "length (mt_nodes t) = 2 ^ td t" using t by (auto simp: tree_ok_def)
  ultimately show ?thesis unfolding NodeLimit_def by (simp only: unat_of_nat_u32 if_False)
qed

lemma node_coordinates:
  assumes "tree_ok t" "node < NodeLimit t" "node \<noteq> 0"
  shows "\<exists>k l. node = word_node (k, l) \<and> unat node = node_no k l \<and> valid_node (td t) (k, l)"
proof -
  have ltn: "unat node < 2 ^ td t" using assms(2) node_limit [OF assms(1)] unfolding word_less_nat_alt by metis
  obtain k l where kl: "unat node = node_no k l" using nat_is_node [of "unat node"] assms(3) by (auto simp: unat_gt_0)
  moreover have "node = word_node (k, l)" unfolding word_node_def fst_conv snd_conv kl [symmetric] by simp
  ultimately show ?thesis using ltn by (auto simp: valid_node_def)
qed

lemma sub_range:
  assumes "tree_ok t" "valid_node (td t) (k, l)"
  shows "unat (SubRangeMin (word_node (k, l))) = k * 2 ^ Suc l
    \<and> unat (SubRangeMax (word_node (k, l))) = (k + 1) * 2 ^ Suc l"
proof -
  let ?n = "word_node (k, l)"
  have b: "node_no k l < 2 ^ 32" using node_bound [OF assms] .
  note n = unat_word_node [OF b]
  have l: "l < td t" using assms(2) by (simp add: valid_node_iff)
  have off: "go_shl 1 (CountTrailingZeros ?n) = (of_nat (2 ^ l) :: u32)"
    using CountTrailingZeros_node [OF b] node_level_less [OF b] by (simp add: go_shl_level)
  have "node_no k l + 2 ^ l = (k + 1) * 2 ^ Suc l" by (simp add: node_no_def algebra_simps)
  also have "\<dots> \<le> 2 ^ (td t - 1 - l) * 2 ^ Suc l"
    using assms(2) by (intro mult_right_mono) (auto simp: valid_node_iff)
  also have "\<dots> = 2 ^ ((td t - 1 - l) + Suc l)" by (simp only: power_add)
  also have "(td t - 1 - l) + Suc l = td t" using l by simp
  also have "(2 :: nat) ^ td t \<le> 2 ^ 28" using assms(1) by (intro power_increasing) (auto simp: tree_ok_def)
  also have "\<dots> < 2 ^ 32" by simp
  finally have hi: "node_no k l + 2 ^ l < 2 ^ 32" .
  then have o: "unat (of_nat (2 ^ l) :: u32) = 2 ^ l" by (intro unat_of_nat_u32) linarith
  have "of_nat (2 ^ l) \<le> ?n" unfolding word_le_nat_alt o n by (simp add: node_no_def)
  then have "unat (?n - of_nat (2 ^ l)) = node_no k l - 2 ^ l" using n o by (simp only: unat_sub)
  moreover have "unat (?n + of_nat (2 ^ l)) = node_no k l + 2 ^ l"
    using unat_add_lem [of ?n "of_nat (2 ^ l)"] hi unfolding n o by simp
  ultimately show ?thesis
    unfolding SubRangeMin_def SubRangeMax_def off by (simp add: node_no_def algebra_simps)
qed

lemma leaf_in_sub_range:
  assumes "tree_ok t" "valid_node (td t) (k, l)"
  shows "SubRangeMin (word_node (k, l)) \<le> Tree_LeafNode t (bytes_of_string key)
      \<and> Tree_LeafNode t (bytes_of_string key) < SubRangeMax (word_node (k, l))
    \<longleftrightarrow> leaf_idx (mt_depth t) key \<in> {k * 2 ^ l ..< (k + 1) * 2 ^ l}"
proof -
  let ?j = "leaf_idx (mt_depth t) key"
  have "unat (Tree_LeafNode t (bytes_of_string key)) = 2 * ?j + 1"
    using leaf_idx [OF assms(1), of key] unat_word_node [of ?j 0] node_bound [OF assms(1), of ?j 0]
    by (simp add: Tree_LeafNode_def key_leaf_def node_no_def)
  then show ?thesis unfolding word_le_nat_alt word_less_nat_alt using sub_range [OF assms] by auto
qed

lemma NodeHash_node:
  assumes s: "tree_ok s" and c: "valid_node (td s) c"
  shows "NodeHash s (word_node c) = node_at (mt_nodes s) c"
proof -
  have "unat (word_node c) = node_no (fst c) (snd c)"
    using unat_word_node [of "fst c" "snd c"] node_bound [OF s, of "fst c" "snd c"] c by simp
  then show ?thesis using node_limit [OF s] c s
    by (auto simp: NodeHash_def node_at_def valid_node_def word_le_nat_alt tree_ok_def)
qed

lemma unvisited_leaf_unchanged:
  assumes t: "tree_ok t" and v: "valid_node (td t) c"
    and no: "c \<notin> set (leaf_coords (mt_depth t) dfs)"
  shows "node_at (fold (add_leaf (mt_depth t)) dfs (mt_nodes t)) c = node_at (mt_nodes t) c"
  unfolding node_at_def
proof (rule add_leaves_inner [OF t])
  show "node_no (fst c) (snd c) < 2 ^ td t" using v by (simp add: valid_node_def)
  show "node_no (fst c) (snd c) \<notin> (\<lambda>df. unat (key_leaf (mt_depth t) (diff_key df))) ` set dfs"
  proof
    assume "node_no (fst c) (snd c) \<in> (\<lambda>df. unat (key_leaf (mt_depth t) (diff_key df))) ` set dfs"
    then obtain df where df: "df \<in> set dfs" "node_no (fst c) (snd c) = unat (key_leaf (mt_depth t) (diff_key df))"
      by blast
    let ?j = "leaf_idx (mt_depth t) (diff_key df)"
    have "unat (key_leaf (mt_depth t) (diff_key df)) = node_no ?j 0"
      using leaf_idx [OF t, of "diff_key df"] unat_word_node [of ?j 0] node_bound [OF t, of ?j 0] by simp
    with df have "c = (?j, 0)" by (cases c) simp
    with no df(1) show False by (auto simp: leaf_coords_def)
  qed
qed

section \<open>Properties\<close>

text \<open>C4: if the tree of a replica accumulates the objects of its database, then \<open>Update\<close> with the
  differences of a write returns (its work queue never overflows and its walk ends) and leaves
  a tree that accumulates the objects of the new database, all inner nodes included.\<close>

theorem Update_tracks_database:
  assumes "represents t D" "update_of D u"
  shows "\<exists>modifiedNodes objectHashes t'. Tree_Update t u = Some (modifiedNodes, objectHashes, t')
    \<and> represents t' (apply_update D u)"
proof -
  have "merkle_ok t" "length u < 2 ^ 31" using assms by (auto simp: represents_def update_of_def)
  from Tree_Update_returns [OF this] show ?thesis using represents_Update [OF assms] by fastforce
qed

theorem Update_tracks_database_witness:
  "\<exists>modifiedNodes objectHashes t'. Tree_Update ex_tree ex_update = Some (modifiedNodes, objectHashes, t')
    \<and> represents t' (apply_update Map.empty ex_update)"
  using ex_tree_represents ex_update_of by (rule Update_tracks_database)

text \<open>C5: the hash of a node is the XOR of the object hashes of exactly the keys whose leaf lies
  between \<open>SubRangeMin\<close> and \<open>SubRangeMax\<close> of the node; in particular replicas with equal objects
  in a range have equal node hashes, which is what the sync protocol relies on when it
  stops descending.\<close>

theorem node_hash_is_range_hash:
  assumes "represents t D" "node < NodeLimit t" "node \<noteq> 0"
  shows "NodeHash t node =
    hxs.F (obj_hash D) {key \<in> dom D. SubRangeMin node \<le> Tree_LeafNode t (bytes_of_string key)
                                   \<and> Tree_LeafNode t (bytes_of_string key) < SubRangeMax node}"
proof -
  have t: "tree_ok t" using assms(1) by (simp add: represents_def)
  obtain k l where kl: "node = word_node (k, l)" "unat node = node_no k l" "valid_node (td t) (k, l)"
    using node_coordinates [OF t assms(2,3)] by blast
  have "NodeHash t node = node_at (mt_nodes t) (k, l)"
    using assms(2) node_limit [OF t] kl(2) by (simp add: NodeHash_def node_at_def not_le)
  also have "\<dots> = hxs.F (obj_hash D) {key \<in> dom D. leaf_idx (mt_depth t) key \<in> {k * 2 ^ l ..< (k + 1) * 2 ^ l}}"
    using assms(1) kl(3) by (rule node_covers_keys)
  finally show ?thesis unfolding kl(1) leaf_in_sub_range [OF t kl(3)] .
qed

theorem node_hash_is_range_hash_witness:
  "NodeHash ex_tree 3 =
    hxs.F (obj_hash Map.empty) {key \<in> dom (Map.empty :: database). SubRangeMin 3 \<le> Tree_LeafNode ex_tree (bytes_of_string key)
                                   \<and> Tree_LeafNode ex_tree (bytes_of_string key) < SubRangeMax 3}"
  by (rule node_hash_is_range_hash [OF ex_tree_represents]) (simp_all add: ex_tree_def NodeLimit_def)

lemma UndoUpdate_restores:
  assumes "merkle_ok t" "length u < 2 ^ 31"
  shows "\<exists>modifiedNodes objectHashes t'. Tree_Update t u = Some (modifiedNodes, objectHashes, t')
    \<and> UndoUpdate t' u = Some t"
proof -
  let ?add = "fold (add_leaf (mt_depth t)) (Update_Iter u)"
  obtain m oh t1 where t1: "Tree_Update t u = Some (m, oh, t1)"
      "repaired (set (leaf_coords (mt_depth t) (Update_Iter u))) (t\<lparr>mt_nodes := ?add (mt_nodes t)\<rparr>) t1"
    using Tree_Update_returns [OF assms] by blast
  have ok1: "merkle_ok t1" and d1: "mt_depth t1 = mt_depth t" using repaired_simps [OF t1(2)] by simp_all
  obtain t2 where t2: "UndoUpdate t1 u = Some t2"
      "repaired (set (leaf_coords (mt_depth t1) (Update_Iter u))) (t1\<lparr>mt_nodes := ?add (mt_nodes t1)\<rparr>) t2"
    using Tree_Update_returns [OF ok1 assms(2)] d1 by auto
  have ok2: "merkle_ok t2" and d2: "mt_depth t2 = mt_depth t" using repaired_simps [OF t2(2)] d1 by simp_all
  have at0: "?add (mt_nodes s) ! 0 = mt_nodes s ! 0" if "tree_ok s" "mt_depth s = mt_depth t" for s
    using add_leaves_0 [OF that(1)] that(2) by simp
  have "mt_nodes t2 = mt_nodes t"
  proof (rule leaves_determine_tree [OF ok2 assms(1) d2])
    show "mt_nodes t2 ! 0 = mt_nodes t ! 0"
      using t1(2) t2(2) at0 [of t] at0 [of t1] assms(1) ok1 d1 by (simp add: repaired_def)
    fix j assume "valid_node (td t2) (j, 0)"
    then have lt: "node_no j 0 < length (mt_nodes t)" "node_no j 0 < length (mt_nodes t1)"
      using assms(1) ok1 d1 d2 by (auto simp: valid_node_def merkle_ok_def tree_ok_def)
    have len: "length (mt_nodes t1) = length (mt_nodes t)"
      using assms(1) ok1 d1 by (simp add: merkle_ok_def tree_ok_def)
    let ?sel = "filter (\<lambda>df. unat (key_leaf (mt_depth t) (diff_key df)) = node_no j 0) (Update_Iter u)"
    let ?F = "\<lambda>a. foldl (\<lambda>h df. Xor h (Xor (old_hash df) (new_hash df))) a ?sel"
    have "node_at (mt_nodes t2) (j, 0) = ?F (?F (node_at (mt_nodes t) (j, 0)))"
      using repaired_simps(3) [OF t1(2), of j] repaired_simps(3) [OF t2(2), of j]
        fold_add_leaf_nth [OF lt(1)] fold_add_leaf_nth [OF lt(2)] by (simp add: node_at_def)
    also have "\<dots> = node_at (mt_nodes t) (j, 0)"
      by (subst (1 2) hx.foldl_xor_start) simp
    finally show "node_at (mt_nodes t2) (j, 0) = node_at (mt_nodes t) (j, 0)" .
  qed
  then have "t2 = t" using d2 by simp
  with t1(1) t2(1) show ?thesis by blast
qed

text \<open>C6: \<open>UndoUpdate\<close> after \<open>Update\<close> with the same differences restores every node of the tree, so a
  failed write leaves the in-memory tree as it was.\<close>

theorem UndoUpdate_inverts_Update:
  assumes "merkle_ok t" "length u < 2 ^ 31"
  shows "\<exists>modifiedNodes objectHashes t'. Tree_Update t u = Some (modifiedNodes, objectHashes, t')
    \<and> UndoUpdate t' u = Some t"
  using assms by (rule UndoUpdate_restores)

theorem UndoUpdate_inverts_Update_witness:
  "\<exists>modifiedNodes objectHashes t'. Tree_Update ex_tree ex_update = Some (modifiedNodes, objectHashes, t')
    \<and> UndoUpdate t' ex_update = Some ex_tree"
  using ex_tree_represents ex_update_of
  by (intro UndoUpdate_inverts_Update) (auto simp: represents_def update_of_def)



lemma UpdateLeafHash_spec:
  assumes "merkle_ok t"
  shows "\<exists>t'. UpdateLeafHash t n h = Some t' \<and> merkle_ok t' \<and> mt_depth t' = mt_depth t
    \<and> (\<not> IsLeaf t n \<longrightarrow> t' = t)
    \<and> (\<forall>m. IsLeaf t m \<longrightarrow> NodeHash t' m = (if IsLeaf t n \<and> m = n then h else NodeHash t m))"
proof (cases "IsLeaf t n")
  case False
  with assms show ?thesis by (simp add: UpdateLeafHash_def)
next
  case True
  have t: "tree_ok t" using assms by simp
  have coord: "\<exists>k. m = word_node (k, 0) \<and> valid_node (td t) (k, 0)" if "IsLeaf t m" for m
  proof -
    have "go_shl 1 (ucast (mt_depth t)) = (of_nat (2 ^ td t) :: u32)"
      using t by (simp add: go_shl_def tree_ok_def push_bit_eq_mult)
    moreover have "unat (of_nat (2 ^ td t) :: u32) = 2 ^ td t"
      using node_limit [OF t] t unfolding tree_ok_def by metis
    ultimately have "unat m < 2 ^ td t" using that by (simp add: IsLeaf_def Depth_def word_less_nat_alt)
    moreover have "m mod 2 = 1" using that by (simp add: IsLeaf_def and_one_eq)
    then have "unat (m mod 2) = 1" by simp
    then have "odd (unat m)" unfolding unat_mod by (simp add: odd_iff_mod_2_eq_one)
    ultimately show ?thesis by (intro odd_is_leaf)
  qed
  obtain k where k: "n = word_node (k, 0)" "valid_node (td t) (k, 0)" using coord [OF True] by blast
  let ?ns = "(mt_nodes t)[node_no k 0 := h]" and ?t = "t\<lparr>mt_nodes := (mt_nodes t)[node_no k 0 := h]\<rparr>"
  have len: "length (mt_nodes t) = 2 ^ td t" and t': "tree_ok ?t" using t by (auto simp: tree_ok_def)
  note at = node_at_update [OF k(2) len, of h, simplified]
  have cov: "covered_by (td t) ?ns {(k, 0)}"
    unfolding covered_by_def
  proof (intro allI impI disjCI)
    fix a l assume v: "valid_node (td t) (a, Suc l)" and no: "\<not> (\<exists>c \<in> {(k, 0)}. ancestor (a, Suc l) c)"
    then have "(2 * a, l) \<noteq> (k, 0) \<and> (2 * a + 1, l) \<noteq> (k, 0)" by (cases l) (auto simp: ancestor_def)
    then have "consistent ?ns a l \<longleftrightarrow> consistent (mt_nodes t) a l" by (auto simp: consistent_def at)
    with assms v show "consistent ?ns a l" by (simp add: merkle_ok_def)
  qed
  obtain t2 where t2: "update_leaf_loop ?t (word_node (k, 0)) = Some t2" "repaired {(k, 0)} ?t t2"
    using update_leaf_loop_returns [OF t', of k 0] k(2) cov by auto
  have "NodeHash t2 m = (if m = n then h else NodeHash t m)" if m: "IsLeaf t m" for m
  proof -
    obtain j where j: "m = word_node (j, 0)" "valid_node (td t) (j, 0)" using coord [OF m] by blast
    have "m = n \<longleftrightarrow> j = k" using word_node_eq [OF j(2) k(2)] j k t by (simp add: tree_ok_def)
    then show ?thesis
      using NodeHash_node [OF t j(2)] NodeHash_node [of t2 "(j, 0)"] repaired_simps [OF t2(2)] j at by simp
  qed
  then show ?thesis
    using True t2(1) SetNodeHash_node [OF t k(2)] k(1) repaired_simps(1,2) [OF t2(2)]
    by (simp add: UpdateLeafHash_def)
qed

text \<open>C8: \<open>UpdateLeafHash\<close> on a leaf returns, stores the hash in that leaf, changes no other leaf and
  repairs all inner nodes; on any other node number it does nothing.\<close>

theorem UpdateLeafHash_correct:
  assumes "merkle_ok t"
  shows "\<exists>t'. UpdateLeafHash t n h = Some t' \<and> merkle_ok t' \<and> mt_depth t' = mt_depth t
    \<and> (\<not> IsLeaf t n \<longrightarrow> t' = t)
    \<and> (\<forall>m. IsLeaf t m \<longrightarrow> NodeHash t' m = (if IsLeaf t n \<and> m = n then h else NodeHash t m))"
  using assms by (rule UpdateLeafHash_spec)

theorem UpdateLeafHash_correct_witness:
  "\<exists>t'. UpdateLeafHash ex_tree 3 \<lparr>hash0 = 1, hash1 = 2\<rparr> = Some t' \<and> merkle_ok t'
    \<and> NodeHash t' 3 = \<lparr>hash0 = 1, hash1 = 2\<rparr>"
proof -
  have "merkle_ok ex_tree" using ex_tree_represents by (simp add: represents_def)
  moreover have "IsLeaf ex_tree 3" by code_simp
  ultimately show ?thesis
    using UpdateLeafHash_correct [of ex_tree 3 "\<lparr>hash0 = 1, hash1 = 2\<rparr>"] by auto
qed

text \<open>C9: a new tree is empty and consistent exactly for the depths from \<open>MerkleMinDepth\<close> to
  \<open>MerkleMaxDepth\<close>; other depths are refused.\<close>

theorem NewMerkleTree_correct:
  "(MerkleMinDepth \<le> depth \<and> depth \<le> MerkleMaxDepth \<longrightarrow>
      (\<exists>t. NewMerkleTree depth = Inr t \<and> mt_depth t = depth \<and> represents t Map.empty))
   \<and> (depth < MerkleMinDepth \<or> MerkleMaxDepth < depth \<longrightarrow> NewMerkleTree depth = Inl EDepth)"
  using NewMerkleTree_represents by (auto simp: NewMerkleTree_def)

theorem NewMerkleTree_correct_witness:
  "(\<exists>t. NewMerkleTree 19 = Inr t \<and> mt_depth t = 19 \<and> represents t Map.empty) \<and> NewMerkleTree 29 = Inl EDepth"
proof
  show "\<exists>t. NewMerkleTree 19 = Inr t \<and> mt_depth t = 19 \<and> represents t Map.empty"
    using NewMerkleTree_correct [of 19] by (simp add: MerkleMinDepth_def MerkleMaxDepth_def)
  show "NewMerkleTree 29 = Inl EDepth"
    using NewMerkleTree_correct [of 29] by (simp add: MerkleMinDepth_def MerkleMaxDepth_def)
qed

end
