(* ===== verification/Cluster_State.thy ===== *)
theory Cluster_State
  imports Prelude
begin

text \<open>
  \<^verbatim>\<open>cluster/state.go\<close>: the replicated cluster state. Go maps are association lists in iteration order,
  sets (\<^verbatim>\<open>map[uint64]bool\<close>) lists of their members; the maps the code tests against nil are
  options. Dereferencing the configuration of an absent node and indexing out of range panic in Go; such
  operations return \<open>None\<close>. The value of an operation that can fail carries the error next to the state.

  The three relations the code keeps twice (token owner, replica holder, replica owner; once
  per token or replica and once per node) are the state invariant \<open>state_ok\<close>: both copies agree.
  Under it no operation panics.
\<close>

section \<open>Data\<close>

datatype cluster_error =
    ENoSuchPartition | ENoSuchToken | ENoSuchReplica
  | ENoSuchCommand | ENoSuchNode | ENoSuchSite | ENoSuchRelay
  | ENodeDoesNotOwnReplica | ECouldNotParseCommand | EReplicaNumberInvalid
  | EPreconditionFailed | ECancelConfChange

record partition_replica =
  Partition :: u64
  Replica :: u64
  Holder :: u64
  Owner :: u64

record peer_address =
  NodeID :: u64
  Host :: string
  Port :: int

type_synonym u64_set = "u64 list"
type_synonym replica_map = "(u64 \<times> u64_set) list"

record node_config =
  Address :: peer_address
  Capacity :: u64
  nc_Tokens :: u64_set
  OwnedPartitionReplicas :: replica_map
  PartitionReplicas :: replica_map

record cluster_settings =
  ReplicationFactor :: u64
  cs_Partitions :: u64

record cluster_state =
  RemovedNodes :: "u64_set option"
  Nodes :: "(u64 \<times> node_config) list"
  Tokens :: "u64 list"
  Partitions :: "partition_replica list list"
  ClusterSettings :: cluster_settings
  Sites :: "string list option"
  Relays :: "(string \<times> string) list option"

section \<open>Node configurations\<close>

definition set_add :: "'a \<Rightarrow> 'a list \<Rightarrow> 'a list" where
  "set_add x xs = (if x \<in> set xs then xs else xs @ [x])"

definition set_del :: "'a \<Rightarrow> 'a list \<Rightarrow> 'a list" where
  "set_del x xs = filter (\<lambda>y. y \<noteq> x) xs"

lemma set_set_add [simp]: "set (set_add x xs) = insert x (set xs)"
  by (auto simp: set_add_def)

lemma set_set_del [simp]: "set (set_del x xs) = set xs - {x}"
  by (auto simp: set_del_def)

definition rm_get :: "replica_map \<Rightarrow> u64 \<Rightarrow> u64_set" where
  "rm_get m p = (case map_of m p of None \<Rightarrow> [] | Some rs \<Rightarrow> rs)"

definition takePartitionReplica :: "u64 \<Rightarrow> u64 \<Rightarrow> node_config \<Rightarrow> node_config" where
  "takePartitionReplica part replica nc =
     nc\<lparr>PartitionReplicas :=
          AList.update part (set_add replica (rm_get (PartitionReplicas nc) part)) (PartitionReplicas nc)\<rparr>"

definition relinquishPartitionReplica :: "u64 \<Rightarrow> u64 \<Rightarrow> node_config \<Rightarrow> node_config" where
  "relinquishPartitionReplica part replica nc =
     (case map_of (PartitionReplicas nc) part of
        None \<Rightarrow> nc
      | Some replicas \<Rightarrow>
          (let replicas = set_del replica replicas in
           if replicas = [] then nc\<lparr>PartitionReplicas := AList.delete part (PartitionReplicas nc)\<rparr>
           else nc\<lparr>PartitionReplicas := AList.update part replicas (PartitionReplicas nc)\<rparr>))"

definition takePartitionReplicaOwnership :: "u64 \<Rightarrow> u64 \<Rightarrow> node_config \<Rightarrow> node_config" where
  "takePartitionReplicaOwnership part replica nc =
     nc\<lparr>OwnedPartitionReplicas :=
          AList.update part (set_add replica (rm_get (OwnedPartitionReplicas nc) part)) (OwnedPartitionReplicas nc)\<rparr>"

definition relinquishPartitionReplicaOwnership :: "u64 \<Rightarrow> u64 \<Rightarrow> node_config \<Rightarrow> node_config" where
  "relinquishPartitionReplicaOwnership part replica nc =
     (case map_of (OwnedPartitionReplicas nc) part of
        None \<Rightarrow> nc
      | Some replicas \<Rightarrow>
          (let replicas = set_del replica replicas in
           if replicas = [] then nc\<lparr>OwnedPartitionReplicas := AList.delete part (OwnedPartitionReplicas nc)\<rparr>
           else nc\<lparr>OwnedPartitionReplicas := AList.update part replicas (OwnedPartitionReplicas nc)\<rparr>))"

definition relinquishToken :: "u64 \<Rightarrow> node_config \<Rightarrow> node_config" where
  "relinquishToken token nc = nc\<lparr>nc_Tokens := set_del token (nc_Tokens nc)\<rparr>"

definition takeToken :: "u64 \<Rightarrow> node_config \<Rightarrow> node_config" where
  "takeToken token nc = nc\<lparr>nc_Tokens := set_add token (nc_Tokens nc)\<rparr>"

section \<open>Sites and relays\<close>

definition SiteExists :: "cluster_state \<Rightarrow> string \<Rightarrow> bool" where
  "SiteExists cs siteID = (case Sites cs of None \<Rightarrow> False | Some ss \<Rightarrow> siteID \<in> set ss)"

definition AddSite :: "cluster_state \<Rightarrow> string \<Rightarrow> cluster_state" where
  "AddSite cs siteID =
     (let ss = (case Sites cs of None \<Rightarrow> [] | Some ss \<Rightarrow> ss) in cs\<lparr>Sites := Some (set_add siteID ss)\<rparr>)"

definition RemoveSite :: "cluster_state \<Rightarrow> string \<Rightarrow> cluster_state" where
  "RemoveSite cs siteID =
     (case Sites cs of
        None \<Rightarrow> cs
      | Some ss \<Rightarrow>
          cs\<lparr>Relays := map_option (map (\<lambda>(relayID, relaysSiteID).
                 if siteID = relaysSiteID then (relayID, '''') else (relayID, relaysSiteID))) (Relays cs),
             Sites := Some (set_del siteID ss)\<rparr>)"

definition AddRelay :: "cluster_state \<Rightarrow> string \<Rightarrow> cluster_state" where
  "AddRelay cs relayID =
     (let rs = (case Relays cs of None \<Rightarrow> [] | Some rs \<Rightarrow> rs)
      in cs\<lparr>Relays := Some (AList.update relayID '''' rs)\<rparr>)"

definition RemoveRelay :: "cluster_state \<Rightarrow> string \<Rightarrow> cluster_state" where
  "RemoveRelay cs relayID =
     (case Relays cs of None \<Rightarrow> cs | Some rs \<Rightarrow> cs\<lparr>Relays := Some (AList.delete relayID rs)\<rparr>)"

definition relay_site :: "cluster_state \<Rightarrow> string \<Rightarrow> string option" where
  "relay_site cs relayID = Option.bind (Relays cs) (\<lambda>rs. map_of rs relayID)"

definition MoveRelay :: "cluster_state \<Rightarrow> string \<Rightarrow> string \<Rightarrow> cluster_state" where
  "MoveRelay cs relayID siteID =
     (case (Relays cs, Sites cs) of
        (Some rs, Some ss) \<Rightarrow>
          if map_of rs relayID = None then cs
          else if siteID \<notin> set ss \<and> siteID \<noteq> '''' then cs
          else cs\<lparr>Relays := Some (AList.update relayID siteID rs)\<rparr>
      | _ \<Rightarrow> cs)"

section \<open>Membership and assignment\<close>

definition AddNode :: "cluster_state \<Rightarrow> node_config \<Rightarrow> cluster_state" where
  "AddNode cs nodeConfig =
     (if NodeID (Address nodeConfig) = 0 then cs
      else if map_of (Nodes cs) (NodeID (Address nodeConfig)) \<noteq> None then cs
      else cs\<lparr>Nodes := AList.update (NodeID (Address nodeConfig)) nodeConfig (Nodes cs)\<rparr>)"

definition modify_node :: "u64 \<Rightarrow> (node_config \<Rightarrow> node_config) \<Rightarrow> cluster_state \<Rightarrow> cluster_state option" where
  "modify_node node f cs =
     (case map_of (Nodes cs) node of
        None \<Rightarrow> None
      | Some nc \<Rightarrow> Some (cs\<lparr>Nodes := AList.update node (f nc) (Nodes cs)\<rparr>))"

definition modify_replica ::
  "u64 \<Rightarrow> u64 \<Rightarrow> (partition_replica \<Rightarrow> partition_replica) \<Rightarrow> cluster_state \<Rightarrow> cluster_state option" where
  "modify_replica part replica f cs =
     (let p = unat part; r = unat replica in
      if p < length (Partitions cs) \<and> r < length (Partitions cs ! p)
      then Some (cs\<lparr>Partitions := (Partitions cs)[p := (Partitions cs ! p)[r := f (Partitions cs ! p ! r)]]\<rparr>)
      else None)"

definition set_token :: "u64 \<Rightarrow> u64 \<Rightarrow> cluster_state \<Rightarrow> cluster_state option" where
  "set_token token node cs =
     (if unat token < length (Tokens cs) then Some (cs\<lparr>Tokens := (Tokens cs)[unat token := node]\<rparr>) else None)"

definition map_pairs :: "replica_map \<Rightarrow> (u64 \<times> u64) list" where
  "map_pairs m = concat (map (\<lambda>(p, rs). map (\<lambda>r. (p, r)) rs) m)"

fun drop_held :: "u64 \<Rightarrow> (u64 \<times> u64) list \<Rightarrow> cluster_state \<Rightarrow> cluster_state option" where
  "drop_held node [] cs = Some cs"
| "drop_held node ((p, r) # rest) cs =
     Option.bind (modify_node node (relinquishPartitionReplica p r) cs) (\<lambda>cs.
     Option.bind (modify_replica p r (\<lambda>x. x\<lparr>Holder := 0\<rparr>) cs) (\<lambda>cs. drop_held node rest cs))"

fun drop_owned :: "u64 \<Rightarrow> (u64 \<times> u64) list \<Rightarrow> cluster_state \<Rightarrow> cluster_state option" where
  "drop_owned node [] cs = Some cs"
| "drop_owned node ((p, r) # rest) cs =
     Option.bind (modify_node node (relinquishPartitionReplicaOwnership p r) cs) (\<lambda>cs.
     Option.bind (modify_replica p r (\<lambda>x. x\<lparr>Owner := 0\<rparr>) cs) (\<lambda>cs. drop_owned node rest cs))"

fun drop_tokens :: "u64 \<Rightarrow> u64 list \<Rightarrow> cluster_state \<Rightarrow> cluster_state option" where
  "drop_tokens node [] cs = Some cs"
| "drop_tokens node (token # rest) cs =
     Option.bind (modify_node node (relinquishToken token) cs) (\<lambda>cs.
     Option.bind (set_token token 0 cs) (\<lambda>cs. drop_tokens node rest cs))"

definition RemoveNode :: "cluster_state \<Rightarrow> u64 \<Rightarrow> cluster_state option" where
  "RemoveNode cs node =
     (case map_of (Nodes cs) node of
        None \<Rightarrow> Some cs
      | Some nc \<Rightarrow>
          Option.bind (drop_held node (map_pairs (PartitionReplicas nc)) cs) (\<lambda>cs.
          Option.bind (drop_owned node (map_pairs (OwnedPartitionReplicas nc)) cs) (\<lambda>cs.
          Option.bind (drop_tokens node (nc_Tokens nc) cs) (\<lambda>cs.
            let cs = cs\<lparr>Nodes := AList.delete node (Nodes cs)\<rparr>;
                removed = (case RemovedNodes cs of None \<Rightarrow> [] | Some rn \<Rightarrow> rn)
            in Some (cs\<lparr>RemovedNodes := Some (set_add node removed)\<rparr>)))))"

definition AssignToken ::
  "cluster_state \<Rightarrow> u64 \<Rightarrow> u64 \<Rightarrow> (cluster_error option \<times> cluster_state) option" where
  "AssignToken cs node token =
     (if of_nat (length (Tokens cs)) \<le> token then Some (Some ENoSuchToken, cs)
      else if map_of (Nodes cs) node = None \<and> node \<noteq> 0 then Some (Some ENoSuchNode, cs)
      else
        (let currentOwner = Tokens cs ! unat token in
         Option.bind (if currentOwner \<noteq> 0 then modify_node currentOwner (relinquishToken token) cs else Some cs) (\<lambda>cs.
         Option.bind (set_token token node cs) (\<lambda>cs.
         Option.bind (if node \<noteq> 0 then modify_node node (takeToken token) cs else Some cs) (\<lambda>cs.
           Some (None, cs))))))"

definition AssignPartitionReplicaOwnership ::
  "cluster_state \<Rightarrow> u64 \<Rightarrow> u64 \<Rightarrow> u64 \<Rightarrow> (cluster_error option \<times> cluster_state) option" where
  "AssignPartitionReplicaOwnership cs part replica node =
     (if of_nat (length (Partitions cs)) \<le> part then Some (Some ENoSuchPartition, cs)
      else
        (let replicas = Partitions cs ! unat part in
         if map_of (Nodes cs) node = None then Some (Some ENoSuchNode, cs)
         else if of_nat (length replicas) \<le> replica then Some (Some ENoSuchReplica, cs)
         else
           (let currentOwner = Owner (replicas ! unat replica) in
            Option.bind (if currentOwner \<noteq> 0
                  then modify_node currentOwner (relinquishPartitionReplicaOwnership part replica) cs
                  else Some cs) (\<lambda>cs.
            Option.bind (modify_replica part replica (\<lambda>x. x\<lparr>Owner := node\<rparr>) cs) (\<lambda>cs.
            Option.bind (modify_node node (takePartitionReplicaOwnership part replica) cs) (\<lambda>cs.
              Some (None, cs)))))))"

definition AssignPartitionReplica ::
  "cluster_state \<Rightarrow> u64 \<Rightarrow> u64 \<Rightarrow> u64 \<Rightarrow> (cluster_error option \<times> cluster_state) option" where
  "AssignPartitionReplica cs part replica node =
     (if of_nat (length (Partitions cs)) \<le> part then Some (Some ENoSuchPartition, cs)
      else
        (let replicas = Partitions cs ! unat part in
         if map_of (Nodes cs) node = None then Some (Some ENoSuchNode, cs)
         else if of_nat (length replicas) \<le> replica then Some (Some ENoSuchReplica, cs)
         else
           (let currentHolder = Holder (replicas ! unat replica) in
            Option.bind (if currentHolder \<noteq> 0
                  then modify_node currentHolder (relinquishPartitionReplica part replica) cs
                  else Some cs) (\<lambda>cs.
            Option.bind (modify_replica part replica (\<lambda>x. x\<lparr>Holder := node\<rparr>) cs) (\<lambda>cs.
            Option.bind (modify_node node (takePartitionReplica part replica) cs) (\<lambda>cs.
              Some (None, cs)))))))"

definition AreInitialized :: "cluster_settings \<Rightarrow> bool" where
  "AreInitialized st \<longleftrightarrow> ReplicationFactor st \<noteq> 0 \<and> cs_Partitions st \<noteq> 0"

definition State_Initialize :: "cluster_state \<Rightarrow> cluster_state" where
  "State_Initialize cs =
     (if \<not> AreInitialized (ClusterSettings cs) then cs
      else
        (let ps = unat (cs_Partitions (ClusterSettings cs)); rf = unat (ReplicationFactor (ClusterSettings cs)) in
         cs\<lparr>Tokens := replicate ps 0,
            Partitions := map (\<lambda>p. map (\<lambda>r.
                \<lparr>Partition = of_nat p, Replica = of_nat r, Holder = 0, Owner = 0\<rparr>) [0..<rf]) [0..<ps]\<rparr>))"

definition NodeConfigList_Less :: "node_config \<Rightarrow> node_config \<Rightarrow> bool" where
  "NodeConfigList_Less a b \<longleftrightarrow> NodeID (Address a) < NodeID (Address b)"

end
