(* ===== verification/Delta.thy ===== *)
theory Delta
  imports Cluster_State
begin

text \<open>
  \<^verbatim>\<open>cluster/delta.go\<close>: the changes a cluster command makes to what the local node sees. The Go struct
  holds a type tag and an interface value that always belong together; here they are one
  datatype and the tag is a function of it. \<open>Delta_Less\<close> is the order \<^verbatim>\<open>sort\<close> uses on them.
\<close>

datatype cluster_delta =
    NodeAdd u64 node_config
  | NodeRemove u64
  | NodeLoseToken u64 u64
  | NodeGainToken u64 u64
  | NodeGainPartitionReplicaOwnership u64 u64 u64
  | NodeLosePartitionReplicaOwnership u64 u64 u64
  | NodeLosePartitionReplica u64 u64 u64
  | NodeGainPartitionReplica u64 u64 u64
  | SiteAdded string
  | SiteRemoved string
  | RelayAdded string
  | RelayRemoved string
  | RelayMoved string string

fun delta_type :: "cluster_delta \<Rightarrow> nat" where
  "delta_type (NodeAdd n c) = 0"
| "delta_type (NodeRemove n) = 1"
| "delta_type (NodeLoseToken n t) = 2"
| "delta_type (NodeGainToken n t) = 3"
| "delta_type (NodeGainPartitionReplicaOwnership n p r) = 4"
| "delta_type (NodeLosePartitionReplicaOwnership n p r) = 5"
| "delta_type (NodeLosePartitionReplica n p r) = 6"
| "delta_type (NodeGainPartitionReplica n p r) = 7"
| "delta_type (SiteAdded s) = 8"
| "delta_type (SiteRemoved s) = 9"
| "delta_type (RelayAdded r) = 10"
| "delta_type (RelayRemoved r) = 11"
| "delta_type (RelayMoved r s) = 12"

fun less_pair :: "u64 \<times> u64 \<Rightarrow> u64 \<times> u64 \<Rightarrow> bool" where
  "less_pair (n, t) (n', t') = (if n \<noteq> n' then n < n' else t < t')"

fun less_triple :: "u64 \<times> u64 \<times> u64 \<Rightarrow> u64 \<times> u64 \<times> u64 \<Rightarrow> bool" where
  "less_triple (n, p, r) (n', p', r') = (if n \<noteq> n' then n < n' else if p \<noteq> p' then p < p' else r < r')"

definition Delta_Less :: "cluster_delta \<Rightarrow> cluster_delta \<Rightarrow> bool" where
  "Delta_Less d e =
     (if delta_type d \<noteq> delta_type e then delta_type d < delta_type e
      else
        (case d of
           NodeAdd n c \<Rightarrow> (case e of NodeAdd n' c' \<Rightarrow> n < n' | _ \<Rightarrow> False)
         | NodeRemove n \<Rightarrow> (case e of NodeRemove n' \<Rightarrow> n < n' | _ \<Rightarrow> False)
         | NodeLoseToken n t \<Rightarrow> (case e of NodeLoseToken n' t' \<Rightarrow> less_pair (n, t) (n', t') | _ \<Rightarrow> False)
         | NodeGainToken n t \<Rightarrow> (case e of NodeGainToken n' t' \<Rightarrow> less_pair (n, t) (n', t') | _ \<Rightarrow> False)
         | NodeGainPartitionReplicaOwnership n p r \<Rightarrow>
             (case e of NodeGainPartitionReplicaOwnership n' p' r' \<Rightarrow> less_triple (n, p, r) (n', p', r') | _ \<Rightarrow> False)
         | NodeLosePartitionReplicaOwnership n p r \<Rightarrow>
             (case e of NodeLosePartitionReplicaOwnership n' p' r' \<Rightarrow> less_triple (n, p, r) (n', p', r') | _ \<Rightarrow> False)
         | NodeLosePartitionReplica n p r \<Rightarrow>
             (case e of NodeLosePartitionReplica n' p' r' \<Rightarrow> less_triple (n, p, r) (n', p', r') | _ \<Rightarrow> False)
         | NodeGainPartitionReplica n p r \<Rightarrow>
             (case e of NodeGainPartitionReplica n' p' r' \<Rightarrow> less_triple (n, p, r) (n', p', r') | _ \<Rightarrow> False)
         | SiteAdded s \<Rightarrow> (case e of SiteAdded s' \<Rightarrow> s < s' | _ \<Rightarrow> False)
         | SiteRemoved s \<Rightarrow> (case e of SiteRemoved s' \<Rightarrow> s < s' | _ \<Rightarrow> False)
         | RelayAdded r \<Rightarrow> (case e of RelayAdded r' \<Rightarrow> r < r' | _ \<Rightarrow> False)
         | RelayRemoved r \<Rightarrow> (case e of RelayRemoved r' \<Rightarrow> r < r' | _ \<Rightarrow> False)
         | RelayMoved r s \<Rightarrow> (case e of RelayMoved r' s' \<Rightarrow> (if r \<noteq> r' then r < r' else s < s') | _ \<Rightarrow> False)))"

text \<open>The order is lexicographic in the tag and the identifying fields.\<close>

fun delta_nums :: "cluster_delta \<Rightarrow> u64 list" where
  "delta_nums (NodeAdd n c) = [n]"
| "delta_nums (NodeRemove n) = [n]"
| "delta_nums (NodeLoseToken n t) = [n, t]"
| "delta_nums (NodeGainToken n t) = [n, t]"
| "delta_nums (NodeGainPartitionReplicaOwnership n p r) = [n, p, r]"
| "delta_nums (NodeLosePartitionReplicaOwnership n p r) = [n, p, r]"
| "delta_nums (NodeLosePartitionReplica n p r) = [n, p, r]"
| "delta_nums (NodeGainPartitionReplica n p r) = [n, p, r]"
| "delta_nums _ = []"

fun delta_names :: "cluster_delta \<Rightarrow> string list" where
  "delta_names (SiteAdded s) = [s]"
| "delta_names (SiteRemoved s) = [s]"
| "delta_names (RelayAdded r) = [r]"
| "delta_names (RelayRemoved r) = [r]"
| "delta_names (RelayMoved r s) = [r, s]"
| "delta_names _ = []"

lemma Delta_Less_key:
  "Delta_Less d e \<longleftrightarrow> delta_type d < delta_type e \<or> delta_type d = delta_type e
     \<and> (delta_nums d < delta_nums e \<or> delta_nums d = delta_nums e \<and> delta_names d < delta_names e)"
  by (cases d; cases e) (simp_all add: Delta_Less_def)

lemma Delta_Less_irrefl: "\<not> Delta_Less d d"
  by (simp add: Delta_Less_key)

lemma Delta_Less_trans: "Delta_Less d e \<Longrightarrow> Delta_Less e f \<Longrightarrow> Delta_Less d f"
  unfolding Delta_Less_key by (elim disjE conjE) (auto dest: order_less_trans)

lemma Delta_Less_total:
  "Delta_Less d e \<or> Delta_Less e d \<or>
     delta_type d = delta_type e \<and> delta_nums d = delta_nums e \<and> delta_names d = delta_names e"
  unfolding Delta_Less_key by (metis linorder_neqE)

end
