(* ===== verification/Partitioner.thy ===== *)
theory Partitioner
  imports Cluster_State Hash
begin

text \<open>
  \<^verbatim>\<open>cluster/partitioner.go\<close>: the simple partitioning strategy. Token assignment works on the node list
  in ascending order of node IDs, the current assignment and the number of partitions; the loops over
  tokens and nodes are recursions over index lists, and the first stealing pass, which advances
  its loop variable, recurses on the token number. Writing a token outside the assignment
  panics and is \<open>None\<close>.
\<close>

definition MaxPartitionCount :: u64 where "MaxPartitionCount = 65536"
definition DefaultPartitionCount :: u64 where "DefaultPartitionCount = 1024"
definition MinPartitionCount :: u64 where "MinPartitionCount = 64"

abbreviation node_id :: "node_config \<Rightarrow> u64" where
  "node_id n \<equiv> NodeID (Address n)"

section \<open>Preconditions\<close>

definition countAvailableNodes :: "node_config list \<Rightarrow> nat" where
  "countAvailableNodes nodes = foldl (\<lambda>availableNodes node. if Capacity node = 0 then availableNodes else availableNodes + 1) 0 nodes"

definition countTokens :: "node_config list \<Rightarrow> u64 list" where
  "countTokens nodes = map (\<lambda>node. of_nat (length (nc_Tokens node))) nodes"

fun sorted_loop :: "u64 \<Rightarrow> node_config list \<Rightarrow> bool" where
  "sorted_loop lastNodeID [] = True"
| "sorted_loop lastNodeID (node # rest) =
     (if node_id node \<le> lastNodeID then False else sorted_loop (node_id node) rest)"

definition nodesAreSortedAndUnique :: "node_config list \<Rightarrow> bool" where
  "nodesAreSortedAndUnique nodes = sorted_loop 0 nodes"

fun owners_exist :: "node_config list \<Rightarrow> u64 list \<Rightarrow> bool" where
  "owners_exist nodes [] = True"
| "owners_exist nodes (owner # rest) =
     (if owner = 0 then owners_exist nodes rest
      else if \<not> list_ex (\<lambda>node. node_id node = owner) nodes then False
      else owners_exist nodes rest)"

definition checkPreconditions :: "node_config list option \<Rightarrow> u64 list \<Rightarrow> u64 \<Rightarrow> cluster_error option" where
  "checkPreconditions nodes currentAssignments partitions =
     (case nodes of
        None \<Rightarrow> Some EPreconditionFailed
      | Some nodes \<Rightarrow>
          if \<not> nodesAreSortedAndUnique nodes then Some EPreconditionFailed
          else if of_nat (length currentAssignments) \<noteq> partitions then Some EPreconditionFailed
          else if partitions = 0 then Some EPreconditionFailed
          else if \<not> owners_exist nodes currentAssignments then Some EPreconditionFailed
          else None)"

section \<open>Token assignment\<close>

text \<open>The working state is the assignment and the token count of every node.\<close>

type_synonym assign_state = "u64 list \<times> u64 list"

fun release_tokens :: "u64 list \<Rightarrow> nat \<Rightarrow> assign_state \<Rightarrow> assign_state option" where
  "release_tokens [] i st = Some st"
| "release_tokens (token # rest) i (assignments, tokenCounts) =
     (if unat token < length assignments
      then release_tokens rest i (assignments[unat token := 0], tokenCounts[i := tokenCounts ! i - 1])
      else None)"

fun release_decommissioned :: "node_config list \<Rightarrow> nat \<Rightarrow> assign_state \<Rightarrow> assign_state option" where
  "release_decommissioned [] i st = Some st"
| "release_decommissioned (node # rest) i st =
     (if Capacity node \<noteq> 0 then release_decommissioned rest (Suc i) st
      else Option.bind (release_tokens (nc_Tokens node) i st) (release_decommissioned rest (Suc i)))"

definition find_home :: "node_config list \<Rightarrow> u64 \<Rightarrow> u64 list \<Rightarrow> nat \<Rightarrow> nat option" where
  "find_home nodes tokenCountCeil tokenCounts nextNode =
     map_option (\<lambda>i. (nextNode + i) mod length nodes)
       (List.find (\<lambda>i. let nodeIndex = (nextNode + i) mod length nodes in
            Capacity (nodes ! nodeIndex) \<noteq> 0 \<and> tokenCounts ! nodeIndex < tokenCountCeil) [0..<length nodes])"

fun place_tokens :: "node_config list \<Rightarrow> u64 \<Rightarrow> nat list \<Rightarrow> nat \<Rightarrow> assign_state \<Rightarrow> assign_state" where
  "place_tokens nodes tokenCountCeil [] nextNode st = st"
| "place_tokens nodes tokenCountCeil (token # rest) nextNode (assignments, tokenCounts) =
     (if assignments ! token \<noteq> 0 then place_tokens nodes tokenCountCeil rest nextNode (assignments, tokenCounts)
      else
        (case find_home nodes tokenCountCeil tokenCounts nextNode of
           None \<Rightarrow> place_tokens nodes tokenCountCeil rest nextNode (assignments, tokenCounts)
         | Some nodeIndex \<Rightarrow>
             place_tokens nodes tokenCountCeil rest ((nodeIndex + 1) mod length nodes)
               (assignments[token := node_id (nodes ! nodeIndex)],
                tokenCounts[nodeIndex := tokenCounts ! nodeIndex + 1])))"

definition owner_index :: "node_config list \<Rightarrow> u64 \<Rightarrow> nat" where
  "owner_index nodes owner =
     (case List.find (\<lambda>j. node_id (nodes ! j) = owner) [0..<length nodes] of None \<Rightarrow> 0 | Some j \<Rightarrow> j)"

definition steal :: "node_config list \<Rightarrow> nat \<Rightarrow> nat \<Rightarrow> nat \<Rightarrow> assign_state \<Rightarrow> assign_state" where
  "steal nodes i j token st =
     (case st of (assignments, tokenCounts) \<Rightarrow>
       let tokenCounts = tokenCounts[i := tokenCounts ! i + 1];
           tokenCounts = tokenCounts[j := tokenCounts ! j - 1]
       in (assignments[token := node_id (nodes ! i)], tokenCounts))"

lemma length_steal [simp]:
  "length (fst (steal nodes i j token st)) = length (fst st)"
  "length (snd (steal nodes i j token st)) = length (snd st)"
  by (auto simp: steal_def Let_def split: prod.split)

function steal_spaced ::
  "node_config list \<Rightarrow> nat \<Rightarrow> u64 \<Rightarrow> nat \<Rightarrow> nat \<Rightarrow> assign_state \<Rightarrow> assign_state" where
  "steal_spaced nodes i tokenCountFloor skipAmount token st =
     (if token < length (fst st) \<and> snd st ! i < tokenCountFloor then
        (let ownerIndex = owner_index nodes (fst st ! token) in
         if tokenCountFloor < snd st ! ownerIndex
         then steal_spaced nodes i tokenCountFloor skipAmount (token + skipAmount + 1) (steal nodes i ownerIndex token st)
         else steal_spaced nodes i tokenCountFloor skipAmount (token + 1) st)
      else st)"
  by pat_completeness auto
termination
  by (relation "measure (\<lambda>(nodes, i, fl, skip, token, st). length (fst st) - token)") auto

declare steal_spaced.simps [simp del]

fun steal_from :: "node_config list \<Rightarrow> nat \<Rightarrow> u64 \<Rightarrow> nat \<Rightarrow> nat list \<Rightarrow> assign_state \<Rightarrow> assign_state" where
  "steal_from nodes i tokenCountFloor j [] st = st"
| "steal_from nodes i tokenCountFloor j (token # rest) st =
     (if fst st ! token = node_id (nodes ! j) then
        (let st = steal nodes i j token st in
         if snd st ! j = tokenCountFloor then st else steal_from nodes i tokenCountFloor j rest st)
      else steal_from nodes i tokenCountFloor j rest st)"

fun steal_all :: "node_config list \<Rightarrow> nat \<Rightarrow> u64 \<Rightarrow> nat list \<Rightarrow> assign_state \<Rightarrow> assign_state" where
  "steal_all nodes i tokenCountFloor [] st = st"
| "steal_all nodes i tokenCountFloor (j # js) st =
     (if \<not> snd st ! i < tokenCountFloor then st
      else if j = i \<or> snd st ! j \<le> tokenCountFloor then steal_all nodes i tokenCountFloor js st
      else steal_all nodes i tokenCountFloor js
             (steal_from nodes i tokenCountFloor j [0..<length (fst st)] st))"

fun balance_nodes :: "node_config list \<Rightarrow> u64 \<Rightarrow> nat list \<Rightarrow> assign_state \<Rightarrow> assign_state" where
  "balance_nodes nodes tokenCountFloor [] st = st"
| "balance_nodes nodes tokenCountFloor (i # rest) st =
     (if Capacity (nodes ! i) = 0 then balance_nodes nodes tokenCountFloor rest st
      else
        (let skipAmount = length (fst st) div unat tokenCountFloor;
             skipAmount = (if 1 < skipAmount then skipAmount - 1 else skipAmount);
             st = steal_spaced nodes i tokenCountFloor skipAmount 0 st;
             st = steal_all nodes i tokenCountFloor [0..<length (snd st)] st
         in balance_nodes nodes tokenCountFloor rest st))"

definition AssignTokens ::
  "node_config list option \<Rightarrow> u64 list \<Rightarrow> u64 \<Rightarrow> (cluster_error + u64 list) option" where
  "AssignTokens nodes currentAssignments partitions =
     (case checkPreconditions nodes currentAssignments partitions of
        Some e \<Rightarrow> Some (Inl e)
      | None \<Rightarrow>
          (let nodes = the nodes;
               nodes = (if partitions < of_nat (length nodes) then take (unat partitions) nodes else nodes);
               tokenCounts = countTokens nodes;
               availableNodes = countAvailableNodes nodes
           in if availableNodes = 0 then Some (Inr (replicate (unat partitions) 0))
              else
                (let tokenCountFloor = partitions div of_nat availableNodes;
                     tokenCountCeil = (if partitions mod of_nat availableNodes \<noteq> 0
                                       then tokenCountFloor + 1 else tokenCountFloor)
                 in Option.bind (release_decommissioned nodes 0 (currentAssignments, tokenCounts)) (\<lambda>st.
                      let st = place_tokens nodes tokenCountCeil [0..<length (fst st)] 0 st;
                          st = balance_nodes nodes tokenCountFloor [0..<length nodes] st
                      in Some (Inr (fst st))))))"

section \<open>Owners of a partition\<close>

fun owners_loop :: "u64 list \<Rightarrow> nat \<Rightarrow> int \<Rightarrow> nat list \<Rightarrow> u64 list \<Rightarrow> u64 list" where
  "owners_loop tokenAssignment part replicationFactor [] owners = owners"
| "owners_loop tokenAssignment part replicationFactor (i # rest) owners =
     (if \<not> int (length owners) < replicationFactor then owners
      else
        (let realIndex = (i + part) mod length tokenAssignment;
             owner = tokenAssignment ! realIndex
         in owners_loop tokenAssignment part replicationFactor rest
              (if owner \<in> set owners then owners else owners @ [owner])))"

definition Owners :: "u64 list \<Rightarrow> u64 \<Rightarrow> u64 \<Rightarrow> u64 list" where
  "Owners tokenAssignment part replicationFactor =
     (if of_nat (length tokenAssignment) \<le> part then []
      else
        (let owners = owners_loop tokenAssignment (unat part) (sint replicationFactor) [0..<length tokenAssignment] []
         in if owners \<noteq> [] \<and> of_nat (length owners) < replicationFactor
            then owners @ map (\<lambda>i. owners ! (i mod length owners))
                   [0..<unat (replicationFactor - of_nat (length owners))]
            else owners))"

section \<open>The partition of a key\<close>

function shift_loop :: "int \<Rightarrow> u64 \<Rightarrow> int" where
  "shift_loop shiftAmount partitionCount =
     (if 0 < partitionCount then shift_loop (shiftAmount - 1) (drop_bit 1 partitionCount) else shiftAmount)"
  by pat_completeness auto
termination
proof (relation "measure (\<lambda>(s, p). unat p)")
  fix s and p :: u64
  assume "0 < p"
  then have "0 < unat p" by (simp add: word_less_nat_alt)
  then show "((s - 1, drop_bit 1 p), (s, p)) \<in> measure (\<lambda>(s, p). unat p)"
    by (simp add: drop_bit_eq_div unat_div)
qed simp

declare shift_loop.simps [simp del]

record strategy =
  shiftAmount :: int

definition CalculateShiftAmount :: "strategy \<Rightarrow> u64 \<Rightarrow> strategy" where
  "CalculateShiftAmount ps partitionCount =
     (if shiftAmount ps \<noteq> 0 then ps else ps\<lparr>shiftAmount := shift_loop 65 partitionCount\<rparr>)"

definition Strategy_Partition :: "strategy \<Rightarrow> string \<Rightarrow> u64 \<Rightarrow> u64 \<times> strategy" where
  "Strategy_Partition ps key partitionCount =
     (let h = High (NewHash (bytes_of_string key));
          ps = (if shiftAmount ps = 0 then CalculateShiftAmount ps partitionCount else ps)
      in (if 64 \<le> nat (shiftAmount ps) then 0 else drop_bit (nat (shiftAmount ps)) h, ps))"

end
