(* ===== verification/Controller.thy ===== *)
theory Controller
  imports Delta Partitioner
begin

text \<open>
  \<^verbatim>\<open>cluster/controller.go\<close>: the state machine every member of the cluster runs on the committed
  command log. A command body is given decoded (a body that does not parse is the error of
  \<^verbatim>\<open>DecodeClusterCommandBody\<close>), a snapshot as the state it holds. \<open>None\<close> is a panic.

  The controller memoises the owners of partitions (\<^verbatim>\<open>partitionOwnersCache\<close>) and the replicas the local
  node owns (\<^verbatim>\<open>localNodeOwnedPartitionReplicaCache\<close>); both are part of the state. The mutexes
  make each operation atomic.
\<close>

section \<open>Commands\<close>

datatype command_body =
    ClusterUpdateNodeBody u64 node_config
  | ClusterAddNodeBody u64 node_config
  | ClusterRemoveNodeBody u64 u64
  | ClusterTakePartitionReplicaBody u64 u64 u64
  | ClusterSetReplicationFactorBody u64
  | ClusterSetPartitionCountBody u64
  | ClusterAddSiteBody string
  | ClusterRemoveSiteBody string
  | ClusterAddRelayBody string
  | ClusterRemoveRelayBody string
  | ClusterMoveRelayBody string string
  | ClusterSnapshotBody string

section \<open>State\<close>

record controller =
  LocalNodeID :: u64
  State :: cluster_state
  LocalUpdates :: "cluster_delta list list"
  notificationsEnabled :: bool
  nextDeltaSet :: "cluster_delta list"
  localNodeOwnedPartitionReplicaCache :: "replica_map option"
  partitionOwnersCache :: "(u64 \<times> u64 list) list option"

definition EnableNotifications :: "controller \<Rightarrow> controller" where
  "EnableNotifications c = c\<lparr>notificationsEnabled := True\<rparr>"

definition DisableNotifications :: "controller \<Rightarrow> controller" where
  "DisableNotifications c = c\<lparr>notificationsEnabled := False\<rparr>"

definition Deltas :: "controller \<Rightarrow> cluster_delta list" where
  "Deltas c = nextDeltaSet c"

definition notifyLocalNode :: "cluster_delta \<Rightarrow> controller \<Rightarrow> controller" where
  "notifyLocalNode d c = c\<lparr>nextDeltaSet := nextDeltaSet c @ [d]\<rparr>"

section \<open>Owners and caches\<close>

definition clearPartitionOwnersCache :: "controller \<Rightarrow> controller" where
  "clearPartitionOwnersCache c = c\<lparr>partitionOwnersCache := None\<rparr>"

definition partitionOwners :: "u64 \<Rightarrow> controller \<Rightarrow> u64 list \<times> controller" where
  "partitionOwners part c =
     (let cache = (case partitionOwnersCache c of None \<Rightarrow> [] | Some m \<Rightarrow> m) in
      case map_of cache part of
        Some owners \<Rightarrow> (owners, c\<lparr>partitionOwnersCache := Some cache\<rparr>)
      | None \<Rightarrow>
          (let owners = Owners (Tokens (State c)) part (ReplicationFactor (ClusterSettings (State c)))
           in (owners, c\<lparr>partitionOwnersCache := Some (AList.update part owners cache)\<rparr>)))"

fun owned_replicas :: "u64 \<Rightarrow> u64 \<Rightarrow> nat \<Rightarrow> u64 list \<Rightarrow> replica_map \<Rightarrow> replica_map" where
  "owned_replicas node part replica [] m = m"
| "owned_replicas node part replica (nodeID # rest) m =
     owned_replicas node part (Suc replica) rest
       (if nodeID = node then AList.update part (set_add (of_nat replica) (rm_get m part)) m else m)"

fun owned_loop :: "nat list \<Rightarrow> controller \<Rightarrow> replica_map \<Rightarrow> replica_map \<times> controller" where
  "owned_loop [] c m = (m, c)"
| "owned_loop (i # rest) c m =
     (let (owners, c) = partitionOwners (of_nat i) c
      in owned_loop rest c (owned_replicas (LocalNodeID c) (of_nat i) 0 owners m))"

definition localNodeOwnedPartitionReplicas :: "controller \<Rightarrow> replica_map \<times> controller" where
  "localNodeOwnedPartitionReplicas c =
     (if \<not> AreInitialized (ClusterSettings (State c)) then ([], c)
      else
        (case localNodeOwnedPartitionReplicaCache c of
           Some m \<Rightarrow> (m, c)
         | None \<Rightarrow>
             (let (m, c) = owned_loop [0..<length (Tokens (State c))] c []
              in (m, c\<lparr>localNodeOwnedPartitionReplicaCache := Some m\<rparr>))))"

section \<open>Snapshots and differences\<close>

definition localNodeTokenSnapshot :: "controller \<Rightarrow> u64_set" where
  "localNodeTokenSnapshot c =
     (case map_of (Nodes (State c)) (LocalNodeID c) of None \<Rightarrow> [] | Some nc \<Rightarrow> nc_Tokens nc)"

definition localNodePartitionReplicaSnapshot :: "controller \<Rightarrow> replica_map" where
  "localNodePartitionReplicaSnapshot c =
     (case map_of (Nodes (State c)) (LocalNodeID c) of None \<Rightarrow> [] | Some nc \<Rightarrow> PartitionReplicas nc)"

definition relaysSnapshot :: "controller \<Rightarrow> (string \<times> string) list" where
  "relaysSnapshot c = (case Relays (State c) of None \<Rightarrow> [] | Some rs \<Rightarrow> rs)"

definition sitesSnapshot :: "controller \<Rightarrow> string list" where
  "sitesSnapshot c = (case Sites (State c) of None \<Rightarrow> [] | Some ss \<Rightarrow> ss)"

definition localDiffTokensAndNotify :: "u64_set \<Rightarrow> controller \<Rightarrow> controller" where
  "localDiffTokensAndNotify tokenSnapshot c =
     (case map_of (Nodes (State c)) (LocalNodeID c) of
        None \<Rightarrow> c
      | Some nc \<Rightarrow>
          (let c = fold (\<lambda>t c. if t \<notin> set (nc_Tokens nc) then notifyLocalNode (NodeLoseToken (LocalNodeID c) t) c else c)
                     tokenSnapshot c
           in fold (\<lambda>t c. if t \<notin> set tokenSnapshot then notifyLocalNode (NodeGainToken (LocalNodeID c) t) c else c)
                (nc_Tokens nc) c))"

definition rm_missing :: "replica_map \<Rightarrow> u64 \<times> u64 \<Rightarrow> bool" where
  "rm_missing m k =
     (case map_of m (fst k) of None \<Rightarrow> True | Some rs \<Rightarrow> snd k \<notin> set rs)"

definition localDiffOwnedPartitionReplicasAndNotify :: "replica_map \<Rightarrow> controller \<Rightarrow> controller" where
  "localDiffOwnedPartitionReplicasAndNotify snap c =
     (let (cur, c) = localNodeOwnedPartitionReplicas c;
          c = fold (\<lambda>k c. if rm_missing cur k
                    then notifyLocalNode (NodeLosePartitionReplicaOwnership (LocalNodeID c) (fst k) (snd k)) c else c)
                (map_pairs snap) c
      in fold (\<lambda>k c. if rm_missing snap k
                then notifyLocalNode (NodeGainPartitionReplicaOwnership (LocalNodeID c) (fst k) (snd k)) c else c)
           (map_pairs cur) c)"

definition localDiffPartitionReplicasAndNotify :: "replica_map \<Rightarrow> controller \<Rightarrow> controller" where
  "localDiffPartitionReplicasAndNotify snap c =
     (case map_of (Nodes (State c)) (LocalNodeID c) of
        None \<Rightarrow> c
      | Some nc \<Rightarrow>
          (let c = fold (\<lambda>k c. if rm_missing (PartitionReplicas nc) k
                         then notifyLocalNode (NodeLosePartitionReplica (LocalNodeID c) (fst k) (snd k)) c else c)
                     (map_pairs snap) c
           in fold (\<lambda>k c. if rm_missing snap k
                     then notifyLocalNode (NodeGainPartitionReplica (LocalNodeID c) (fst k) (snd k)) c else c)
                (map_pairs (PartitionReplicas nc)) c))"

definition diffRelaysAndNotify :: "(string \<times> string) list \<Rightarrow> controller \<Rightarrow> controller" where
  "diffRelaysAndNotify snap c =
     (let c = fold (\<lambda>(relay, site) c.
                case relay_site (State c) relay of
                  None \<Rightarrow> notifyLocalNode (RelayRemoved relay) c
                | Some s \<Rightarrow> if s \<noteq> site then notifyLocalNode (RelayMoved relay s) c else c) snap c
      in fold (\<lambda>(relay, site) c. if map_of snap relay = None then notifyLocalNode (RelayAdded relay) c else c)
           (relaysSnapshot c) c)"

definition diffSitesAndNotify :: "string list \<Rightarrow> controller \<Rightarrow> controller" where
  "diffSitesAndNotify snap c =
     (let c = fold (\<lambda>site c. if \<not> SiteExists (State c) site then notifyLocalNode (SiteRemoved site) c else c) snap c
      in fold (\<lambda>site c. if site \<notin> set snap then notifyLocalNode (SiteAdded site) c else c) (sitesSnapshot c) c)"

section \<open>Token assignment\<close>

fun assign_all :: "(u64 \<times> u64) list \<Rightarrow> cluster_state \<Rightarrow> cluster_state option" where
  "assign_all [] cs = Some cs"
| "assign_all ((owner, token) # rest) cs =
     Option.bind (AssignToken cs owner token) (\<lambda>(e, cs). assign_all rest cs)"

definition sorted_nodes :: "cluster_state \<Rightarrow> node_config list" where
  "sorted_nodes cs = sort_key node_id (map snd (Nodes cs))"

definition assignTokens :: "controller \<Rightarrow> controller option" where
  "assignTokens c =
     Option.bind (AssignTokens (Some (sorted_nodes (State c))) (Tokens (State c)) (cs_Partitions (ClusterSettings (State c))))
       (\<lambda>r.
          let newTokenAssignment = (case r of Inl e \<Rightarrow> [] | Inr a \<Rightarrow> a);
              c = clearPartitionOwnersCache (c\<lparr>localNodeOwnedPartitionReplicaCache := None\<rparr>);
              (owned, c) = localNodeOwnedPartitionReplicas c;
              tokenSnapshot = localNodeTokenSnapshot c;
              c = clearPartitionOwnersCache (c\<lparr>localNodeOwnedPartitionReplicaCache := None\<rparr>)
          in Option.bind (assign_all (zip newTokenAssignment (map of_nat [0..<length newTokenAssignment])) (State c)) (\<lambda>cs.
               let c = c\<lparr>State := cs\<rparr>;
                   c = localDiffTokensAndNotify tokenSnapshot c
               in Some (localDiffOwnedPartitionReplicasAndNotify owned c)))"

definition reassignTokens :: "u64 \<Rightarrow> u64 \<Rightarrow> controller \<Rightarrow> controller option" where
  "reassignTokens oldOwnerID newOwnerID c =
     (let c = clearPartitionOwnersCache (c\<lparr>localNodeOwnedPartitionReplicaCache := None\<rparr>);
          (owned, c) = localNodeOwnedPartitionReplicas c;
          tokenSnapshot = localNodeTokenSnapshot c;
          c = clearPartitionOwnersCache (c\<lparr>localNodeOwnedPartitionReplicaCache := None\<rparr>)
      in case map_of (Nodes (State c)) oldOwnerID of
           None \<Rightarrow> None
         | Some old \<Rightarrow>
             Option.bind (modify_node newOwnerID (\<lambda>nc. nc\<lparr>Capacity := Capacity old\<rparr>) (State c)) (\<lambda>cs.
             Option.bind (assign_all (map (\<lambda>t. (newOwnerID, t)) (nc_Tokens old)) cs) (\<lambda>cs.
               let c = c\<lparr>State := cs\<rparr>;
                   c = localDiffTokensAndNotify tokenSnapshot c
               in Some (localDiffOwnedPartitionReplicasAndNotify owned c))))"

definition initializeClusterIfReady :: "controller \<Rightarrow> controller option" where
  "initializeClusterIfReady c =
     (if \<not> AreInitialized (ClusterSettings (State c)) then Some c
      else assignTokens (c\<lparr>State := State_Initialize (State c)\<rparr>))"

section \<open>Command handlers\<close>

type_synonym outcome = "(cluster_error option \<times> controller) option"

definition ok_result :: "controller option \<Rightarrow> outcome" where
  "ok_result r = map_option (Pair None) r"

definition UpdateNodeConfig :: "u64 \<Rightarrow> node_config \<Rightarrow> controller \<Rightarrow> outcome" where
  "UpdateNodeConfig nodeID cfg c =
     (case map_of (Nodes (State c)) nodeID of
        None \<Rightarrow> Some (None, c)
      | Some cur \<Rightarrow>
          (let cur1 = cur\<lparr>Address := (Address cur)\<lparr>Host := Host (Address cfg), Port := Port (Address cfg)\<rparr>\<rparr>;
               put = (\<lambda>nc. c\<lparr>State := (State c)\<lparr>Nodes := AList.update nodeID nc (Nodes (State c))\<rparr>\<rparr>)
           in if Capacity cfg \<noteq> Capacity cur1
              then (let c = put (cur1\<lparr>Capacity := Capacity cfg\<rparr>) in
                    if AreInitialized (ClusterSettings (State c)) then ok_result (assignTokens c) else Some (None, c))
              else Some (None, put cur1)))"

definition Controller_AddNode :: "u64 \<Rightarrow> node_config \<Rightarrow> controller \<Rightarrow> outcome" where
  "Controller_AddNode nodeID cfg c =
     (if map_of (Nodes (State c)) nodeID \<noteq> None then Some (Some ECancelConfChange, c)
      else if (case RemovedNodes (State c) of None \<Rightarrow> False | Some rn \<Rightarrow> nodeID \<in> set rn)
      then Some (Some ECancelConfChange, c)
      else
        (let cfg = cfg\<lparr>nc_Tokens := [], PartitionReplicas := [], OwnedPartitionReplicas := []\<rparr>;
             c = c\<lparr>State := AddNode (State c) cfg\<rparr>;
             c = (if nodeID = LocalNodeID c then notifyLocalNode (NodeAdd (LocalNodeID c) cfg) c else c)
         in if AreInitialized (ClusterSettings (State c)) then ok_result (assignTokens c) else Some (None, c)))"

definition Controller_RemoveNode :: "u64 \<Rightarrow> u64 \<Rightarrow> controller \<Rightarrow> outcome" where
  "Controller_RemoveNode nodeID replacementNodeID c =
     (let replacement = map_of (Nodes (State c)) replacementNodeID in
      if (replacement = None \<and> replacementNodeID \<noteq> 0)
         \<or> (case replacement of None \<Rightarrow> False | Some nc \<Rightarrow> nc_Tokens nc \<noteq> [])
         \<or> replacementNodeID = nodeID
      then Some (Some ECancelConfChange, c)
      else if map_of (Nodes (State c)) nodeID = None then Some (None, c)
      else
        Option.bind (if replacementNodeID \<noteq> 0 then reassignTokens nodeID replacementNodeID c else Some c) (\<lambda>c.
        Option.bind (RemoveNode (State c) nodeID) (\<lambda>cs.
        let c = c\<lparr>State := cs\<rparr> in
        Option.bind (if replacementNodeID = 0 \<and> AreInitialized (ClusterSettings (State c)) then assignTokens c else Some c) (\<lambda>c.
          Some (None, if nodeID = LocalNodeID c then notifyLocalNode (NodeRemove (LocalNodeID c)) c else c)))))"

definition TakePartitionReplica :: "u64 \<Rightarrow> u64 \<Rightarrow> u64 \<Rightarrow> controller \<Rightarrow> outcome" where
  "TakePartitionReplica part replica nodeID c =
     (let snap = localNodePartitionReplicaSnapshot c;
          (owners, c) = partitionOwners part c
      in if of_nat (length owners) \<le> replica \<or> owners = [] then Some (Some EReplicaNumberInvalid, c)
         else if owners ! unat replica \<noteq> nodeID then Some (Some ENodeDoesNotOwnReplica, c)
         else
           Option.bind (AssignPartitionReplica (State c) part replica nodeID) (\<lambda>(e, cs).
             let c = c\<lparr>State := cs\<rparr> in
             case e of
               Some err \<Rightarrow> Some (Some err, c)
             | None \<Rightarrow> Some (None, localDiffPartitionReplicasAndNotify snap c)))"

definition SetReplicationFactor :: "u64 \<Rightarrow> controller \<Rightarrow> outcome" where
  "SetReplicationFactor rf c =
     (if ReplicationFactor (ClusterSettings (State c)) \<noteq> 0 then Some (None, c)
      else ok_result (initializeClusterIfReady
             (c\<lparr>State := (State c)\<lparr>ClusterSettings := (ClusterSettings (State c))\<lparr>ReplicationFactor := rf\<rparr>\<rparr>\<rparr>)))"

definition SetPartitionCount :: "u64 \<Rightarrow> controller \<Rightarrow> outcome" where
  "SetPartitionCount n c =
     (if cs_Partitions (ClusterSettings (State c)) \<noteq> 0 then Some (None, c)
      else ok_result (initializeClusterIfReady
             (c\<lparr>State := (State c)\<lparr>ClusterSettings := (ClusterSettings (State c))\<lparr>cs_Partitions := n\<rparr>\<rparr>\<rparr>)))"

definition Controller_AddSite :: "string \<Rightarrow> controller \<Rightarrow> outcome" where
  "Controller_AddSite siteID c =
     (if SiteExists (State c) siteID then Some (None, c)
      else Some (None, notifyLocalNode (SiteAdded siteID) (c\<lparr>State := AddSite (State c) siteID\<rparr>)))"

definition Controller_RemoveSite :: "string \<Rightarrow> controller \<Rightarrow> outcome" where
  "Controller_RemoveSite siteID c =
     (if \<not> SiteExists (State c) siteID then Some (None, c)
      else Some (None, notifyLocalNode (SiteRemoved siteID) (c\<lparr>State := RemoveSite (State c) siteID\<rparr>)))"

definition Controller_AddRelay :: "string \<Rightarrow> controller \<Rightarrow> outcome" where
  "Controller_AddRelay relayID c =
     (if relay_site (State c) relayID \<noteq> None then Some (None, c)
      else Some (None, notifyLocalNode (RelayAdded relayID) (c\<lparr>State := AddRelay (State c) relayID\<rparr>)))"

definition Controller_RemoveRelay :: "string \<Rightarrow> controller \<Rightarrow> outcome" where
  "Controller_RemoveRelay relayID c =
     (if relay_site (State c) relayID = None then Some (None, c)
      else Some (None, notifyLocalNode (RelayRemoved relayID) (c\<lparr>State := RemoveRelay (State c) relayID\<rparr>)))"

definition Controller_MoveRelay :: "string \<Rightarrow> string \<Rightarrow> controller \<Rightarrow> outcome" where
  "Controller_MoveRelay relayID siteID c =
     (if \<not> SiteExists (State c) siteID \<and> siteID \<noteq> '''' then Some (Some ENoSuchSite, c)
      else
        (case relay_site (State c) relayID of
           None \<Rightarrow> Some (Some ENoSuchRelay, c)
         | Some s \<Rightarrow>
             if s = siteID then Some (None, c)
             else Some (None, notifyLocalNode (RelayMoved relayID siteID) (c\<lparr>State := MoveRelay (State c) relayID siteID\<rparr>))))"

fun handle :: "command_body \<Rightarrow> controller \<Rightarrow> outcome" where
  "handle (ClusterUpdateNodeBody n cfg) c = UpdateNodeConfig n cfg c"
| "handle (ClusterAddNodeBody n cfg) c = Controller_AddNode n cfg c"
| "handle (ClusterRemoveNodeBody n r) c = Controller_RemoveNode n r c"
| "handle (ClusterTakePartitionReplicaBody p r n) c = TakePartitionReplica p r n c"
| "handle (ClusterSetReplicationFactorBody rf) c = SetReplicationFactor rf c"
| "handle (ClusterSetPartitionCountBody n) c = SetPartitionCount n c"
| "handle (ClusterAddSiteBody s) c = Controller_AddSite s c"
| "handle (ClusterRemoveSiteBody s) c = Controller_RemoveSite s c"
| "handle (ClusterAddRelayBody r) c = Controller_AddRelay r c"
| "handle (ClusterRemoveRelayBody r) c = Controller_RemoveRelay r c"
| "handle (ClusterMoveRelayBody r s) c = Controller_MoveRelay r s c"
| "handle (ClusterSnapshotBody u) c = Some (None, c)"

text \<open>
  \<open>Step\<close> returns the deltas with the error and sends them to the local update channel while
  notifications are enabled.
\<close>

definition Step :: "cluster_error + command_body \<Rightarrow> controller \<Rightarrow>
    ((cluster_delta list option \<times> cluster_error option) \<times> controller) option" where
  "Step body c =
     (case body of
        Inl e \<Rightarrow> Some ((None, Some ECouldNotParseCommand), c)
      | Inr b \<Rightarrow>
          Option.bind (handle b (c\<lparr>nextDeltaSet := []\<rparr>)) (\<lambda>(err, c).
            let c = (if notificationsEnabled c then c\<lparr>LocalUpdates := LocalUpdates c @ [nextDeltaSet c]\<rparr> else c)
            in Some ((Some (nextDeltaSet c), err), c)))"

definition ApplySnapshot :: "cluster_state option \<Rightarrow> controller \<Rightarrow> bool \<times> controller" where
  "ApplySnapshot snap c =
     (let c = clearPartitionOwnersCache c;
          c = c\<lparr>localNodeOwnedPartitionReplicaCache := None\<rparr>;
          (owned, c) = localNodeOwnedPartitionReplicas c;
          tokenSnapshot = localNodeTokenSnapshot c;
          replicaSnapshot = localNodePartitionReplicaSnapshot c;
          relays = relaysSnapshot c;
          sites = sitesSnapshot c;
          before = map_of (Nodes (State c)) (LocalNodeID c)
      in case snap of
           None \<Rightarrow> (False, c)
         | Some cs \<Rightarrow>
             (let c = c\<lparr>State := cs\<rparr>;
                  now = map_of (Nodes (State c)) (LocalNodeID c);
                  c = (case (before, now) of
                         (None, Some nc) \<Rightarrow> notifyLocalNode (NodeAdd (LocalNodeID c) nc) c | _ \<Rightarrow> c);
                  c = localDiffTokensAndNotify tokenSnapshot c;
                  c = localDiffOwnedPartitionReplicasAndNotify owned c;
                  c = localDiffPartitionReplicasAndNotify replicaSnapshot c;
                  c = diffRelaysAndNotify relays c;
                  c = diffSitesAndNotify sites c;
                  c = (if before \<noteq> None \<and> now = None then notifyLocalNode (NodeRemove (LocalNodeID c)) c else c)
              in (True, c)))"

section \<open>Queries\<close>

definition RelaySite :: "controller \<Rightarrow> string \<Rightarrow> string" where
  "RelaySite c relayID = (case relay_site (State c) relayID of None \<Rightarrow> '''' | Some s \<Rightarrow> s)"

definition ClusterIsInitialized :: "controller \<Rightarrow> bool" where
  "ClusterIsInitialized c = AreInitialized (ClusterSettings (State c))"

definition ClusterMemberAddress :: "controller \<Rightarrow> u64 \<Rightarrow> peer_address" where
  "ClusterMemberAddress c nodeID =
     (case map_of (Nodes (State c)) nodeID of None \<Rightarrow> \<lparr>NodeID = 0, Host = '''', Port = 0\<rparr> | Some nc \<Rightarrow> Address nc)"

definition PartitionOwners :: "u64 \<Rightarrow> controller \<Rightarrow> u64 list \<times> controller" where
  "PartitionOwners part c =
     (if of_nat (length (Partitions (State c))) \<le> part \<or> \<not> AreInitialized (ClusterSettings (State c)) then ([], c)
      else partitionOwners part c)"

text \<open>The local node's configuration is dereferenced without a check.\<close>

definition LocalNodeHoldsPartition :: "controller \<Rightarrow> u64 \<Rightarrow> bool option" where
  "LocalNodeHoldsPartition c part =
     map_option (\<lambda>nc. rm_get (PartitionReplicas nc) part \<noteq> []) (map_of (Nodes (State c)) (LocalNodeID c))"

fun holders_loop :: "partition_replica list \<Rightarrow> u64 list \<Rightarrow> u64 list" where
  "holders_loop [] holders = holders"
| "holders_loop (pr # rest) holders =
     holders_loop rest (if Holder pr \<noteq> 0 \<and> Holder pr \<notin> set holders then holders @ [Holder pr] else holders)"

definition PartitionHolders :: "controller \<Rightarrow> u64 \<Rightarrow> u64 list" where
  "PartitionHolders c part =
     (if of_nat (length (Partitions (State c))) \<le> part then []
      else holders_loop (Partitions (State c) ! unat part) [])"

definition Controller_SiteExists :: "controller \<Rightarrow> string \<Rightarrow> bool" where
  "Controller_SiteExists c siteID = SiteExists (State c) siteID"

definition replicas_of :: "replica_map \<Rightarrow> partition_replica list" where
  "replicas_of m = map (\<lambda>(p, r). \<lparr>Partition = p, Replica = r, Holder = 0, Owner = 0\<rparr>) (map_pairs m)"

definition LocalNodeHeldPartitionReplicas :: "controller \<Rightarrow> partition_replica list" where
  "LocalNodeHeldPartitionReplicas c =
     (if \<not> AreInitialized (ClusterSettings (State c)) then []
      else case map_of (Nodes (State c)) (LocalNodeID c) of
             None \<Rightarrow> [] | Some nc \<Rightarrow> replicas_of (PartitionReplicas nc))"

definition LocalNodeOwnedPartitionReplicas :: "controller \<Rightarrow> partition_replica list \<times> controller" where
  "LocalNodeOwnedPartitionReplicas c =
     (if \<not> AreInitialized (ClusterSettings (State c)) then ([], c)
      else if map_of (Nodes (State c)) (LocalNodeID c) = None then ([], c)
      else (let (m, c) = localNodeOwnedPartitionReplicas c in (replicas_of m, c)))"

definition LocalNodeConfig :: "controller \<Rightarrow> node_config option" where
  "LocalNodeConfig c = map_of (Nodes (State c)) (LocalNodeID c)"

definition LocalPartitionReplicasCount :: "controller \<Rightarrow> nat" where
  "LocalPartitionReplicasCount c =
     (case map_of (Nodes (State c)) (LocalNodeID c) of None \<Rightarrow> 0 | Some nc \<Rightarrow> length (map_pairs (PartitionReplicas nc)))"

definition LocalNodeIsInCluster :: "controller \<Rightarrow> bool" where
  "LocalNodeIsInCluster c \<longleftrightarrow> map_of (Nodes (State c)) (LocalNodeID c) \<noteq> None"

definition NodeIsInCluster :: "controller \<Rightarrow> u64 \<Rightarrow> bool" where
  "NodeIsInCluster c nodeID \<longleftrightarrow> map_of (Nodes (State c)) nodeID \<noteq> None"

definition LocalNodeWasRemovedFromCluster :: "controller \<Rightarrow> bool" where
  "LocalNodeWasRemovedFromCluster c =
     (case RemovedNodes (State c) of None \<Rightarrow> False | Some rn \<Rightarrow> LocalNodeID c \<in> set rn)"

definition ClusterNodes :: "controller \<Rightarrow> u64_set" where
  "ClusterNodes c = map fst (Nodes (State c))"

definition ClusterNodeConfigs :: "controller \<Rightarrow> node_config list" where
  "ClusterNodeConfigs c = map snd (Nodes (State c))"

definition Controller_Partition :: "controller \<Rightarrow> strategy \<Rightarrow> string \<Rightarrow> u64 \<times> strategy" where
  "Controller_Partition c ps key =
     (if AreInitialized (ClusterSettings (State c))
      then Strategy_Partition ps key (cs_Partitions (ClusterSettings (State c)))
      else (0, ps))"

end
