(* ===== verification/Cluster_Ownership.thy ===== *)
theory Cluster_Ownership
  imports Cluster_State
begin

text \<open>
  The invariant of the cluster state. The abstract specification of each of its three ownership
  relations is a pair of views, the set of things every node has and the owner of every thing, that
  agree (\<open>ownership\<close>). The locale \<open>owned_things\<close> is the interface the state operations share (release,
  take, assign); reassigning and dropping are proved once inside it and instantiated for tokens,
  replica holders and replica owners.
\<close>

section \<open>Ownership\<close>

definition ownership :: "(u64 \<Rightarrow> 'k set option) \<Rightarrow> ('k \<Rightarrow> u64 option) \<Rightarrow> bool" where
  "ownership V P \<longleftrightarrow> (\<forall>n S. V n = Some S \<longrightarrow> S = {k. P k = Some n})
     \<and> (\<forall>k n. P k = Some n \<longrightarrow> n = 0 \<or> V n \<noteq> None) \<and> V 0 = None"

lemma ownership_unique:
  "ownership V P \<Longrightarrow> V a = Some A \<Longrightarrow> V b = Some B \<Longrightarrow> k \<in> A \<Longrightarrow> k \<in> B \<Longrightarrow> a = b"
proof -
  assume a: "ownership V P" "V a = Some A" "V b = Some B" "k \<in> A" "k \<in> B"
  then have "A = {k. P k = Some a}" "B = {k. P k = Some b}" unfolding ownership_def by blast+
  with a show "a = b" by simp
qed

definition tok_sets :: "cluster_state \<Rightarrow> u64 \<Rightarrow> u64 set option" where
  "tok_sets cs n = map_option (\<lambda>nc. set (nc_Tokens nc)) (map_of (Nodes cs) n)"

definition tok_owner :: "cluster_state \<Rightarrow> u64 \<Rightarrow> u64 option" where
  "tok_owner cs t = (if unat t < length (Tokens cs) then Some (Tokens cs ! unat t) else None)"

definition rm_set :: "replica_map \<Rightarrow> (u64 \<times> u64) set" where
  "rm_set m = {(p, r). r \<in> set (rm_get m p)}"

definition held_sets :: "cluster_state \<Rightarrow> u64 \<Rightarrow> (u64 \<times> u64) set option" where
  "held_sets cs n = map_option (\<lambda>nc. rm_set (PartitionReplicas nc)) (map_of (Nodes cs) n)"

definition owned_sets :: "cluster_state \<Rightarrow> u64 \<Rightarrow> (u64 \<times> u64) set option" where
  "owned_sets cs n = map_option (\<lambda>nc. rm_set (OwnedPartitionReplicas nc)) (map_of (Nodes cs) n)"

definition replica_at :: "cluster_state \<Rightarrow> u64 \<times> u64 \<Rightarrow> partition_replica option" where
  "replica_at cs k = (case k of (p, r) \<Rightarrow>
     if unat p < length (Partitions cs) \<and> unat r < length (Partitions cs ! unat p)
     then Some (Partitions cs ! unat p ! unat r) else None)"

definition holder_of :: "cluster_state \<Rightarrow> u64 \<times> u64 \<Rightarrow> u64 option" where
  "holder_of cs k = map_option Holder (replica_at cs k)"

definition owner_of :: "cluster_state \<Rightarrow> u64 \<times> u64 \<Rightarrow> u64 option" where
  "owner_of cs k = map_option Owner (replica_at cs k)"

definition rm_ok :: "replica_map \<Rightarrow> bool" where
  "rm_ok m \<longleftrightarrow> distinct (map fst m) \<and> (\<forall>(p, rs) \<in> set m. distinct rs)"

definition node_ok :: "u64 \<Rightarrow> node_config \<Rightarrow> bool" where
  "node_ok n nc \<longleftrightarrow> n \<noteq> 0 \<and> NodeID (Address nc) = n \<and> distinct (nc_Tokens nc)
     \<and> rm_ok (PartitionReplicas nc) \<and> rm_ok (OwnedPartitionReplicas nc)"

definition nodes_ok :: "cluster_state \<Rightarrow> bool" where
  "nodes_ok cs \<longleftrightarrow> distinct (map fst (Nodes cs)) \<and> (\<forall>(n, nc) \<in> set (Nodes cs). node_ok n nc)"

text \<open>
  The arrays exist exactly once the settings are complete, and have the sizes the settings say.
\<close>

definition sized :: "cluster_state \<Rightarrow> bool" where
  "sized cs \<longleftrightarrow>
     (if AreInitialized (ClusterSettings cs)
      then length (Tokens cs) = unat (cs_Partitions (ClusterSettings cs))
        \<and> length (Partitions cs) = unat (cs_Partitions (ClusterSettings cs))
        \<and> (\<forall>rs \<in> set (Partitions cs). length rs = unat (ReplicationFactor (ClusterSettings cs)))
      else Tokens cs = [] \<and> Partitions cs = [])"

definition state_ok :: "cluster_state \<Rightarrow> bool" where
  "state_ok cs \<longleftrightarrow> nodes_ok cs \<and> sized cs \<and> ownership (tok_sets cs) (tok_owner cs)
     \<and> ownership (held_sets cs) (holder_of cs) \<and> ownership (owned_sets cs) (owner_of cs)"

section \<open>Replica maps\<close>

lemma rm_get_update: "rm_get (AList.update p rs m) q = (if q = p then rs else rm_get m q)"
  by (simp add: rm_get_def update_conv')

lemma rm_get_delete: "rm_get (AList.delete p m) q = (if q = p then [] else rm_get m q)"
  by (simp add: rm_get_def delete_conv')

lemma set_AList_delete: "set (AList.delete k m) \<subseteq> set m"
  by (auto simp: AList.delete_eq)

lemma set_AList_update': "set (AList.update k v m) \<subseteq> insert (k, v) (set m)"
  by (induction m) auto

lemma rm_ok_update: "rm_ok m \<Longrightarrow> distinct rs \<Longrightarrow> rm_ok (AList.update p rs m)"
  using set_AList_update' [of p rs m] by (fastforce simp: rm_ok_def distinct_update)

lemma rm_ok_delete: "rm_ok m \<Longrightarrow> rm_ok (AList.delete p m)"
  using set_AList_delete [of p m] by (fastforce simp: rm_ok_def distinct_delete)

lemma distinct_set_add [simp]: "distinct (set_add x xs) = distinct xs"
  by (auto simp: set_add_def)

lemma distinct_set_del [simp]: "distinct xs \<Longrightarrow> distinct (set_del x xs)"
  by (auto simp: set_del_def)

lemma rm_ok_get: "rm_ok m \<Longrightarrow> distinct (rm_get m p)"
  by (auto simp: rm_ok_def rm_get_def split: option.splits dest: map_of_SomeD)

lemma map_pairs_set: "rm_ok m \<Longrightarrow> set (map_pairs m) = rm_set m"
  by (auto simp: map_pairs_def rm_set_def rm_get_def rm_ok_def split: option.splits
      dest: map_of_SomeD)

lemma map_pairs_distinct: "rm_ok m \<Longrightarrow> distinct (map_pairs m)"
proof (induction m)
  case (Cons a m)
  obtain p rs where a: "a = (p, rs)" by fastforce
  have "p \<notin> fst ` set m" using Cons.prems a by (simp add: rm_ok_def)
  then have "set (map (\<lambda>r. (p, r)) rs) \<inter> set (map_pairs m) = {}" by (force simp: map_pairs_def)
  moreover have "distinct (map_pairs m)" using Cons by (simp add: rm_ok_def)
  moreover have "distinct (map (\<lambda>r. (p, r)) rs)" using Cons.prems a by (simp add: rm_ok_def distinct_map inj_on_def)
  ultimately show ?case by (simp add: map_pairs_def a)
qed (simp add: map_pairs_def)

text \<open>The four replica operations, as one pair over the map they work on.\<close>

definition rm_take :: "u64 \<Rightarrow> u64 \<Rightarrow> replica_map \<Rightarrow> replica_map" where
  "rm_take p r m = AList.update p (set_add r (rm_get m p)) m"

definition rm_drop :: "u64 \<Rightarrow> u64 \<Rightarrow> replica_map \<Rightarrow> replica_map" where
  "rm_drop p r m = (case map_of m p of None \<Rightarrow> m
     | Some rs \<Rightarrow> if set_del r rs = [] then AList.delete p m else AList.update p (set_del r rs) m)"

lemma take_held: "takePartitionReplica p r nc = nc\<lparr>PartitionReplicas := rm_take p r (PartitionReplicas nc)\<rparr>"
  by (simp add: takePartitionReplica_def rm_take_def)

lemma take_owned:
  "takePartitionReplicaOwnership p r nc = nc\<lparr>OwnedPartitionReplicas := rm_take p r (OwnedPartitionReplicas nc)\<rparr>"
  by (simp add: takePartitionReplicaOwnership_def rm_take_def)

lemma drop_held_rm: "relinquishPartitionReplica p r nc = nc\<lparr>PartitionReplicas := rm_drop p r (PartitionReplicas nc)\<rparr>"
  by (simp add: relinquishPartitionReplica_def rm_drop_def Let_def split: option.split)

lemma drop_owned_rm:
  "relinquishPartitionReplicaOwnership p r nc = nc\<lparr>OwnedPartitionReplicas := rm_drop p r (OwnedPartitionReplicas nc)\<rparr>"
  by (simp add: relinquishPartitionReplicaOwnership_def rm_drop_def Let_def split: option.split)

lemma rm_set_take [simp]: "rm_set (rm_take p r m) = insert (p, r) (rm_set m)"
  by (auto simp: rm_set_def rm_take_def rm_get_update split: if_splits)

lemma rm_get_drop: "set (rm_get (rm_drop p r m) q) = (if q = p then set (rm_get m p) - {r} else set (rm_get m q))"
proof (cases "map_of m p")
  case None
  then show ?thesis by (simp add: rm_drop_def rm_get_def)
next
  case (Some rs)
  have "set_del r rs = [] \<Longrightarrow> set rs - {r} = {}" by (metis set_set_del list.set(1))
  with Some show ?thesis
    by (simp add: rm_drop_def rm_get_update rm_get_delete) (simp add: rm_get_def)
qed

lemma rm_set_drop [simp]: "rm_set (rm_drop p r m) = rm_set m - {(p, r)}"
  unfolding rm_set_def rm_get_drop by (auto split: if_splits)

lemma rm_ok_take: "rm_ok m \<Longrightarrow> rm_ok (rm_take p r m)"
  by (simp add: rm_take_def rm_ok_update rm_ok_get)

lemma rm_ok_drop: "rm_ok m \<Longrightarrow> rm_ok (rm_drop p r m)"
  by (auto simp: rm_drop_def rm_ok_delete intro!: rm_ok_update split: option.split)
    (auto simp: rm_ok_def dest!: map_of_SomeD)

lemmas node_op_defs = take_held take_owned drop_held_rm drop_owned_rm relinquishToken_def takeToken_def

lemma node_ok_ops [inv_intros]:
  assumes "node_ok n nc"
  shows "node_ok n (takePartitionReplica p r nc)" "node_ok n (relinquishPartitionReplica p r nc)"
    "node_ok n (takePartitionReplicaOwnership p r nc)" "node_ok n (relinquishPartitionReplicaOwnership p r nc)"
    "node_ok n (takeToken t nc)" "node_ok n (relinquishToken t nc)"
  using assms by (simp_all add: node_ok_def node_op_defs rm_ok_take rm_ok_drop)

section \<open>The shared contract of the ownership operations\<close>

definition node_ids :: "cluster_state \<Rightarrow> u64 set" where
  "node_ids cs = dom (map_of (Nodes cs))"

lemma ownership_reassign:
  assumes "ownership V P" "P k = Some cur" "n = 0 \<or> V n \<noteq> None"
    and "V1 = (if cur = 0 then V else V(cur := map_option (\<lambda>S. S - {k}) (V cur)))"
  shows "ownership (if n = 0 then V1 else V1(n := map_option (insert k) (V1 n))) (P(k \<mapsto> n))"
proof -
  have V: "V m = Some {k. P k = Some m}" if "V m \<noteq> None" for m
    using assms(1) that unfolding ownership_def by blast
  have V0: "V 0 = None" and own: "P j = Some m \<Longrightarrow> m = 0 \<or> V m \<noteq> None" for j m
    using assms(1) unfolding ownership_def by blast+
  have V1: "V1 m = (if V m = None then None else Some ({j. P j = Some m} - {k}))" for m
    using V [of m] assms(2,4) V0 by auto
  show ?thesis
    unfolding ownership_def
  proof (intro conjI allI impI)
    fix m S assume "(if n = 0 then V1 else V1(n := map_option (insert k) (V1 n))) m = Some S"
    then show "S = {j. (P(k \<mapsto> n)) j = Some m}"
      using V0 by (auto simp: V1 split: if_splits)
  next
    fix j m assume "(P(k \<mapsto> n)) j = Some m"
    then show "m = 0 \<or> (if n = 0 then V1 else V1(n := map_option (insert k) (V1 n))) m \<noteq> None"
      using own [of j m] assms(3) by (auto simp: V1 split: if_splits)
  next
    show "(if n = 0 then V1 else V1(n := map_option (insert k) (V1 n))) 0 = None"
      using V0 by (simp add: V1)
  qed
qed

definition forget_node :: "u64 \<Rightarrow> ('k \<Rightarrow> u64 option) \<Rightarrow> 'k \<Rightarrow> u64 option" where
  "forget_node n P k = (if P k = Some n then Some 0 else P k)"

locale owned_things =
  fixes sets :: "cluster_state \<Rightarrow> u64 \<Rightarrow> 'k set option"
    and own :: "cluster_state \<Rightarrow> 'k \<Rightarrow> u64 option"
    and release :: "'k \<Rightarrow> node_config \<Rightarrow> node_config"
    and take_thing :: "'k \<Rightarrow> node_config \<Rightarrow> node_config"
    and assign :: "'k \<Rightarrow> u64 \<Rightarrow> cluster_state \<Rightarrow> cluster_state option"
    and rest :: "cluster_state \<Rightarrow> 'r"
  assumes sets_dom: "sets cs n = None \<longleftrightarrow> n \<notin> node_ids cs"
    and release_law: "modify_node n (release k) cs = Some cs' \<Longrightarrow>
          sets cs' = (sets cs)(n := map_option (\<lambda>S. S - {k}) (sets cs n)) \<and> own cs' = own cs \<and> rest cs' = rest cs"
    and take_law: "modify_node n (take_thing k) cs = Some cs' \<Longrightarrow>
          sets cs' = (sets cs)(n := map_option (insert k) (sets cs n)) \<and> own cs' = own cs \<and> rest cs' = rest cs"
    and assign_law: "own cs k = Some m \<Longrightarrow> \<exists>cs'. assign k n cs = Some cs' \<and> sets cs' = sets cs
          \<and> own cs' = (own cs)(k \<mapsto> n) \<and> rest cs' = rest cs \<and> Nodes cs' = Nodes cs"
    and node_laws: "node_ok n nc \<Longrightarrow> node_ok n (release k nc) \<and> node_ok n (take_thing k nc)"
begin

lemma modify_ok:
  assumes "n \<in> node_ids cs" "nodes_ok cs" "\<And>nc. node_ok n nc \<Longrightarrow> node_ok n (f nc)"
  shows "\<exists>cs'. modify_node n f cs = Some cs' \<and> nodes_ok cs' \<and> node_ids cs' = node_ids cs"
proof -
  obtain nc where nc: "map_of (Nodes cs) n = Some nc" using assms(1) by (auto simp: node_ids_def)
  let ?cs = "cs\<lparr>Nodes := AList.update n (f nc) (Nodes cs)\<rparr>"
  have "node_ok n (f nc)" using assms(2,3) nc by (auto simp: nodes_ok_def dest: map_of_SomeD)
  then have "nodes_ok ?cs"
    using assms(2) set_AList_update' [of n "f nc" "Nodes cs"]
    by (fastforce simp: nodes_ok_def distinct_update)
  moreover have "node_ids ?cs = node_ids cs"
    using assms(1) by (auto simp: node_ids_def update_conv')
  ultimately show ?thesis using nc by (simp add: modify_node_def)
qed

definition reassign :: "'k \<Rightarrow> u64 \<Rightarrow> u64 \<Rightarrow> cluster_state \<Rightarrow> cluster_state option" where
  "reassign k cur n cs =
     Option.bind (if cur \<noteq> 0 then modify_node cur (release k) cs else Some cs) (\<lambda>cs.
     Option.bind (assign k n cs) (\<lambda>cs. if n \<noteq> 0 then modify_node n (take_thing k) cs else Some cs))"

lemma reassign_ok:
  assumes own: "ownership (sets cs) (own cs)" and k: "own cs k = Some cur"
    and n: "n = 0 \<or> n \<in> node_ids cs" and ok: "nodes_ok cs"
  shows "\<exists>cs'. reassign k cur n cs = Some cs' \<and> ownership (sets cs') (own cs')
    \<and> own cs' = (own cs)(k \<mapsto> n) \<and> nodes_ok cs' \<and> node_ids cs' = node_ids cs \<and> rest cs' = rest cs"
proof -
  have cur: "cur = 0 \<or> cur \<in> node_ids cs" using own k sets_dom [of cs cur] unfolding ownership_def by metis
  define step1 where "step1 = (if cur \<noteq> 0 then modify_node cur (release k) cs else Some cs)"
  have "\<exists>cs1. step1 = Some cs1 \<and> nodes_ok cs1 \<and> node_ids cs1 = node_ids cs
      \<and> sets cs1 = (if cur = 0 then sets cs else (sets cs)(cur := map_option (\<lambda>S. S - {k}) (sets cs cur)))
      \<and> own cs1 = own cs \<and> rest cs1 = rest cs"
    using modify_ok [of cur cs "release k"] release_law [of cur k cs] node_laws cur ok
    by (cases "cur = 0") (auto simp: step1_def)
  then obtain cs1 where cs1: "step1 = Some cs1" "nodes_ok cs1" "node_ids cs1 = node_ids cs"
      "sets cs1 = (if cur = 0 then sets cs else (sets cs)(cur := map_option (\<lambda>S. S - {k}) (sets cs cur)))"
      "own cs1 = own cs" "rest cs1 = rest cs" by blast
  obtain cs2 where cs2: "assign k n cs1 = Some cs2" "sets cs2 = sets cs1" "own cs2 = (own cs)(k \<mapsto> n)"
      "rest cs2 = rest cs" "Nodes cs2 = Nodes cs1"
    using assign_law [of cs1 k cur n] k cs1(5,6) by auto
  have ok2: "nodes_ok cs2" "node_ids cs2 = node_ids cs" using cs1(2,3) cs2(5) by (simp_all add: nodes_ok_def node_ids_def)
  have V: "ownership (if n = 0 then sets cs1 else (sets cs1)(n := map_option (insert k) (sets cs1 n))) ((own cs)(k \<mapsto> n))"
    using ownership_reassign [OF own k _ cs1(4)] n sets_dom [of cs n] by blast
  show ?thesis
  proof (cases "n = 0")
    case True
    then have "reassign k cur n cs = Some cs2" using cs1(1) cs2(1) by (simp add: reassign_def step1_def)
    moreover have "ownership (sets cs2) (own cs2)" using V cs2(2,3) True by simp
    ultimately show ?thesis using cs2 ok2 by blast
  next
    case False
    obtain cs3 where cs3: "modify_node n (take_thing k) cs2 = Some cs3" "nodes_ok cs3" "node_ids cs3 = node_ids cs"
      using modify_ok [of n cs2 "take_thing k"] node_laws ok2 n False by auto
    have "reassign k cur n cs = Some cs3" using cs1(1) cs2(1) cs3(1) False by (simp add: reassign_def step1_def)
    moreover have "ownership (sets cs3) (own cs3) \<and> own cs3 = (own cs)(k \<mapsto> n) \<and> rest cs3 = rest cs"
      using V take_law [OF cs3(1)] cs2 False by simp
    ultimately show ?thesis using cs3 by blast
  qed
qed

fun drop_things :: "u64 \<Rightarrow> 'k list \<Rightarrow> cluster_state \<Rightarrow> cluster_state option" where
  "drop_things n [] cs = Some cs"
| "drop_things n (k # ks) cs =
     Option.bind (modify_node n (release k) cs) (\<lambda>cs. Option.bind (assign k 0 cs) (\<lambda>cs. drop_things n ks cs))"

lemma drop_things_ok:
  assumes "ownership (sets cs) (own cs)" "distinct ks" "\<forall>k \<in> set ks. own cs k = Some n"
    "n \<noteq> 0" "n \<in> node_ids cs" "nodes_ok cs"
  shows "\<exists>cs'. drop_things n ks cs = Some cs' \<and> ownership (sets cs') (own cs')
    \<and> own cs' = (\<lambda>k. if k \<in> set ks then Some 0 else own cs k) \<and> nodes_ok cs'
    \<and> node_ids cs' = node_ids cs \<and> rest cs' = rest cs"
  using assms
proof (induction ks arbitrary: cs)
  case (Cons k ks)
  have k: "own cs k = Some n" using Cons.prems(3) by simp
  obtain cs1 where cs1: "reassign k n 0 cs = Some cs1" "ownership (sets cs1) (own cs1)"
      "own cs1 = (own cs)(k \<mapsto> 0)" "nodes_ok cs1" "node_ids cs1 = node_ids cs" "rest cs1 = rest cs"
    using reassign_ok [OF Cons.prems(1) k _ Cons.prems(6), of 0] by auto
  have eq: "drop_things n (k # ks) cs = drop_things n ks cs1"
    using cs1(1) Cons.prems(4) by (auto simp: reassign_def split: Option.bind_splits)
  obtain cs2 where cs2: "drop_things n ks cs1 = Some cs2" "ownership (sets cs2) (own cs2)"
      "own cs2 = (\<lambda>j. if j \<in> set ks then Some 0 else own cs1 j)" "nodes_ok cs2"
      "node_ids cs2 = node_ids cs1" "rest cs2 = rest cs1"
  proof -
    have "\<forall>j \<in> set ks. own cs1 j = Some n" using Cons.prems(2,3) cs1(3) by auto
    then show ?thesis
      using that Cons.IH [OF cs1(2) _ _ Cons.prems(4) _ cs1(4)] Cons.prems(2,5) cs1(5) by auto
  qed
  have "own cs2 = (\<lambda>j. if j \<in> set (k # ks) then Some 0 else own cs j)"
    by (auto simp: cs2(3) cs1(3) fun_eq_iff)
  then show ?case
    unfolding eq using cs2(1,2,4,5,6) cs1(5,6) by (intro exI [of _ cs2] conjI) (assumption | simp)+
qed simp

lemma drop_all_ok:
  assumes "ownership (sets cs) (own cs)" "distinct ks" "set ks = {k. own cs k = Some n}"
    "n \<noteq> 0" "n \<in> node_ids cs" "nodes_ok cs"
  shows "\<exists>cs'. drop_things n ks cs = Some cs' \<and> ownership (sets cs') (own cs')
    \<and> own cs' = forget_node n (own cs) \<and> nodes_ok cs' \<and> node_ids cs' = node_ids cs \<and> rest cs' = rest cs"
proof -
  have "(\<lambda>k. if k \<in> set ks then Some 0 else own cs k) = forget_node n (own cs)"
    by (simp add: assms(3) forget_node_def fun_eq_iff)
  with drop_things_ok [OF assms(1,2) _ assms(4-6)] assms(3) show ?thesis by simp
qed

end

section \<open>Tokens, holders and owners\<close>

lemma modify_node_views:
  assumes "modify_node n f cs = Some cs'"
  shows "map_of (Nodes cs') = (map_of (Nodes cs))(n := map_option f (map_of (Nodes cs) n))"
    "Tokens cs' = Tokens cs" "Partitions cs' = Partitions cs" "ClusterSettings cs' = ClusterSettings cs"
    "RemovedNodes cs' = RemovedNodes cs" "Sites cs' = Sites cs" "Relays cs' = Relays cs"
  using assms by (auto simp: modify_node_def update_conv' split: option.splits)

lemma modify_replica_views:
  assumes "replica_at cs k = Some x"
  shows "\<exists>cs'. modify_replica (fst k) (snd k) f cs = Some cs' \<and> replica_at cs' = (replica_at cs)(k \<mapsto> f x)
    \<and> Nodes cs' = Nodes cs \<and> Tokens cs' = Tokens cs \<and> ClusterSettings cs' = ClusterSettings cs
    \<and> map length (Partitions cs') = map length (Partitions cs)
    \<and> RemovedNodes cs' = RemovedNodes cs \<and> Sites cs' = Sites cs \<and> Relays cs' = Relays cs"
proof -
  obtain p r where k: "k = (p, r)" by fastforce
  let ?P = "Partitions cs" and ?p = "unat p" and ?r = "unat r"
  have in_r: "?p < length ?P" "?r < length (?P ! ?p)" "x = ?P ! ?p ! ?r"
    using assms k by (auto simp: replica_at_def split: if_splits)
  let ?cs = "cs\<lparr>Partitions := ?P[?p := (?P ! ?p)[?r := f (?P ! ?p ! ?r)]]\<rparr>"
  have "replica_at ?cs (a, b) = ((replica_at cs)(k \<mapsto> f x)) (a, b)" for a b
    using in_r k by (auto simp: replica_at_def nth_list_update word_unat_eq_iff)
  then have "replica_at ?cs = (replica_at cs)(k \<mapsto> f x)" by (auto simp: fun_eq_iff)
  moreover have "map length (?P[?p := (?P ! ?p)[?r := f (?P ! ?p ! ?r)]]) = map length ?P"
    using in_r by (intro nth_equalityI) (auto simp: nth_list_update)
  ultimately show ?thesis using in_r k by (simp add: modify_replica_def Let_def)
qed

lemma set_token_views:
  assumes "tok_owner cs t = Some m"
  shows "\<exists>cs'. set_token t n cs = Some cs' \<and> tok_owner cs' = (tok_owner cs)(t \<mapsto> n) \<and> Nodes cs' = Nodes cs
    \<and> Partitions cs' = Partitions cs \<and> ClusterSettings cs' = ClusterSettings cs
    \<and> length (Tokens cs') = length (Tokens cs)
    \<and> RemovedNodes cs' = RemovedNodes cs \<and> Sites cs' = Sites cs \<and> Relays cs' = Relays cs"
proof -
  have t: "unat t < length (Tokens cs)" using assms by (auto simp: tok_owner_def split: if_splits)
  then have "tok_owner (cs\<lparr>Tokens := (Tokens cs)[unat t := n]\<rparr>) = (tok_owner cs)(t \<mapsto> n)"
    by (auto simp: fun_eq_iff tok_owner_def nth_list_update word_unat_eq_iff)
  with t show ?thesis by (simp add: set_token_def)
qed

text \<open>What each operation leaves alone.\<close>

definition misc :: "cluster_state \<Rightarrow> cluster_settings \<times> nat \<times> nat list \<times> u64_set option \<times> string list option
    \<times> (string \<times> string) list option \<times> (u64 \<Rightarrow> u64 option)" where
  "misc cs = (ClusterSettings cs, length (Tokens cs), map length (Partitions cs), RemovedNodes cs, Sites cs, Relays cs,
     \<lambda>n. map_option Capacity (map_of (Nodes cs) n))"

lemmas view_defs = tok_sets_def tok_owner_def held_sets_def owned_sets_def holder_of_def owner_of_def
  replica_at_def misc_def

interpretation tok: owned_things tok_sets tok_owner relinquishToken takeToken set_token
  "\<lambda>cs. (held_sets cs, holder_of cs, owned_sets cs, owner_of cs, misc cs)"
proof unfold_locales
  fix cs cs' n k m and nc :: node_config
  show "tok_sets cs n = None \<longleftrightarrow> n \<notin> node_ids cs" by (auto simp: tok_sets_def node_ids_def)
  show "tok_sets cs' = (tok_sets cs)(n := map_option (\<lambda>S. S - {k}) (tok_sets cs n)) \<and> tok_owner cs' = tok_owner cs
      \<and> (held_sets cs', holder_of cs', owned_sets cs', owner_of cs', misc cs')
        = (held_sets cs, holder_of cs, owned_sets cs, owner_of cs, misc cs)"
    if "modify_node n (relinquishToken k) cs = Some cs'"
    using modify_node_views [OF that]
    by (auto simp: tok_sets_def tok_owner_def held_sets_def owned_sets_def holder_of_def owner_of_def replica_at_def
        misc_def node_op_defs fun_eq_iff option.map_comp comp_def)
  show "tok_sets cs' = (tok_sets cs)(n := map_option (insert k) (tok_sets cs n)) \<and> tok_owner cs' = tok_owner cs
      \<and> (held_sets cs', holder_of cs', owned_sets cs', owner_of cs', misc cs')
        = (held_sets cs, holder_of cs, owned_sets cs, owner_of cs, misc cs)"
    if "modify_node n (takeToken k) cs = Some cs'"
    using modify_node_views [OF that]
    by (auto simp: tok_sets_def tok_owner_def held_sets_def owned_sets_def holder_of_def owner_of_def replica_at_def
        misc_def node_op_defs fun_eq_iff option.map_comp comp_def)
  show "\<exists>cs'. set_token k n cs = Some cs' \<and> tok_sets cs' = tok_sets cs \<and> tok_owner cs' = (tok_owner cs)(k \<mapsto> n)
      \<and> (held_sets cs', holder_of cs', owned_sets cs', owner_of cs', misc cs')
        = (held_sets cs, holder_of cs, owned_sets cs, owner_of cs, misc cs) \<and> Nodes cs' = Nodes cs"
    if m: "tok_owner cs k = Some m"
  proof -
    obtain cs' where "set_token k n cs = Some cs'" "tok_owner cs' = (tok_owner cs)(k \<mapsto> n)" "Nodes cs' = Nodes cs"
        "Partitions cs' = Partitions cs" "ClusterSettings cs' = ClusterSettings cs" "length (Tokens cs') = length (Tokens cs)"
        "RemovedNodes cs' = RemovedNodes cs" "Sites cs' = Sites cs" "Relays cs' = Relays cs"
      using set_token_views [OF m, of n] by blast
    then show ?thesis
      by (auto simp: tok_sets_def held_sets_def owned_sets_def holder_of_def owner_of_def replica_at_def misc_def fun_eq_iff)
  qed
  show "node_ok n (relinquishToken k nc) \<and> node_ok n (takeToken k nc)" if "node_ok n nc"
    using that by (simp add: node_ok_ops)
qed

interpretation hol: owned_things held_sets holder_of
  "\<lambda>k. relinquishPartitionReplica (fst k) (snd k)" "\<lambda>k. takePartitionReplica (fst k) (snd k)"
  "\<lambda>k n. modify_replica (fst k) (snd k) (\<lambda>x. x\<lparr>Holder := n\<rparr>)"
  "\<lambda>cs. (tok_sets cs, tok_owner cs, owned_sets cs, owner_of cs, misc cs)"
proof unfold_locales
  fix cs cs' n m and k :: "u64 \<times> u64" and nc :: node_config
  show "held_sets cs n = None \<longleftrightarrow> n \<notin> node_ids cs" by (auto simp: held_sets_def node_ids_def)
  show "held_sets cs' = (held_sets cs)(n := map_option (\<lambda>S. S - {k}) (held_sets cs n)) \<and> holder_of cs' = holder_of cs
      \<and> (tok_sets cs', tok_owner cs', owned_sets cs', owner_of cs', misc cs') = (tok_sets cs, tok_owner cs, owned_sets cs, owner_of cs, misc cs)"
    if "modify_node n (relinquishPartitionReplica (fst k) (snd k)) cs = Some cs'"
    using modify_node_views [OF that]
    by (auto simp: view_defs node_op_defs fun_eq_iff option.map_comp comp_def)
  show "held_sets cs' = (held_sets cs)(n := map_option (insert k) (held_sets cs n)) \<and> holder_of cs' = holder_of cs
      \<and> (tok_sets cs', tok_owner cs', owned_sets cs', owner_of cs', misc cs') = (tok_sets cs, tok_owner cs, owned_sets cs, owner_of cs, misc cs)"
    if "modify_node n (takePartitionReplica (fst k) (snd k)) cs = Some cs'"
    using modify_node_views [OF that]
    by (auto simp: view_defs node_op_defs fun_eq_iff option.map_comp comp_def)
  show "\<exists>cs'. modify_replica (fst k) (snd k) (\<lambda>x. x\<lparr>Holder := n\<rparr>) cs = Some cs' \<and> held_sets cs' = held_sets cs
      \<and> holder_of cs' = (holder_of cs)(k \<mapsto> n) \<and> (tok_sets cs', tok_owner cs', owned_sets cs', owner_of cs', misc cs') = (tok_sets cs, tok_owner cs, owned_sets cs, owner_of cs, misc cs) \<and> Nodes cs' = Nodes cs"
    if m: "holder_of cs k = Some m"
  proof -
    obtain x where x: "replica_at cs k = Some x" using m by (auto simp: holder_of_def)
    obtain cs' where cs': "modify_replica (fst k) (snd k) (\<lambda>x. x\<lparr>Holder := n\<rparr>) cs = Some cs'"
        "replica_at cs' = (replica_at cs)(k \<mapsto> x\<lparr>Holder := n\<rparr>)" "Nodes cs' = Nodes cs" "Tokens cs' = Tokens cs"
        "ClusterSettings cs' = ClusterSettings cs" "map length (Partitions cs') = map length (Partitions cs)"
        "RemovedNodes cs' = RemovedNodes cs" "Sites cs' = Sites cs" "Relays cs' = Relays cs"
      using modify_replica_views [OF x, of "\<lambda>x. x\<lparr>Holder := n\<rparr>"] by blast
    have "holder_of cs' j = map_option Holder (replica_at cs' j)" "owner_of cs' j = map_option Owner (replica_at cs' j)" for j
      by (simp_all add: holder_of_def owner_of_def)
    with cs' x show ?thesis
      by (auto simp: tok_sets_def tok_owner_def held_sets_def owned_sets_def holder_of_def owner_of_def misc_def fun_eq_iff)
  qed
  show "node_ok n (relinquishPartitionReplica (fst k) (snd k) nc) \<and> node_ok n (takePartitionReplica (fst k) (snd k) nc)" if "node_ok n nc"
    using that by (simp add: node_ok_ops)
qed

interpretation own: owned_things owned_sets owner_of
  "\<lambda>k. relinquishPartitionReplicaOwnership (fst k) (snd k)" "\<lambda>k. takePartitionReplicaOwnership (fst k) (snd k)"
  "\<lambda>k n. modify_replica (fst k) (snd k) (\<lambda>x. x\<lparr>Owner := n\<rparr>)"
  "\<lambda>cs. (tok_sets cs, tok_owner cs, held_sets cs, holder_of cs, misc cs)"
proof unfold_locales
  fix cs cs' n m and k :: "u64 \<times> u64" and nc :: node_config
  show "owned_sets cs n = None \<longleftrightarrow> n \<notin> node_ids cs" by (auto simp: owned_sets_def node_ids_def)
  show "owned_sets cs' = (owned_sets cs)(n := map_option (\<lambda>S. S - {k}) (owned_sets cs n)) \<and> owner_of cs' = owner_of cs
      \<and> (tok_sets cs', tok_owner cs', held_sets cs', holder_of cs', misc cs') = (tok_sets cs, tok_owner cs, held_sets cs, holder_of cs, misc cs)"
    if "modify_node n (relinquishPartitionReplicaOwnership (fst k) (snd k)) cs = Some cs'"
    using modify_node_views [OF that]
    by (auto simp: view_defs node_op_defs fun_eq_iff option.map_comp comp_def)
  show "owned_sets cs' = (owned_sets cs)(n := map_option (insert k) (owned_sets cs n)) \<and> owner_of cs' = owner_of cs
      \<and> (tok_sets cs', tok_owner cs', held_sets cs', holder_of cs', misc cs') = (tok_sets cs, tok_owner cs, held_sets cs, holder_of cs, misc cs)"
    if "modify_node n (takePartitionReplicaOwnership (fst k) (snd k)) cs = Some cs'"
    using modify_node_views [OF that]
    by (auto simp: view_defs node_op_defs fun_eq_iff option.map_comp comp_def)
  show "\<exists>cs'. modify_replica (fst k) (snd k) (\<lambda>x. x\<lparr>Owner := n\<rparr>) cs = Some cs' \<and> owned_sets cs' = owned_sets cs
      \<and> owner_of cs' = (owner_of cs)(k \<mapsto> n) \<and> (tok_sets cs', tok_owner cs', held_sets cs', holder_of cs', misc cs') = (tok_sets cs, tok_owner cs, held_sets cs, holder_of cs, misc cs) \<and> Nodes cs' = Nodes cs"
    if m: "owner_of cs k = Some m"
  proof -
    obtain x where x: "replica_at cs k = Some x" using m by (auto simp: owner_of_def)
    obtain cs' where cs': "modify_replica (fst k) (snd k) (\<lambda>x. x\<lparr>Owner := n\<rparr>) cs = Some cs'"
        "replica_at cs' = (replica_at cs)(k \<mapsto> x\<lparr>Owner := n\<rparr>)" "Nodes cs' = Nodes cs" "Tokens cs' = Tokens cs"
        "ClusterSettings cs' = ClusterSettings cs" "map length (Partitions cs') = map length (Partitions cs)"
        "RemovedNodes cs' = RemovedNodes cs" "Sites cs' = Sites cs" "Relays cs' = Relays cs"
      using modify_replica_views [OF x, of "\<lambda>x. x\<lparr>Owner := n\<rparr>"] by blast
    have "holder_of cs' j = map_option Holder (replica_at cs' j)" "owner_of cs' j = map_option Owner (replica_at cs' j)" for j
      by (simp_all add: holder_of_def owner_of_def)
    with cs' x show ?thesis
      by (auto simp: tok_sets_def tok_owner_def held_sets_def owned_sets_def holder_of_def owner_of_def misc_def fun_eq_iff)
  qed
  show "node_ok n (relinquishPartitionReplicaOwnership (fst k) (snd k) nc) \<and> node_ok n (takePartitionReplicaOwnership (fst k) (snd k) nc)" if "node_ok n nc"
    using that by (simp add: node_ok_ops)
qed

end
