(* ===== verification/Cluster_State_Laws.thy ===== *)
theory Cluster_State_Laws
  imports Cluster_Ownership
begin

text \<open>
  Every operation of the cluster state preserves \<open>state_ok\<close> and does not panic under it, with
  its effect stated on the ownership views.
\<close>

lemma sized_misc: "misc cs' = misc cs \<Longrightarrow> sized cs' = sized cs"
proof -
  assume m: "misc cs' = misc cs"
  have all: "(\<forall>rs \<in> set P. length rs = n) \<longleftrightarrow> (\<forall>x \<in> set (map length P). x = n)" for P :: "partition_replica list list" and n
    by auto
  have "length (Partitions cs') = length (Partitions cs)" using m by (auto simp: misc_def dest: map_eq_imp_length_eq)
  with m show ?thesis unfolding sized_def all by (auto simp: misc_def)
qed

lemma state_lengths:
  assumes "sized cs"
  shows "length (Tokens cs) < 2 ^ 64 \<and> length (Partitions cs) < 2 ^ 64 \<and> (\<forall>rs \<in> set (Partitions cs). length rs < 2 ^ 64)"
proof -
  have "unat (x :: u64) < 2 ^ 64" for x using unsigned_less [of x, where 'a = nat] by simp
  with assms show ?thesis by (auto simp: sized_def split: if_splits)
qed

lemma of_nat_le_u64: "n < 2 ^ 64 \<Longrightarrow> of_nat n \<le> (x :: u64) \<longleftrightarrow> n \<le> unat x"
  by (simp add: word_le_nat_alt unat_of_nat take_bit_nat_eq_self_iff)

lemma state_ok_parts:
  assumes "state_ok cs"
  shows "nodes_ok cs" "sized cs" "ownership (tok_sets cs) (tok_owner cs)"
    "ownership (held_sets cs) (holder_of cs)" "ownership (owned_sets cs) (owner_of cs)"
  using assms by (simp_all add: state_ok_def)

lemma node_ids_iff: "n \<in> node_ids cs \<longleftrightarrow> map_of (Nodes cs) n \<noteq> None"
  by (auto simp: node_ids_def)

lemma zero_not_node: "state_ok cs \<Longrightarrow> 0 \<notin> node_ids cs"
  using tok.sets_dom [of cs 0] by (auto simp: state_ok_def ownership_def)

section \<open>Assignments\<close>

lemma AssignToken_reassign:
  assumes "\<not> of_nat (length (Tokens cs)) \<le> token" "\<not> (map_of (Nodes cs) node = None \<and> node \<noteq> 0)"
  shows "AssignToken cs node token = map_option (Pair None) (tok.reassign token (Tokens cs ! unat token) node cs)"
  unfolding AssignToken_def tok.reassign_def if_not_P [OF assms(1)] if_not_P [OF assms(2)] Let_def
  by (simp only: map_conv_bind_option comp_def Option.bind_assoc)

lemma AssignToken_ok:
  assumes ok: "state_ok cs"
  shows "\<exists>e cs'. AssignToken cs node token = Some (e, cs') \<and> state_ok cs'
    \<and> node_ids cs' = node_ids cs \<and> misc cs' = misc cs
    \<and> (held_sets cs', holder_of cs', owned_sets cs', owner_of cs') = (held_sets cs, holder_of cs, owned_sets cs, owner_of cs)
    \<and> (if unat token < length (Tokens cs) \<and> (node = 0 \<or> node \<in> node_ids cs)
       then e = None \<and> tok_owner cs' = (tok_owner cs)(token \<mapsto> node)
       else e \<noteq> None \<and> cs' = cs)"
proof -
  note p = state_ok_parts [OF ok]
  have b: "of_nat (length (Tokens cs)) \<le> token \<longleftrightarrow> length (Tokens cs) \<le> unat token"
    using state_lengths [OF p(2)] by (intro of_nat_le_u64) simp
  show ?thesis
  proof (cases "unat token < length (Tokens cs) \<and> (node = 0 \<or> node \<in> node_ids cs)")
    case True
    have own: "tok_owner cs token = Some (Tokens cs ! unat token)" using True by (simp add: tok_owner_def)
    obtain cs' where cs': "tok.reassign token (Tokens cs ! unat token) node cs = Some cs'"
        "ownership (tok_sets cs') (tok_owner cs')" "tok_owner cs' = (tok_owner cs)(token \<mapsto> node)" "nodes_ok cs'"
        "node_ids cs' = node_ids cs"
        "(held_sets cs', holder_of cs', owned_sets cs', owner_of cs', misc cs')
          = (held_sets cs, holder_of cs, owned_sets cs, owner_of cs, misc cs)"
      using tok.reassign_ok [OF p(3) own _ p(1), of node] True by blast
    have "AssignToken cs node token = Some (None, cs')"
      using True b cs'(1) by (auto simp: AssignToken_reassign node_ids_iff)
    moreover have "state_ok cs'" using cs' p sized_misc [of cs' cs] by (simp add: state_ok_def)
    ultimately show ?thesis using True cs' by simp
  next
    case False
    then have "\<exists>e. AssignToken cs node token = Some (Some e, cs)"
      using b by (auto simp: AssignToken_def node_ids_iff)
    then show ?thesis using False ok by auto
  qed
qed

lemma replica_range:
  assumes "sized cs"
  shows "replica_at cs (p, r) \<noteq> None \<longleftrightarrow> \<not> of_nat (length (Partitions cs)) \<le> p
    \<and> \<not> of_nat (length (Partitions cs ! unat p)) \<le> r"
proof -
  note l = state_lengths [OF assms]
  have "of_nat (length (Partitions cs)) \<le> p \<longleftrightarrow> length (Partitions cs) \<le> unat p" using l by (intro of_nat_le_u64) simp
  moreover have "of_nat (length (Partitions cs ! unat p)) \<le> r \<longleftrightarrow> length (Partitions cs ! unat p) \<le> unat r"
    if "unat p < length (Partitions cs)" using l that by (intro of_nat_le_u64) simp
  ultimately show ?thesis by (auto simp: replica_at_def)
qed

lemma AssignPartitionReplica_reassign:
  assumes "\<not> of_nat (length (Partitions cs)) \<le> part" "map_of (Nodes cs) node \<noteq> None"
    and "\<not> of_nat (length (Partitions cs ! unat part)) \<le> replica" "node \<noteq> 0"
  shows "AssignPartitionReplica cs part replica node = map_option (Pair None)
    (hol.reassign (part, replica) (Holder (Partitions cs ! unat part ! unat replica)) node cs)"
  unfolding AssignPartitionReplica_def hol.reassign_def if_not_P [OF assms(1)] if_not_P [OF assms(2)] Let_def
    if_not_P [OF assms(3)] if_P [OF assms(4)] fst_conv snd_conv
  by (simp only: map_conv_bind_option comp_def Option.bind_assoc)

lemma AssignPartitionReplica_ok:
  assumes ok: "state_ok cs"
  shows "\<exists>e cs'. AssignPartitionReplica cs part replica node = Some (e, cs') \<and> state_ok cs'
    \<and> node_ids cs' = node_ids cs \<and> misc cs' = misc cs \<and> tok_owner cs' = tok_owner cs \<and> tok_sets cs' = tok_sets cs
    \<and> (if replica_at cs (part, replica) \<noteq> None \<and> node \<in> node_ids cs
       then e = None \<and> holder_of cs' = (holder_of cs)((part, replica) \<mapsto> node)
       else e \<noteq> None \<and> cs' = cs)"
proof -
  note p = state_ok_parts [OF ok] and r = replica_range [OF state_ok_parts(2) [OF ok], of part replica]
  show ?thesis
  proof (cases "replica_at cs (part, replica) \<noteq> None \<and> node \<in> node_ids cs")
    case True
    let ?x = "Partitions cs ! unat part ! unat replica"
    have own: "holder_of cs (part, replica) = Some (Holder ?x)"
      using True by (auto simp: holder_of_def replica_at_def split: if_splits)
    obtain cs' where cs': "hol.reassign (part, replica) (Holder ?x) node cs = Some cs'"
        "ownership (held_sets cs') (holder_of cs')" "holder_of cs' = (holder_of cs)((part, replica) \<mapsto> node)" "nodes_ok cs'"
        "node_ids cs' = node_ids cs"
        "(tok_sets cs', tok_owner cs', owned_sets cs', owner_of cs', misc cs')
          = (tok_sets cs, tok_owner cs, owned_sets cs, owner_of cs, misc cs)"
      using hol.reassign_ok [OF p(4) own _ p(1), of node] True by blast
    have "AssignPartitionReplica cs part replica node = Some (None, cs')"
    proof -
      have "node \<noteq> 0" using True zero_not_node [OF ok] by auto
      then show ?thesis using AssignPartitionReplica_reassign [of cs part node replica] True r cs'(1) by (simp add: node_ids_iff)
    qed
    moreover have "state_ok cs'" using cs' p sized_misc [of cs' cs] by (simp add: state_ok_def)
    ultimately show ?thesis using True cs' by simp
  next
    case False
    then have "\<exists>e. AssignPartitionReplica cs part replica node = Some (Some e, cs)"
      using r by (auto simp: AssignPartitionReplica_def node_ids_iff Let_def)
    then show ?thesis using False ok by auto
  qed
qed

lemma AssignPartitionReplicaOwnership_reassign:
  assumes "\<not> of_nat (length (Partitions cs)) \<le> part" "map_of (Nodes cs) node \<noteq> None"
    and "\<not> of_nat (length (Partitions cs ! unat part)) \<le> replica" "node \<noteq> 0"
  shows "AssignPartitionReplicaOwnership cs part replica node = map_option (Pair None)
    (own.reassign (part, replica) (Owner (Partitions cs ! unat part ! unat replica)) node cs)"
  unfolding AssignPartitionReplicaOwnership_def own.reassign_def if_not_P [OF assms(1)] if_not_P [OF assms(2)] Let_def
    if_not_P [OF assms(3)] if_P [OF assms(4)] fst_conv snd_conv
  by (simp only: map_conv_bind_option comp_def Option.bind_assoc)

lemma AssignPartitionReplicaOwnership_ok:
  assumes ok: "state_ok cs"
  shows "\<exists>e cs'. AssignPartitionReplicaOwnership cs part replica node = Some (e, cs') \<and> state_ok cs'
    \<and> node_ids cs' = node_ids cs
    \<and> (if replica_at cs (part, replica) \<noteq> None \<and> node \<in> node_ids cs
       then e = None \<and> owner_of cs' = (owner_of cs)((part, replica) \<mapsto> node)
       else e \<noteq> None \<and> cs' = cs)"
proof -
  note p = state_ok_parts [OF ok] and r = replica_range [OF state_ok_parts(2) [OF ok], of part replica]
  show ?thesis
  proof (cases "replica_at cs (part, replica) \<noteq> None \<and> node \<in> node_ids cs")
    case True
    let ?x = "Partitions cs ! unat part ! unat replica"
    have own: "owner_of cs (part, replica) = Some (Owner ?x)"
      using True by (auto simp: owner_of_def replica_at_def split: if_splits)
    obtain cs' where cs': "own.reassign (part, replica) (Owner ?x) node cs = Some cs'"
        "ownership (owned_sets cs') (owner_of cs')" "owner_of cs' = (owner_of cs)((part, replica) \<mapsto> node)" "nodes_ok cs'"
        "node_ids cs' = node_ids cs"
        "(tok_sets cs', tok_owner cs', held_sets cs', holder_of cs', misc cs')
          = (tok_sets cs, tok_owner cs, held_sets cs, holder_of cs, misc cs)"
      using own.reassign_ok [OF p(5) own _ p(1), of node] True by blast
    have "AssignPartitionReplicaOwnership cs part replica node = Some (None, cs')"
    proof -
      have "node \<noteq> 0" using True zero_not_node [OF ok] by auto
      then show ?thesis using AssignPartitionReplicaOwnership_reassign [of cs part node replica] True r cs'(1) by (simp add: node_ids_iff)
    qed
    moreover have "state_ok cs'" using cs' p sized_misc [of cs' cs] by (simp add: state_ok_def)
    ultimately show ?thesis using True cs' by simp
  next
    case False
    then have "\<exists>e. AssignPartitionReplicaOwnership cs part replica node = Some (Some e, cs)"
      using r by (auto simp: AssignPartitionReplicaOwnership_def node_ids_iff Let_def)
    then show ?thesis using False ok by auto
  qed
qed

section \<open>Membership\<close>

lemma ownership_add: "ownership V P \<Longrightarrow> V n = None \<Longrightarrow> n \<noteq> 0 \<Longrightarrow> ownership (V(n \<mapsto> {})) P"
  unfolding ownership_def by (auto, metis option.distinct(1))

lemma rm_set_Nil [simp]: "rm_set [] = {}"
  by (simp add: rm_set_def rm_get_def)

lemma ownership_remove:
  assumes "ownership V P" "\<And>k. P k \<noteq> Some n"
  shows "ownership (V(n := None)) P"
  using assms unfolding ownership_def by auto

definition fresh_node :: "node_config \<Rightarrow> bool" where
  "fresh_node nc \<longleftrightarrow> nc_Tokens nc = [] \<and> PartitionReplicas nc = [] \<and> OwnedPartitionReplicas nc = []"

lemma AddNode_ok:
  assumes ok: "state_ok cs" and f: "fresh_node nc"
  shows "state_ok (AddNode cs nc) \<and> tok_owner (AddNode cs nc) = tok_owner cs
    \<and> holder_of (AddNode cs nc) = holder_of cs
    \<and> node_ids (AddNode cs nc) = node_ids cs \<union> (if NodeID (Address nc) = 0 then {} else {NodeID (Address nc)})"
proof (cases "NodeID (Address nc) = 0 \<or> NodeID (Address nc) \<in> node_ids cs")
  case True
  then have "AddNode cs nc = cs" by (auto simp: AddNode_def node_ids_iff)
  with True ok zero_not_node [OF ok] show ?thesis by auto
next
  case False
  let ?n = "NodeID (Address nc)"
  let ?cs = "cs\<lparr>Nodes := AList.update ?n nc (Nodes cs)\<rparr>"
  note p = state_ok_parts [OF ok]
  have eq: "AddNode cs nc = ?cs" using False by (auto simp: AddNode_def node_ids_iff)
  have m: "map_of (Nodes ?cs) = (map_of (Nodes cs))(?n \<mapsto> nc)" by (simp add: update_conv')
  have nn: "map_of (Nodes cs) ?n = None" using False by (auto simp: node_ids_iff)
  have sets: "tok_sets ?cs = (tok_sets cs)(?n \<mapsto> {})" "held_sets ?cs = (held_sets cs)(?n \<mapsto> {})"
      "owned_sets ?cs = (owned_sets cs)(?n \<mapsto> {})"
    using f by (auto simp: tok_sets_def held_sets_def owned_sets_def fun_eq_iff update_conv' fresh_node_def)
  have owns: "tok_owner ?cs = tok_owner cs" "holder_of ?cs = holder_of cs" "owner_of ?cs = owner_of cs"
    by (auto simp: tok_owner_def holder_of_def owner_of_def replica_at_def fun_eq_iff)
  have none: "tok_sets cs ?n = None" "held_sets cs ?n = None" "owned_sets cs ?n = None"
    using nn by (simp_all add: tok_sets_def held_sets_def owned_sets_def)
  have "node_ok ?n nc" using f False by (simp add: node_ok_def fresh_node_def rm_ok_def)
  then have "nodes_ok ?cs"
    using p(1) set_AList_update' [of ?n nc "Nodes cs"] by (fastforce simp: nodes_ok_def distinct_update)
  moreover have "sized ?cs" using p(2) by (simp add: sized_def)
  ultimately have "state_ok ?cs"
    unfolding state_ok_def sets owns using p(3-5) none False by (simp add: ownership_add)
  then show ?thesis unfolding eq using owns False by (auto simp: node_ids_def update_conv')
qed

lemma drop_held_things: "drop_held n ks cs = hol.drop_things n ks cs"
  by (induction ks arbitrary: cs) (auto intro!: Option.bind_cong)

lemma drop_owned_things: "drop_owned n ks cs = own.drop_things n ks cs"
  by (induction ks arbitrary: cs) (auto intro!: Option.bind_cong)

lemma drop_tokens_things: "drop_tokens n ks cs = tok.drop_things n ks cs"
  by (induction ks arbitrary: cs) (auto intro!: Option.bind_cong)

lemma ownership_forget:
  "ownership V (forget_node n P) \<Longrightarrow> n \<noteq> 0 \<Longrightarrow> ownership (V(n := None)) (forget_node n P)"
  by (rule ownership_remove) (auto simp: forget_node_def)

lemma RemoveNode_ok:
  assumes ok: "state_ok cs" and n: "n \<in> node_ids cs"
  shows "\<exists>cs'. RemoveNode cs n = Some cs' \<and> state_ok cs' \<and> node_ids cs' = node_ids cs - {n}
    \<and> tok_owner cs' = forget_node n (tok_owner cs) \<and> holder_of cs' = forget_node n (holder_of cs)
    \<and> owner_of cs' = forget_node n (owner_of cs) \<and> ClusterSettings cs' = ClusterSettings cs
    \<and> n \<in> set (the (RemovedNodes cs'))"
proof -
  note p = state_ok_parts [OF ok]
  obtain nc where nc: "map_of (Nodes cs) n = Some nc" using n by (auto simp: node_ids_iff)
  have nok: "node_ok n nc" using p(1) nc by (auto simp: nodes_ok_def dest: map_of_SomeD)
  then have n0: "n \<noteq> 0" by (simp add: node_ok_def)
  have held: "set (map_pairs (PartitionReplicas nc)) = {k. holder_of cs k = Some n}" "distinct (map_pairs (PartitionReplicas nc))"
    using p(4) nok nc map_pairs_set map_pairs_distinct by (auto simp: ownership_def held_sets_def node_ok_def)
  have owned: "set (map_pairs (OwnedPartitionReplicas nc)) = {k. owner_of cs k = Some n}" "distinct (map_pairs (OwnedPartitionReplicas nc))"
    using p(5) nok nc map_pairs_set map_pairs_distinct by (auto simp: ownership_def owned_sets_def node_ok_def)
  have toks: "set (nc_Tokens nc) = {k. tok_owner cs k = Some n}" "distinct (nc_Tokens nc)"
    using p(3) nok nc by (auto simp: ownership_def tok_sets_def node_ok_def)
  obtain cs1 where cs1: "drop_held n (map_pairs (PartitionReplicas nc)) cs = Some cs1"
      "ownership (held_sets cs1) (holder_of cs1)" "holder_of cs1 = forget_node n (holder_of cs)" "nodes_ok cs1"
      "node_ids cs1 = node_ids cs" "(tok_sets cs1, tok_owner cs1, owned_sets cs1, owner_of cs1, misc cs1)
        = (tok_sets cs, tok_owner cs, owned_sets cs, owner_of cs, misc cs)"
    using hol.drop_all_ok [OF p(4) held(2,1) n0 n p(1)] unfolding drop_held_things by blast
  obtain cs2 where cs2: "drop_owned n (map_pairs (OwnedPartitionReplicas nc)) cs1 = Some cs2"
      "ownership (owned_sets cs2) (owner_of cs2)" "owner_of cs2 = forget_node n (owner_of cs)" "nodes_ok cs2"
      "node_ids cs2 = node_ids cs" "(tok_sets cs2, tok_owner cs2, held_sets cs2, holder_of cs2, misc cs2)
        = (tok_sets cs1, tok_owner cs1, held_sets cs1, holder_of cs1, misc cs1)"
  proof -
    have "owned_sets cs1 = owned_sets cs" "owner_of cs1 = owner_of cs" using cs1(6) by simp_all
    with that own.drop_all_ok [of cs1, OF _ owned(2) _ n0 _ cs1(4)] owned(1) p(5) n cs1(5) show ?thesis
      unfolding drop_owned_things by auto
  qed
  obtain cs3 where cs3: "drop_tokens n (nc_Tokens nc) cs2 = Some cs3"
      "ownership (tok_sets cs3) (tok_owner cs3)" "tok_owner cs3 = forget_node n (tok_owner cs)" "nodes_ok cs3"
      "node_ids cs3 = node_ids cs" "(held_sets cs3, holder_of cs3, owned_sets cs3, owner_of cs3, misc cs3)
        = (held_sets cs2, holder_of cs2, owned_sets cs2, owner_of cs2, misc cs2)"
  proof -
    have "tok_sets cs2 = tok_sets cs" "tok_owner cs2 = tok_owner cs" using cs1(6) cs2(6) by simp_all
    with that tok.drop_all_ok [of cs2, OF _ toks(2) _ n0 _ cs2(4)] toks(1) p(3) n cs2(5) show ?thesis
      unfolding drop_tokens_things by auto
  qed
  let ?rn = "Some (set_add n (case RemovedNodes cs3 of None \<Rightarrow> [] | Some rn \<Rightarrow> rn))"
  let ?cs = "cs3\<lparr>Nodes := AList.delete n (Nodes cs3), RemovedNodes := ?rn\<rparr>"
  have run: "RemoveNode cs n = Some ?cs" using nc cs1(1) cs2(1) cs3(1) by (simp add: RemoveNode_def Let_def)
  have m: "map_of (Nodes ?cs) = (map_of (Nodes cs3))(n := None)" by (simp add: delete_conv')
  have sets: "tok_sets ?cs = (tok_sets cs3)(n := None)" "held_sets ?cs = (held_sets cs3)(n := None)"
      "owned_sets ?cs = (owned_sets cs3)(n := None)"
    by (auto simp: tok_sets_def held_sets_def owned_sets_def fun_eq_iff delete_conv')
  have owns: "tok_owner ?cs = tok_owner cs3" "holder_of ?cs = holder_of cs3" "owner_of ?cs = owner_of cs3"
    by (auto simp: tok_owner_def holder_of_def owner_of_def replica_at_def fun_eq_iff)
  have mis: "misc cs3 = misc cs" using cs1(6) cs2(6) cs3(6) by simp
  have "nodes_ok ?cs"
    using cs3(4) set_AList_delete [of n "Nodes cs3"] by (fastforce simp: nodes_ok_def distinct_delete)
  moreover have "sized cs3" using p(2) sized_misc [OF mis] by simp
  then have "sized ?cs" by (simp add: sized_def)
  moreover have "ownership (tok_sets ?cs) (tok_owner ?cs)" "ownership (held_sets ?cs) (holder_of ?cs)"
      "ownership (owned_sets ?cs) (owner_of ?cs)"
    unfolding sets owns using cs1 cs2 cs3 n0 by (simp_all add: ownership_forget)
  ultimately have "state_ok ?cs" by (simp add: state_ok_def)
  moreover have "node_ids ?cs = node_ids cs - {n}" using cs3(5) by (auto simp: node_ids_def delete_conv')
  moreover have "ClusterSettings ?cs = ClusterSettings cs" using mis by (simp add: misc_def)
  ultimately show ?thesis using run owns cs1 cs2 cs3 by simp
qed

lemma RemoveNode_absent: "n \<notin> node_ids cs \<Longrightarrow> RemoveNode cs n = Some cs"
  by (auto simp: RemoveNode_def node_ids_iff)

section \<open>Initialization\<close>

text \<open>The arrays are created once, when the settings become complete; before that nobody owns anything.\<close>

lemma ownership_unowned:
  assumes "ownership V P" "\<And>k. P k = None" "\<And>k. Q k \<in> {None, Some 0}"
  shows "ownership V Q"
proof -
  have V: "V n = Some S \<Longrightarrow> S = {} \<and> n \<noteq> 0" for n S using assms(1,2) unfolding ownership_def by auto
  have Q: "Q k = Some n \<Longrightarrow> n = 0" for k n using assms(3) [of k] by auto
  have "V 0 = None" using assms(1) by (simp add: ownership_def)
  with V Q show ?thesis unfolding ownership_def by blast
qed

lemma State_Initialize_ok:
  assumes ok: "state_ok cs" and empty: "\<not> AreInitialized (ClusterSettings cs)"
    and init: "AreInitialized st"
  shows "state_ok (State_Initialize (cs\<lparr>ClusterSettings := st\<rparr>))
    \<and> node_ids (State_Initialize (cs\<lparr>ClusterSettings := st\<rparr>)) = node_ids cs
    \<and> (\<forall>t m. tok_owner (State_Initialize (cs\<lparr>ClusterSettings := st\<rparr>)) t = Some m \<longrightarrow> m = 0)"
proof -
  note p = state_ok_parts [OF ok]
  let ?cs = "State_Initialize (cs\<lparr>ClusterSettings := st\<rparr>)"
  have nil: "Tokens cs = []" "Partitions cs = []" using p(2) empty by (auto simp: sized_def)
  have nodes: "Nodes ?cs = Nodes cs" using init by (simp add: State_Initialize_def Let_def)
  have none: "tok_owner cs k = None" "holder_of cs j = None" "owner_of cs j = None" for k j
    by (auto simp: tok_owner_def holder_of_def owner_of_def replica_at_def nil split: prod.split)
  have zero: "tok_owner ?cs k \<in> {None, Some 0}" "holder_of ?cs j \<in> {None, Some 0}" "owner_of ?cs j \<in> {None, Some 0}" for k j
    using init by (auto simp: State_Initialize_def Let_def tok_owner_def holder_of_def owner_of_def replica_at_def split: prod.split)
  have "tok_sets ?cs = tok_sets cs" "held_sets ?cs = held_sets cs" "owned_sets ?cs = owned_sets cs"
    by (simp_all add: tok_sets_def held_sets_def owned_sets_def nodes fun_eq_iff)
  then have "ownership (tok_sets ?cs) (tok_owner ?cs) \<and> ownership (held_sets ?cs) (holder_of ?cs)
      \<and> ownership (owned_sets ?cs) (owner_of ?cs)"
    using ownership_unowned [OF p(3) none(1) zero(1)] ownership_unowned [OF p(4) none(2) zero(2)] ownership_unowned [OF p(5) none(3) zero(3)] by simp
  moreover have "sized ?cs" using init by (auto simp: sized_def State_Initialize_def Let_def)
  moreover have "nodes_ok ?cs" using p(1) by (simp add: nodes_ok_def nodes)
  moreover have "node_ids ?cs = node_ids cs" by (simp add: node_ids_def nodes)
  moreover have "tok_owner ?cs t = Some m \<Longrightarrow> m = 0" for t m using zero(1) [of t] by auto
  ultimately show ?thesis by (simp add: state_ok_def)
qed

lemma state_ok_frame:
  assumes "Nodes cs' = Nodes cs" "Tokens cs' = Tokens cs" "Partitions cs' = Partitions cs"
    "ClusterSettings cs' = ClusterSettings cs"
  shows "state_ok cs' = state_ok cs"
  unfolding state_ok_def nodes_ok_def sized_def tok_sets_def [abs_def] tok_owner_def [abs_def] held_sets_def [abs_def]
    holder_of_def [abs_def] owned_sets_def [abs_def] owner_of_def [abs_def] replica_at_def assms by (rule refl)

section \<open>Sites and relays\<close>

text \<open>Every relay is unassigned or assigned to an existing site, and the map has one entry per relay.\<close>

definition relays_ok :: "cluster_state \<Rightarrow> bool" where
  "relays_ok cs \<longleftrightarrow> (\<forall>relay site. relay_site cs relay = Some site \<longrightarrow> site = '''' \<or> SiteExists cs site)
     \<and> (\<forall>rs. Relays cs = Some rs \<longrightarrow> distinct (map fst rs))"

lemma relays_okI:
  assumes "\<And>r x. relay_site cs r = Some x \<Longrightarrow> x = [] \<or> SiteExists cs x"
    and "\<And>rs. Relays cs = Some rs \<Longrightarrow> distinct (map fst rs)"
  shows "relays_ok cs"
  using assms by (simp add: relays_ok_def)

lemma SiteExists_ops:
  "SiteExists (AddSite cs s) x \<longleftrightarrow> x = s \<or> SiteExists cs x"
  "SiteExists (AddRelay cs r) x = SiteExists cs x" "SiteExists (RemoveRelay cs r) x = SiteExists cs x"
  "SiteExists (MoveRelay cs r s) x = SiteExists cs x"
  by (auto simp: AddSite_def AddRelay_def RemoveRelay_def MoveRelay_def SiteExists_def split: option.splits)

lemma relay_site_ops:
  "relay_site (AddSite cs s) x = relay_site cs x"
  "relay_site (AddRelay cs r) x = (if x = r then Some [] else relay_site cs x)"
  "relay_site (RemoveRelay cs r) x = (if x = r then None else relay_site cs x)"
  "relay_site (MoveRelay cs r s) x = (if x = r \<and> relay_site cs r \<noteq> None \<and> Sites cs \<noteq> None \<and> (SiteExists cs s \<or> s = [])
     then Some s else relay_site cs x)"
  by (cases "Relays cs"; cases "Sites cs";
      simp add: AddSite_def AddRelay_def RemoveRelay_def MoveRelay_def relay_site_def SiteExists_def update_conv' delete_conv')+

lemma distinct_relay_ops:
  assumes "relays_ok cs"
  shows "Relays (AddSite cs s) = Some rs \<Longrightarrow> distinct (map fst rs)"
    "Relays (AddRelay cs r) = Some rs \<Longrightarrow> distinct (map fst rs)"
    "Relays (RemoveRelay cs r) = Some rs \<Longrightarrow> distinct (map fst rs)"
    "Relays (MoveRelay cs r s) = Some rs \<Longrightarrow> distinct (map fst rs)"
  using assms
  by (cases "Relays cs"; cases "Sites cs";
      auto simp: relays_ok_def AddSite_def AddRelay_def RemoveRelay_def MoveRelay_def distinct_update distinct_delete
        split: if_splits)+

lemma relays_ok_site: "relays_ok cs \<Longrightarrow> relay_site cs r = Some x \<Longrightarrow> x = [] \<or> SiteExists cs x"
  by (simp add: relays_ok_def)

lemma relays_ok_ops [inv_intros]:
  assumes "relays_ok cs"
  shows "relays_ok (AddSite cs s)" "relays_ok (AddRelay cs r)" "relays_ok (RemoveRelay cs r)" "relays_ok (MoveRelay cs r s)"
  by (auto intro!: relays_okI simp: SiteExists_ops relay_site_ops split: if_splits
      dest: relays_ok_site [OF assms] distinct_relay_ops [OF assms])

lemma map_of_clear:
  fixes rs :: "(string \<times> string) list"
  shows "map_of (map (\<lambda>(r, s). if s0 = s then (r, []) else (r, s)) rs) r
     = map_option (\<lambda>s. if s0 = s then [] else s) (map_of rs r)"
proof -
  have "(\<lambda>(r :: string, s). if s0 = s then (r, []) else (r, s)) = (\<lambda>(r, s). (r, if s0 = s then [] else s))"
    by (simp add: fun_eq_iff)
  then show ?thesis by (simp only: map_of_map comp_def)
qed

lemma relays_ok_RemoveSite:
  assumes "relays_ok cs" "SiteExists cs s"
  shows "relays_ok (RemoveSite cs s) \<and> \<not> SiteExists (RemoveSite cs s) s
    \<and> relay_site (RemoveSite cs s) r = map_option (\<lambda>x. if x = s then '''' else x) (relay_site cs r)"
proof -
  obtain ss where ss: "Sites cs = Some ss" using assms(2) by (auto simp: SiteExists_def split: option.splits)
  have site: "relay_site (RemoveSite cs s) r = map_option (\<lambda>x. if x = s then '''' else x) (relay_site cs r)" for r
    using ss by (cases "Relays cs") (auto simp: relay_site_def RemoveSite_def map_of_clear intro!: option.map_cong)
  have ex: "SiteExists (RemoveSite cs s) x \<longleftrightarrow> SiteExists cs x \<and> x \<noteq> s" for x
    using ss by (auto simp: SiteExists_def RemoveSite_def)
  have "distinct (map fst rs)" if rs: "Relays (RemoveSite cs s) = Some rs" for rs
  proof -
    obtain rs0 where rs0: "Relays cs = Some rs0" "rs = map (\<lambda>(r, x). if s = x then (r, '''') else (r, x)) rs0"
      using rs ss by (auto simp: RemoveSite_def)
    have "map fst rs = map fst rs0" unfolding rs0(2) by (auto simp: o_def)
    with rs0(1) show ?thesis using assms(1) by (simp add: relays_ok_def)
  qed
  moreover have "x = '''' \<or> SiteExists (RemoveSite cs s) x" if "relay_site (RemoveSite cs s) r = Some x" for r x
    using that assms(1) by (auto simp: site ex relays_ok_def split: if_splits)
  ultimately show ?thesis using site ex by (auto simp: relays_ok_def)
qed

end
