(* ===== verification/Token_Assignment.thy ===== *)
theory Token_Assignment
  imports Partitioner_Laws
begin

text \<open>
  Correctness of \<open>AssignTokens\<close>. The loops keep the per-node token counts equal to the
  number of tokens assigned to the node (\<open>counts_ok\<close>). Releasing frees exactly the tokens of decommissioned nodes;
  placing finds a home for every free token, because not all nodes in service can be at the ceiling; and
  balancing never takes from a node at or below the floor and cannot stop before a node has
  reached it.
\<close>

section \<open>Counting\<close>

lemma count_list_update:
  assumes "t < length a"
  shows "count_list (a[t := v]) x + (if a ! t = x then 1 else 0) = count_list a x + (if v = x then 1 else 0)"
  using assms
proof (induction a arbitrary: t)
  case (Cons y ys)
  show ?case using Cons.IH [of "t - 1"] Cons.prems by (cases t) auto
qed simp

lemma count_list_pos: "t < length a \<Longrightarrow> a ! t = x \<Longrightarrow> 0 < count_list a x"
  by (metis count_list_0_iff nth_mem gr0I)

lemma count_list_card: "count_list a x = card {i. i < length a \<and> a ! i = x}"
  by (simp add: count_list_eq_length_filter length_filter_conv_card eq_commute)

definition avail_ids :: "node_config list \<Rightarrow> u64 set" where
  "avail_ids nodes = {node_id n | n. n \<in> set nodes \<and> Capacity n \<noteq> 0}"

definition counts_ok :: "node_config list \<Rightarrow> assign_state \<Rightarrow> bool" where
  "counts_ok nodes st \<longleftrightarrow> length (snd st) = length nodes \<and> length (fst st) < 2 ^ 64
     \<and> (\<forall>j < length nodes. unat (snd st ! j) = count_list (fst st) (node_id (nodes ! j)))"

definition ids_ok :: "node_config list \<Rightarrow> bool" where
  "ids_ok nodes \<longleftrightarrow> distinct (map node_id nodes) \<and> 0 \<notin> node_id ` set nodes"

lemma sorted_loop_ids: "sorted_loop l nodes \<Longrightarrow> distinct (map node_id nodes) \<and> (\<forall>n \<in> set nodes. l < node_id n)"
proof (induction l nodes rule: sorted_loop.induct)
  case (2 l n ns)
  then have "l < node_id n" "distinct (map node_id ns)" "\<forall>m \<in> set ns. node_id n < node_id m"
    by (auto split: if_splits simp: not_le)
  then show ?case by (auto dest: less_trans)
qed simp

lemma ids_ok_sorted: "nodesAreSortedAndUnique nodes \<Longrightarrow> ids_ok nodes"
  using sorted_loop_ids [of 0 nodes] by (auto simp: nodesAreSortedAndUnique_def ids_ok_def)

lemma ids_ok_inj: "ids_ok nodes \<Longrightarrow> i < length nodes \<Longrightarrow> j < length nodes \<Longrightarrow>
    node_id (nodes ! i) = node_id (nodes ! j) \<longleftrightarrow> i = j"
  unfolding ids_ok_def by (metis (no_types, lifting) distinct_conv_nth length_map nth_map)

lemma ids_ok_nonzero: "ids_ok nodes \<Longrightarrow> i < length nodes \<Longrightarrow> node_id (nodes ! i) \<noteq> 0"
  by (force simp: ids_ok_def)

lemma avail_idsI: "i < length nodes \<Longrightarrow> Capacity (nodes ! i) \<noteq> 0 \<Longrightarrow> node_id (nodes ! i) \<in> avail_ids nodes"
  by (auto simp: avail_ids_def intro!: nth_mem)

lemma avail_idsE:
  assumes "x \<in> avail_ids nodes"
  obtains i where "i < length nodes" "Capacity (nodes ! i) \<noteq> 0" "x = node_id (nodes ! i)"
  using assms by (auto simp: avail_ids_def in_set_conv_nth)

lemma countAvailable_eq: "countAvailableNodes nodes = length (filter (\<lambda>n. Capacity n \<noteq> 0) nodes)"
proof -
  have "foldl (\<lambda>k n. if Capacity n = 0 then k else k + 1) k nodes
      = k + length (filter (\<lambda>n. Capacity n \<noteq> 0) nodes)" for k :: nat
    by (induction nodes arbitrary: k) auto
  then show ?thesis by (simp add: countAvailableNodes_def)
qed

lemma card_avail: "ids_ok nodes \<Longrightarrow> card (avail_ids nodes) = countAvailableNodes nodes"
proof -
  assume ok: "ids_ok nodes"
  have "avail_ids nodes = set (map node_id (filter (\<lambda>n. Capacity n \<noteq> 0) nodes))"
    by (auto simp: avail_ids_def)
  moreover have "distinct (map node_id (filter (\<lambda>n. Capacity n \<noteq> 0) nodes))"
    using ok by (simp add: ids_ok_def distinct_map_filter)
  ultimately show ?thesis using distinct_card by (fastforce simp: countAvailable_eq)
qed

lemma finite_avail [simp]: "finite (avail_ids nodes)"
proof -
  have "avail_ids nodes \<subseteq> node_id ` set nodes" by (auto simp: avail_ids_def)
  then show ?thesis by (rule finite_subset) simp
qed

lemma zero_not_avail: "ids_ok nodes \<Longrightarrow> 0 \<notin> avail_ids nodes"
  by (auto simp: avail_ids_def ids_ok_def)

lemma sum_avail:
  assumes "ids_ok nodes" "set a \<subseteq> insert 0 (avail_ids nodes)"
  shows "(\<Sum>x \<in> avail_ids nodes. count_list a x) + count_list a 0 = length a"
proof -
  have "sum (count_list a) (insert 0 (avail_ids nodes)) = length a"
    using assms(2) by (intro sum_count_set) simp_all
  then show ?thesis using zero_not_avail [OF assms(1)] by simp
qed

section \<open>One transfer of a token\<close>

lemma counts_bound: "counts_ok nodes st \<Longrightarrow> j < length nodes \<Longrightarrow> unat (snd st ! j) \<le> length (fst st)"
  by (simp add: counts_ok_def count_le_length)

lemma unat_plus_one: "unat (w :: u64) + 1 < 2 ^ 64 \<Longrightarrow> unat (w + 1) = unat w + 1"
  using unat_add_lem [of w 1] by simp

lemma counts_ok_place:
  assumes ok: "counts_ok nodes (a, c)" and ids: "ids_ok nodes" and i: "i < length nodes"
    and t: "t < length a" "a ! t = 0"
  shows "counts_ok nodes (a[t := node_id (nodes ! i)], c[i := c ! i + 1])"
proof -
  have "count_list a (node_id (nodes ! i)) + 1 \<le> length a"
    using count_list_update [OF t(1), of "node_id (nodes ! i)" "node_id (nodes ! i)"] t ids_ok_nonzero [OF ids i]
      count_le_length [of "a[t := node_id (nodes ! i)]" "node_id (nodes ! i)"] by simp
  then have "unat (c ! i + 1) = unat (c ! i) + 1"
    using ok i by (intro unat_plus_one) (auto simp: counts_ok_def)
  moreover have "count_list (a[t := node_id (nodes ! i)]) (node_id (nodes ! j))
      = count_list a (node_id (nodes ! j)) + (if j = i then 1 else 0)" if "j < length nodes" for j
    using count_list_update [OF t(1), of "node_id (nodes ! i)" "node_id (nodes ! j)"] t(2) ids_ok_nonzero [OF ids that]
      ids_ok_inj [OF ids i that] by auto
  ultimately show ?thesis using ok i by (auto simp: counts_ok_def nth_list_update)
qed

lemma counts_ok_steal:
  assumes ok: "counts_ok nodes st" and ids: "ids_ok nodes" and ij: "i < length nodes" "j < length nodes" "i \<noteq> j"
    and t: "t < length (fst st)" "fst st ! t = node_id (nodes ! j)"
  shows "counts_ok nodes (steal nodes i j t st)"
    "k < length nodes \<Longrightarrow> unat (snd (steal nodes i j t st) ! k) = (if k = i then unat (snd st ! i) + 1
       else if k = j then unat (snd st ! j) - 1 else unat (snd st ! k))"
    "fst (steal nodes i j t st) = (fst st)[t := node_id (nodes ! i)]"
proof -
  obtain a c where st: "st = (a, c)" by fastforce
  let ?a = "a[t := node_id (nodes ! i)]" and ?c = "(c[i := c ! i + 1])[j := c ! j - 1]"
  have s: "steal nodes i j t st = (?a, ?c)" using ij by (simp add: st steal_def Let_def)
  have len: "length c = length nodes" using ok by (simp add: counts_ok_def st)
  have neq: "node_id (nodes ! i) \<noteq> node_id (nodes ! j)" using ids_ok_inj [OF ids ij(1,2)] ij(3) by simp
  have tl: "t < length a" using t(1) by (simp add: st)
  have upd: "count_list ?a (node_id (nodes ! k)) = (if k = i then count_list a (node_id (nodes ! i)) + 1
       else if k = j then count_list a (node_id (nodes ! j)) - 1 else count_list a (node_id (nodes ! k)))"
    if "k < length nodes" for k
    using count_list_update [OF tl, of "node_id (nodes ! i)" "node_id (nodes ! k)"] t(2) neq
      ids_ok_inj [OF ids ij(1) that] ids_ok_inj [OF ids ij(2) that] by (auto simp: st split: if_splits)
  have "count_list a (node_id (nodes ! i)) + 1 \<le> length a"
    using upd [OF ij(1)] count_le_length [of ?a "node_id (nodes ! i)"] by simp
  then have plus: "unat (c ! i + 1) = unat (c ! i) + 1"
    using ok ij(1) by (intro unat_plus_one) (auto simp: counts_ok_def st)
  have "0 < count_list a (node_id (nodes ! j))" using count_list_pos [OF tl] t(2) by (simp add: st)
  then have "c ! j \<noteq> 0" using ok ij(2) by (auto simp: counts_ok_def st)
  then have minus: "unat (c ! j - 1) = unat (c ! j) - 1" by (simp add: unat_minus_one)
  have cnt: "unat (?c ! k) = (if k = i then unat (c ! i) + 1 else if k = j then unat (c ! j) - 1 else unat (c ! k))"
    if "k < length nodes" for k using plus minus len ij that by (auto simp: nth_list_update)
  show "counts_ok nodes (steal nodes i j t st)"
    unfolding s using ok cnt upd by (auto simp: counts_ok_def st)
  show "unat (snd (steal nodes i j t st) ! k) = (if k = i then unat (snd st ! i) + 1
       else if k = j then unat (snd st ! j) - 1 else unat (snd st ! k))" if "k < length nodes"
    unfolding s using cnt [OF that] by (simp add: st)
  show "fst (steal nodes i j t st) = (fst st)[t := node_id (nodes ! i)]" unfolding s by (simp add: st)
qed

section \<open>Releasing the tokens of decommissioned nodes\<close>

definition tokens_match :: "u64 list \<Rightarrow> node_config \<Rightarrow> bool" where
  "tokens_match a n \<longleftrightarrow> distinct (nc_Tokens n)
     \<and> set (nc_Tokens n) = {t. unat t < length a \<and> a ! unat t = node_id n}"

lemma unat_image_iff: "k < 2 ^ 64 \<Longrightarrow> k \<in> unat ` (S :: u64 set) \<longleftrightarrow> of_nat k \<in> S"
proof -
  assume "k < 2 ^ 64"
  then have u: "unat (of_nat k :: u64) = k" by (simp add: unat_of_nat take_bit_nat_eq_self_iff)
  show ?thesis
  proof
    assume "k \<in> unat ` S"
    then obtain x where "x \<in> S" "k = unat x" by blast
    then show "of_nat k \<in> S" by simp
  next
    assume "of_nat k \<in> S"
    then show "k \<in> unat ` S" using u by (metis image_eqI)
  qed
qed

lemma tokens_match_index:
  assumes "tokens_match a n" "length a < 2 ^ 64" "k < length a"
  shows "k \<in> unat ` set (nc_Tokens n) \<longleftrightarrow> a ! k = node_id n"
proof -
  have k: "k < 2 ^ 64" using assms by simp
  then have "unat (of_nat k :: u64) = k" by (simp add: unat_of_nat take_bit_nat_eq_self_iff)
  then show ?thesis using assms(1,3) unfolding unat_image_iff [OF k] tokens_match_def by simp
qed

lemma tokens_match_less: "tokens_match a n \<Longrightarrow> k \<in> unat ` set (nc_Tokens n) \<Longrightarrow> k < length a"
  by (auto simp: tokens_match_def)

lemma tokens_match_length:
  assumes "tokens_match a n" "length a < 2 ^ 64"
  shows "length (nc_Tokens n) = count_list a (node_id n)"
proof -
  have "i \<in> unat ` set (nc_Tokens n) \<longleftrightarrow> i < length a \<and> a ! i = node_id n" for i
    using tokens_match_index [OF assms, of i] tokens_match_less [OF assms(1)] by blast
  then have "{i. i < length a \<and> a ! i = node_id n} = unat ` set (nc_Tokens n)" by blast
  then have "count_list a (node_id n) = card (unat ` set (nc_Tokens n))" by (simp add: count_list_card)
  also have "\<dots> = card (set (nc_Tokens n))" by (rule card_image) (simp add: inj_on_def word_unat_eq_iff)
  also have "\<dots> = length (nc_Tokens n)" using assms(1) by (intro distinct_card) (simp add: tokens_match_def)
  finally show ?thesis by simp
qed

lemma release_tokens_spec:
  assumes "counts_ok nodes (a, c)" "ids_ok nodes" "i < length nodes" "distinct toks"
    and "\<forall>t \<in> set toks. unat t < length a \<and> a ! unat t = node_id (nodes ! i)"
  shows "\<exists>a' c'. release_tokens toks i (a, c) = Some (a', c') \<and> counts_ok nodes (a', c') \<and> length a' = length a
    \<and> (\<forall>k < length a. a' ! k = (if k \<in> unat ` set toks then 0 else a ! k))"
  using assms
proof (induction toks arbitrary: a c)
  case (Cons t ts)
  let ?a = "a[unat t := 0]" and ?c = "c[i := c ! i - 1]"
  have t: "unat t < length a" "a ! unat t = node_id (nodes ! i)" using Cons.prems(5) by auto
  have "0 < count_list a (node_id (nodes ! i))" using count_list_pos [OF t] .
  then have "c ! i \<noteq> 0" using Cons.prems(1,3) by (auto simp: counts_ok_def)
  then have minus: "unat (c ! i - 1) = unat (c ! i) - 1" by (simp add: unat_minus_one)
  have upd: "count_list ?a (node_id (nodes ! k)) = (if k = i then count_list a (node_id (nodes ! i)) - 1
      else count_list a (node_id (nodes ! k)))" if "k < length nodes" for k
    using count_list_update [OF t(1), of 0 "node_id (nodes ! k)"] t(2) ids_ok_inj [OF Cons.prems(2,3) that]
      ids_ok_nonzero [OF Cons.prems(2) that] by (auto split: if_splits)
  have ok: "counts_ok nodes (?a, ?c)" using Cons.prems(1,3) minus upd by (auto simp: counts_ok_def nth_list_update)
  have rest: "\<forall>u \<in> set ts. unat u < length ?a \<and> ?a ! unat u = node_id (nodes ! i)"
    using Cons.prems(4,5) by (auto simp: nth_list_update dest: word_unat_eq_iff [THEN iffD2])
  obtain a' c' where r: "release_tokens ts i (?a, ?c) = Some (a', c')" "counts_ok nodes (a', c')" "length a' = length ?a"
      "\<forall>k < length ?a. a' ! k = (if k \<in> unat ` set ts then 0 else ?a ! k)"
    using Cons.IH [OF ok Cons.prems(2,3) _ rest] Cons.prems(4) by auto
  moreover have "a' ! k = (if k \<in> unat ` set (t # ts) then 0 else a ! k)" if "k < length a" for k
    using r(4) that by (auto simp: nth_list_update)
  ultimately show ?case using t(1) by auto
qed simp

lemma release_decommissioned_spec:
  assumes "counts_ok nodes (a, c)" "ids_ok nodes" "nodes = pre @ rest" "\<forall>n \<in> set rest. tokens_match a n"
  shows "\<exists>a' c'. release_decommissioned rest (length pre) (a, c) = Some (a', c') \<and> counts_ok nodes (a', c')
    \<and> length a' = length a
    \<and> (\<forall>k < length a. a' ! k = (if \<exists>n \<in> set rest. Capacity n = 0 \<and> a ! k = node_id n then 0 else a ! k))"
  using assms
proof (induction rest arbitrary: a c pre)
  case (Cons n rest)
  have pre: "nodes = (pre @ [n]) @ rest" using Cons.prems(3) by simp
  show ?case
  proof (cases "Capacity n = 0")
    case False
    then show ?thesis
      using Cons.IH [OF Cons.prems(1,2) pre] Cons.prems(4) by simp
  next
    case True
    have i: "length pre < length nodes" "nodes ! length pre = n" using Cons.prems(3) by simp_all
    have m: "tokens_match a n" using Cons.prems(4) by simp
    obtain a1 c1 where r: "release_tokens (nc_Tokens n) (length pre) (a, c) = Some (a1, c1)" "counts_ok nodes (a1, c1)"
        "length a1 = length a" "\<forall>k < length a. a1 ! k = (if k \<in> unat ` set (nc_Tokens n) then 0 else a ! k)"
    proof -
      have "distinct (nc_Tokens n)" "\<forall>t \<in> set (nc_Tokens n). unat t < length a \<and> a ! unat t = node_id (nodes ! length pre)"
        using m i(2) by (simp_all add: tokens_match_def)
      from release_tokens_spec [OF Cons.prems(1,2) i(1) this] that show ?thesis by blast
    qed
    have len: "length a < 2 ^ 64" using Cons.prems(1) by (simp add: counts_ok_def)
    have a1: "a1 ! k = (if a ! k = node_id n then 0 else a ! k)" if "k < length a" for k
      using r(4) tokens_match_index [OF m len that] that by simp
    have dis: "node_id n' \<noteq> node_id n \<and> node_id n' \<noteq> 0 \<and> node_id n \<noteq> 0" if "n' \<in> set rest" for n'
    proof -
      have "ids_ok (pre @ n # rest)" using Cons.prems(2,3) by simp
      then have "node_id n \<notin> node_id ` set rest" "0 \<notin> node_id ` set rest" "node_id n \<noteq> 0"
        by (auto simp: ids_ok_def)
      with that show ?thesis by (metis image_eqI)
    qed
    have m1: "\<forall>n' \<in> set rest. tokens_match a1 n'"
    proof
      fix n' assume n': "n' \<in> set rest"
      have "tokens_match a n'" using Cons.prems(4) n' by simp
      then show "tokens_match a1 n'"
        unfolding tokens_match_def r(3) using a1 dis [OF n'] by (auto split: if_splits)
    qed
    obtain a' c' where r': "release_decommissioned rest (length (pre @ [n])) (a1, c1) = Some (a', c')"
        "counts_ok nodes (a', c')" "length a' = length a1"
        "\<forall>k < length a1. a' ! k = (if \<exists>n \<in> set rest. Capacity n = 0 \<and> a1 ! k = node_id n then 0 else a1 ! k)"
      using Cons.IH [OF r(2) Cons.prems(2) pre m1] by auto
    have "a' ! k = (if \<exists>n' \<in> set (n # rest). Capacity n' = 0 \<and> a ! k = node_id n' then 0 else a ! k)"
      if "k < length a" for k
      using r'(4) r(3) a1 [OF that] that True dis by auto
    then show ?thesis using r r' True by (intro exI [of _ a'] exI [of _ c']) simp
  qed
qed auto

section \<open>Placing free tokens\<close>

lemma find_home_some:
  assumes j: "j < length nodes" "Capacity (nodes ! j) \<noteq> 0" "c ! j < ceil" and n: "next < length nodes"
  shows "\<exists>i. find_home nodes ceil c next = Some i \<and> i < length nodes \<and> Capacity (nodes ! i) \<noteq> 0"
proof -
  let ?N = "length nodes"
  let ?P = "\<lambda>i. let k = (next + i) mod ?N in Capacity (nodes ! k) \<noteq> 0 \<and> c ! k < ceil"
  let ?i = "(j + ?N - next) mod ?N"
  have N: "0 < ?N" using j(1) by linarith
  have "(next + ?i) mod ?N = (next + (j + ?N - next)) mod ?N" by (simp add: mod_add_right_eq)
  also have "next + (j + ?N - next) = j + ?N" using n by simp
  finally have "(next + ?i) mod ?N = j" using j(1) by simp
  then have "?P ?i" "?i < ?N" using j N by simp_all
  then have "List.find ?P [0..<?N] \<noteq> None" by (auto simp: find_None_iff)
  then obtain i where i: "List.find ?P [0..<?N] = Some i" by blast
  then have "?P i" by (auto simp: find_Some_iff Let_def)
  then show ?thesis using i N by (auto simp: find_home_def Let_def)
qed

lemma room_for_token:
  assumes ok: "counts_ok nodes (a, c)" and ids: "ids_ok nodes" and sub: "set a \<subseteq> insert 0 (avail_ids nodes)"
    and t: "t < length a" "a ! t = 0" and room: "length a \<le> countAvailableNodes nodes * unat ceil"
  shows "\<exists>j < length nodes. Capacity (nodes ! j) \<noteq> 0 \<and> c ! j < ceil"
proof (rule ccontr)
  assume no: "\<not> ?thesis"
  have full: "unat ceil \<le> count_list a x" if x: "x \<in> avail_ids nodes" for x
  proof -
    obtain i where i: "i < length nodes" "Capacity (nodes ! i) \<noteq> 0" "x = node_id (nodes ! i)" using x by (elim avail_idsE)
    then have "\<not> c ! i < ceil" using no by blast
    then have "ceil \<le> c ! i" by (rule leI)
    then show ?thesis using ok i by (simp add: counts_ok_def word_le_nat_alt)
  qed
  have "countAvailableNodes nodes * unat ceil = (\<Sum>x \<in> avail_ids nodes. unat ceil)"
    using card_avail [OF ids] by simp
  also have "\<dots> \<le> (\<Sum>x \<in> avail_ids nodes. count_list a x)" using full by (rule sum_mono)
  also have "\<dots> < length a" using sum_avail [OF ids sub] count_list_pos [OF t] by simp
  finally show False using room by simp
qed

lemma place_tokens_spec:
  assumes "counts_ok nodes (a, c)" "ids_ok nodes" "set a \<subseteq> insert 0 (avail_ids nodes)" "next < length nodes"
    and "\<forall>t \<in> set ts. t < length a" "length a \<le> countAvailableNodes nodes * unat ceil"
  shows "\<exists>a' c'. place_tokens nodes ceil ts next (a, c) = (a', c') \<and> counts_ok nodes (a', c') \<and> length a' = length a
    \<and> set a' \<subseteq> insert 0 (avail_ids nodes) \<and> (\<forall>t < length a. a ! t \<noteq> 0 \<longrightarrow> a' ! t = a ! t)
    \<and> (\<forall>t \<in> set ts. a' ! t \<noteq> 0)"
  using assms
proof (induction ts arbitrary: a c "next")
  case (Cons t ts)
  show ?case
  proof (cases "a ! t = 0")
    case False
    then show ?thesis using Cons.IH [OF Cons.prems(1-4) _ Cons.prems(6)] Cons.prems(5) by auto
  next
    case True
    have t: "t < length a" using Cons.prems(5) by simp
    obtain j where "j < length nodes" "Capacity (nodes ! j) \<noteq> 0" "c ! j < ceil"
      using room_for_token [OF Cons.prems(1-3) t True Cons.prems(6)] by blast
    then obtain i where i: "find_home nodes ceil c next = Some i" "i < length nodes" "Capacity (nodes ! i) \<noteq> 0"
      using find_home_some Cons.prems(4) by blast
    let ?a = "a[t := node_id (nodes ! i)]" and ?c = "c[i := c ! i + 1]"
    have ok: "counts_ok nodes (?a, ?c)" using counts_ok_place [OF Cons.prems(1,2) i(2) t True] .
    have sub: "set ?a \<subseteq> insert 0 (avail_ids nodes)"
      using Cons.prems(3) avail_idsI [OF i(2,3)] set_update_subset_insert [of a t] by blast
    have nx: "(i + 1) mod length nodes < length nodes" using i(2) by (intro mod_less_divisor) linarith
    obtain a' c' where r: "place_tokens nodes ceil ts ((i + 1) mod length nodes) (?a, ?c) = (a', c')"
        "counts_ok nodes (a', c')" "length a' = length ?a" "set a' \<subseteq> insert 0 (avail_ids nodes)"
        "\<forall>t < length ?a. ?a ! t \<noteq> 0 \<longrightarrow> a' ! t = ?a ! t" "\<forall>t \<in> set ts. a' ! t \<noteq> 0"
      using Cons.IH [OF ok Cons.prems(2) sub nx] Cons.prems(5,6) by auto
    have "a' ! t \<noteq> 0" using r(5) t ids_ok_nonzero [OF Cons.prems(2) i(2)] by auto
    moreover have "a' ! u = a ! u" if "u < length a" "a ! u \<noteq> 0" for u
      using r(5) that True by (cases "u = t") auto
    ultimately show ?thesis using r True i(1) by auto
  qed
qed auto

section \<open>Balancing\<close>

text \<open>What a transfer to node \<open>i\<close> keeps: consistent counts, only nodes in service own tokens, and no
  node that had at least \<open>fl\<close> tokens falls below.\<close>

definition balanced :: "node_config list \<Rightarrow> nat \<Rightarrow> u64 \<Rightarrow> assign_state \<Rightarrow> assign_state \<Rightarrow> bool" where
  "balanced nodes i fl st st' \<longleftrightarrow> counts_ok nodes st' \<and> length (fst st') = length (fst st)
     \<and> set (fst st') \<subseteq> avail_ids nodes
     \<and> (\<forall>k < length nodes. fl \<le> snd st ! k \<longrightarrow> fl \<le> snd st' ! k)
     \<and> (\<forall>k < length nodes. k \<noteq> i \<longrightarrow> snd st' ! k \<le> snd st ! k)"

lemma balanced_refl: "counts_ok nodes st \<Longrightarrow> set (fst st) \<subseteq> avail_ids nodes \<Longrightarrow> balanced nodes i fl st st"
  by (simp add: balanced_def)

lemma balanced_trans: "balanced nodes i fl a b \<Longrightarrow> balanced nodes i fl b c \<Longrightarrow> balanced nodes i fl a c"
  unfolding balanced_def by (simp, meson order_trans)

lemma balanced_steal:
  assumes ok: "counts_ok nodes st" and ids: "ids_ok nodes" and sub: "set (fst st) \<subseteq> avail_ids nodes"
    and i: "i < length nodes" "Capacity (nodes ! i) \<noteq> 0" and j: "j < length nodes" "i \<noteq> j" "fl < snd st ! j"
    and t: "t < length (fst st)" "fst st ! t = node_id (nodes ! j)"
  shows "balanced nodes i fl st (steal nodes i j t st)"
proof -
  note s = counts_ok_steal [OF ok ids i(1) j(1,2) t]
  have "set (fst (steal nodes i j t st)) \<subseteq> avail_ids nodes"
    unfolding s(3) using sub avail_idsI [OF i] set_update_subset_insert [of "fst st" t] by blast
  moreover have "fl \<le> snd (steal nodes i j t st) ! k" if "k < length nodes" "fl \<le> snd st ! k" for k
    using s(2) [OF that(1)] that j(3) by (auto simp: word_le_nat_alt word_less_nat_alt split: if_splits)
  moreover have "snd (steal nodes i j t st) ! k \<le> snd st ! k" if "k < length nodes" "k \<noteq> i" for k
    using s(2) [OF that(1)] that by (auto simp: word_le_nat_alt)
  ultimately show ?thesis using s(1) by (simp add: balanced_def)
qed

lemma owner_index_spec:
  assumes ids: "ids_ok nodes" and x: "x \<in> avail_ids nodes"
  shows "owner_index nodes x < length nodes \<and> node_id (nodes ! owner_index nodes x) = x"
proof -
  obtain i where i: "i < length nodes" "x = node_id (nodes ! i)" using x by (elim avail_idsE)
  then have "List.find (\<lambda>j. node_id (nodes ! j) = x) [0..<length nodes] \<noteq> None" by (auto simp: find_None_iff)
  then obtain j where j: "List.find (\<lambda>j. node_id (nodes ! j) = x) [0..<length nodes] = Some j" by blast
  then have "j < length nodes" "node_id (nodes ! j) = x" by (auto simp: find_Some_iff)
  with j show ?thesis by (simp add: owner_index_def)
qed

lemma balanced_spaced:
  assumes "counts_ok nodes st" "ids_ok nodes" "set (fst st) \<subseteq> avail_ids nodes"
    "i < length nodes" "Capacity (nodes ! i) \<noteq> 0"
  shows "balanced nodes i fl st (steal_spaced nodes i fl skip token st)"
  using assms
proof (induction nodes i fl skip token st rule: steal_spaced.induct)
  case (1 nodes i fl skip token st)
  let ?j = "owner_index nodes (fst st ! token)"
  show ?case
  proof (cases "token < length (fst st) \<and> snd st ! i < fl")
    case False
    then show ?thesis using 1(3,5) by (subst steal_spaced.simps) (auto intro: balanced_refl)
  next
    case c: True
    have j: "?j < length nodes" "node_id (nodes ! ?j) = fst st ! token"
      using owner_index_spec [OF 1(4), of "fst st ! token"] c 1(5) nth_mem by blast+
    show ?thesis
    proof (cases "fl < snd st ! ?j")
      case True
      then have "i \<noteq> ?j" using c by (metis not_less_iff_gr_or_eq order_less_trans)
      then have b: "balanced nodes i fl st (steal nodes i ?j token st)"
        using balanced_steal [OF 1(3-7) j(1) _ True] c j(2) by simp
      have "balanced nodes i fl (steal nodes i ?j token st)
          (steal_spaced nodes i fl skip (token + skip + 1) (steal nodes i ?j token st))"
        using 1(1) [OF c refl True] b 1(4,6,7) by (simp add: balanced_def)
      with b show ?thesis using c True by (subst steal_spaced.simps) (auto simp: Let_def intro: balanced_trans)
    next
      case False
      then show ?thesis using 1(2) [OF c refl False] 1(3-7) c by (subst steal_spaced.simps) (simp add: Let_def)
    qed
  qed
qed

text \<open>
  A complete pass over the tokens of a node above the floor stops exactly when the node
  is at the floor: otherwise it would own no token and still have a positive count.
\<close>

lemma steal_from_spec:
  assumes "counts_ok nodes st" "ids_ok nodes" "set (fst st) \<subseteq> avail_ids nodes"
    "i < length nodes" "Capacity (nodes ! i) \<noteq> 0" "j < length nodes" "i \<noteq> j" "fl < snd st ! j"
    and "\<forall>t < length (fst st). fst st ! t = node_id (nodes ! j) \<longrightarrow> t \<in> set ts" "\<forall>t \<in> set ts. t < length (fst st)"
    "distinct ts"
  shows "balanced nodes i fl st (steal_from nodes i fl j ts st) \<and> snd (steal_from nodes i fl j ts st) ! j = fl"
  using assms
proof (induction ts arbitrary: st)
  case Nil
  have "node_id (nodes ! j) \<notin> set (fst st)" using Nil.prems(9) by (auto simp: in_set_conv_nth)
  then have "count_list (fst st) (node_id (nodes ! j)) = 0" by (simp add: count_list_0_iff)
  then have "unat (snd st ! j) = 0" using Nil.prems(1,6) by (simp add: counts_ok_def)
  with Nil.prems(8) show ?case by (simp add: word_less_nat_alt)
next
  case (Cons t ts)
  let ?st = "steal nodes i j t st"
  show ?case
  proof (cases "fst st ! t = node_id (nodes ! j)")
    case False
    then have "\<forall>u < length (fst st). fst st ! u = node_id (nodes ! j) \<longrightarrow> u \<in> set ts" using Cons.prems(9) by fastforce
    moreover have "\<forall>u \<in> set ts. u < length (fst st)" "distinct ts" using Cons.prems(10,11) by simp_all
    moreover have "steal_from nodes i fl j (t # ts) st = steal_from nodes i fl j ts st" using False by simp
    ultimately show ?thesis using Cons.IH [OF Cons.prems(1-8)] by simp
  next
    case True
    have t: "t < length (fst st)" using Cons.prems(10) by simp
    have b: "balanced nodes i fl st ?st"
      using balanced_steal [OF Cons.prems(1-8) t True] .
    note s = counts_ok_steal [OF Cons.prems(1,2,4,6,7) t True]
    have ge: "fl \<le> snd ?st ! j"
      using s(2) [OF Cons.prems(6)] Cons.prems(7,8) by (simp add: word_le_nat_alt word_less_nat_alt)
    show ?thesis
    proof (cases "snd ?st ! j = fl")
      case True
      then show ?thesis using b \<open>fst st ! t = node_id (nodes ! j)\<close> by (simp add: Let_def)
    next
      case False
      then have gt: "fl < snd ?st ! j" using ge by simp
      have left: "\<forall>u < length (fst ?st). fst ?st ! u = node_id (nodes ! j) \<longrightarrow> u \<in> set ts"
      proof (intro allI impI)
        fix u assume u: "u < length (fst ?st)" "fst ?st ! u = node_id (nodes ! j)"
        have "node_id (nodes ! i) \<noteq> node_id (nodes ! j)"
          using ids_ok_inj [OF Cons.prems(2,4,6)] Cons.prems(7) by simp
        then have "u \<noteq> t" using u t by (auto simp: s(3))
        then show "u \<in> set ts" using u Cons.prems(9) by (auto simp: s(3))
      qed
      have "balanced nodes i fl ?st (steal_from nodes i fl j ts ?st) \<and> snd (steal_from nodes i fl j ts ?st) ! j = fl"
        using Cons.IH [OF _ Cons.prems(2) _ Cons.prems(4-7) gt left] b Cons.prems(10,11) by (simp add: balanced_def)
      then show ?thesis
        using b False \<open>fst st ! t = node_id (nodes ! j)\<close> by (auto simp: Let_def intro: balanced_trans)
    qed
  qed
qed

lemma steal_all_spec:
  assumes "counts_ok nodes st" "ids_ok nodes" "set (fst st) \<subseteq> avail_ids nodes"
    "i < length nodes" "Capacity (nodes ! i) \<noteq> 0" "\<forall>j \<in> set js. j < length nodes"
  shows "balanced nodes i fl st (steal_all nodes i fl js st)
    \<and> (fl \<le> snd (steal_all nodes i fl js st) ! i
       \<or> (\<forall>j \<in> set js. j \<noteq> i \<longrightarrow> snd (steal_all nodes i fl js st) ! j \<le> fl))"
  using assms
proof (induction js arbitrary: st)
  case Nil
  then show ?case by (simp add: balanced_refl)
next
  case (Cons j js)
  have jl: "j < length nodes" using Cons.prems(6) by simp
  show ?case
  proof (cases "snd st ! i < fl")
    case False
    then show ?thesis using Cons.prems(1,3) by (simp add: balanced_refl leI)
  next
    case lt: True
    define st1 where "st1 = (if j = i \<or> snd st ! j \<le> fl then st else steal_from nodes i fl j [0..<length (fst st)] st)"
    have b1: "balanced nodes i fl st st1 \<and> (j \<noteq> i \<longrightarrow> snd st1 ! j \<le> fl)"
      using steal_from_spec [OF Cons.prems(1-5) jl, of fl "[0..<length (fst st)]"] Cons.prems(1,3)
      by (auto simp: st1_def balanced_refl not_le)
    have eq: "steal_all nodes i fl (j # js) st = steal_all nodes i fl js st1" using lt by (simp add: st1_def)
    have IH: "balanced nodes i fl st1 (steal_all nodes i fl js st1)
        \<and> (fl \<le> snd (steal_all nodes i fl js st1) ! i
          \<or> (\<forall>j \<in> set js. j \<noteq> i \<longrightarrow> snd (steal_all nodes i fl js st1) ! j \<le> fl))"
      using Cons.IH [of st1] b1 Cons.prems by (simp add: balanced_def)
    have "j \<noteq> i \<longrightarrow> snd (steal_all nodes i fl js st1) ! j \<le> fl"
      using b1 IH jl by (meson balanced_def order_trans)
    moreover have "balanced nodes i fl st (steal_all nodes i fl js st1)"
      using b1 IH by (blast intro: balanced_trans)
    ultimately show ?thesis unfolding eq using IH by auto
  qed
qed

lemma reaches_floor:
  assumes ok: "counts_ok nodes st" and ids: "ids_ok nodes" and sub: "set (fst st) \<subseteq> avail_ids nodes"
    and i: "i < length nodes" "Capacity (nodes ! i) \<noteq> 0"
    and fl: "countAvailableNodes nodes * unat fl \<le> length (fst st)"
    and others: "fl \<le> snd st ! i \<or> (\<forall>j < length nodes. j \<noteq> i \<longrightarrow> snd st ! j \<le> fl)"
  shows "fl \<le> snd st ! i"
proof (rule ccontr)
  assume lt: "\<not> fl \<le> snd st ! i"
  have cnt: "unat (snd st ! j) = count_list (fst st) (node_id (nodes ! j))" if "j < length nodes" for j
    using ok that by (simp add: counts_ok_def)
  have le: "count_list (fst st) x \<le> unat fl" if "x \<in> avail_ids nodes" for x
  proof -
    obtain j where j: "j < length nodes" "x = node_id (nodes ! j)" using \<open>x \<in> avail_ids nodes\<close> by (elim avail_idsE)
    have "snd st ! j \<le> fl" using others lt j(1) by (cases "j = i") auto
    then show ?thesis using cnt [OF j(1)] j(2) by (simp add: word_le_nat_alt)
  qed
  have "set (fst st) \<subseteq> insert 0 (avail_ids nodes)" using sub by blast
  note sum = sum_avail [OF ids this]
  have "0 \<notin> set (fst st)" using sub zero_not_avail [OF ids] by blast
  then have "count_list (fst st) 0 = 0" by (simp add: count_list_0_iff)
  moreover have "(\<Sum>x \<in> avail_ids nodes. count_list (fst st) x) < (\<Sum>x \<in> avail_ids nodes. unat fl)"
    using le cnt [OF i(1)] lt avail_idsI [OF i]
    by (intro sum_strict_mono_ex1) (auto simp: word_le_nat_alt intro!: bexI [of _ "node_id (nodes ! i)"])
  ultimately show False using sum fl card_avail [OF ids] by simp
qed

lemma balance_nodes_spec:
  assumes "counts_ok nodes st" "ids_ok nodes" "set (fst st) \<subseteq> avail_ids nodes" "\<forall>i \<in> set is. i < length nodes"
    "countAvailableNodes nodes * unat fl \<le> length (fst st)"
  shows "\<exists>st'. balance_nodes nodes fl is st = st' \<and> counts_ok nodes st' \<and> length (fst st') = length (fst st)
    \<and> set (fst st') \<subseteq> avail_ids nodes \<and> (\<forall>k < length nodes. fl \<le> snd st ! k \<longrightarrow> fl \<le> snd st' ! k)
    \<and> (\<forall>i \<in> set is. Capacity (nodes ! i) \<noteq> 0 \<longrightarrow> fl \<le> snd st' ! i)"
  using assms
proof (induction "is" arbitrary: st)
  case (Cons i "is")
  show ?case
  proof (cases "Capacity (nodes ! i) = 0")
    case True
    then show ?thesis using Cons by auto
  next
    case False
    have i: "i < length nodes" using Cons.prems(4) by simp
    define sk where "sk = (let s = length (fst st) div unat fl in if 1 < s then s - 1 else s)"
    define st1 where "st1 = steal_spaced nodes i fl sk 0 st"
    define st2 where "st2 = steal_all nodes i fl [0..<length (snd st1)] st1"
    have eq: "balance_nodes nodes fl (i # is) st = balance_nodes nodes fl is st2"
      using False by (simp add: st2_def st1_def sk_def Let_def)
    have b1: "balanced nodes i fl st st1"
      unfolding st1_def using balanced_spaced [OF Cons.prems(1-3) i False] .
    then have b1': "counts_ok nodes st1" "set (fst st1) \<subseteq> avail_ids nodes" "length (snd st1) = length nodes"
      by (auto simp: balanced_def counts_ok_def)
    have b2: "balanced nodes i fl st1 st2"
        and o2: "fl \<le> snd st2 ! i \<or> (\<forall>j < length nodes. j \<noteq> i \<longrightarrow> snd st2 ! j \<le> fl)"
      using steal_all_spec [OF b1'(1) Cons.prems(2) b1'(2) i False, of "[0..<length (snd st1)]" fl] b1'(3)
      by (auto simp: st2_def)
    have b: "balanced nodes i fl st st2" using b1 b2 by (rule balanced_trans)
    then have len: "length (fst st2) = length (fst st)" by (simp add: balanced_def)
    have fi: "fl \<le> snd st2 ! i"
      using reaches_floor [OF _ Cons.prems(2) _ i False _ o2] b Cons.prems(5) len by (simp add: balanced_def)
    obtain st' where st': "balance_nodes nodes fl is st2 = st'" "counts_ok nodes st'" "length (fst st') = length (fst st2)"
        "set (fst st') \<subseteq> avail_ids nodes" "\<forall>k < length nodes. fl \<le> snd st2 ! k \<longrightarrow> fl \<le> snd st' ! k"
        "\<forall>i \<in> set is. Capacity (nodes ! i) \<noteq> 0 \<longrightarrow> fl \<le> snd st' ! i"
      using Cons.IH [of st2] b Cons.prems len by (auto simp: balanced_def)
    then show ?thesis using eq b fi i len by (intro exI [of _ st']) (auto simp: balanced_def)
  qed
qed auto

section \<open>The whole assignment\<close>

lemma owners_exist_iff: "owners_exist nodes a \<longleftrightarrow> set a \<subseteq> insert 0 (node_id ` set nodes)"
  by (induction a) (auto simp: list_ex_iff)

lemma countTokens_ok:
  assumes "\<forall>n \<in> set nodes. tokens_match a n" "length a < 2 ^ 64"
  shows "counts_ok nodes (a, countTokens nodes)"
proof -
  have "unat (of_nat (length (nc_Tokens n)) :: u64) = count_list a (node_id n)" if "n \<in> set nodes" for n
  proof -
    have "length (nc_Tokens n) = count_list a (node_id n)" using assms that by (intro tokens_match_length) auto
    moreover have "count_list a (node_id n) < 2 ^ 64" using count_le_length [of a "node_id n"] assms(2) by linarith
    ultimately show ?thesis by (simp add: unat_of_nat take_bit_nat_eq_self_iff)
  qed
  then show ?thesis using assms(2) by (simp add: counts_ok_def countTokens_def)
qed

text \<open>The state the assignment starts from: complete, consistent with the nodes' own token sets.\<close>

definition assignable :: "node_config list \<Rightarrow> u64 list \<Rightarrow> u64 \<Rightarrow> bool" where
  "assignable nodes cur partitions \<longleftrightarrow> nodesAreSortedAndUnique nodes \<and> length cur = unat partitions
     \<and> 0 < partitions \<and> (\<forall>n \<in> set nodes. tokens_match cur n) \<and> set cur \<subseteq> insert 0 (node_id ` set nodes)
     \<and> length nodes \<le> unat partitions"

lemma div_ceil:
  assumes "0 < av" "(av :: nat) \<le> unat P" and ceil: "ceil = (if P mod of_nat av \<noteq> 0 then P div of_nat av + 1 else P div (of_nat av :: u64))"
  shows "unat P \<le> av * unat ceil \<and> av * unat (P div of_nat av) \<le> unat P \<and> unat (P div of_nat av) = unat P div av"
proof -
  have P: "unat P < 2 ^ 64" using unsigned_less [of P, where 'a = nat] by simp
  have av: "unat (of_nat av :: u64) = av" using assms(2) P by (simp add: unat_of_nat take_bit_nat_eq_self_iff)
  have fl: "unat (P div of_nat av) = unat P div av" by (simp only: unat_div av)
  have md: "unat (P mod of_nat av) = unat P mod av" by (simp only: unat_mod av)
  have "unat P \<le> av * unat ceil"
  proof (cases "P mod of_nat av = 0")
    case True
    then have "unat P mod av = 0" using md by simp
    then have "av * (unat P div av) = unat P" by (simp add: mod_eq_0_iff_dvd)
    then show ?thesis using True by (simp add: ceil fl)
  next
    case False
    then have m: "0 < unat P mod av" using md by (metis neq0_conv unat_eq_zero)
    have lt: "unat P mod av < av" using assms(1) by simp
    have "1 < av" using m lt by linarith
    then have "unat P div av < unat P" using m by (intro div_less_dividend) (auto intro: Nat.gr0I)
    then have "unat (P div of_nat av + 1) = unat P div av + 1" using P fl by (subst unat_plus_one) simp_all
    moreover have "unat P \<le> av * (unat P div av) + av" using mult_div_mod_eq [of av "unat P"] lt by linarith
    ultimately show ?thesis using False by (simp add: ceil algebra_simps)
  qed
  then show ?thesis using fl by simp
qed

lemma AssignTokens_spec:
  assumes asg: "assignable nodes cur P" and av: "0 < countAvailableNodes nodes"
  shows "\<exists>a. AssignTokens (Some nodes) cur P = Some (Inr a) \<and> length a = unat P \<and> set a \<subseteq> avail_ids nodes
    \<and> (\<forall>n \<in> set nodes. Capacity n \<noteq> 0 \<longrightarrow> unat P div countAvailableNodes nodes \<le> count_list a (node_id n))"
proof -
  let ?av = "countAvailableNodes nodes"
  have sorted: "nodesAreSortedAndUnique nodes" and len: "length cur = unat P" and pos: "0 < P"
    and match: "\<forall>n \<in> set nodes. tokens_match cur n" and own: "set cur \<subseteq> insert 0 (node_id ` set nodes)"
    and few: "length nodes \<le> unat P" using asg by (simp_all add: assignable_def)
  have ids: "ids_ok nodes" using sorted by (rule ids_ok_sorted)
  have P64: "unat P < 2 ^ 64" using unsigned_less [of P, where 'a = nat] by simp
  have avle: "?av \<le> unat P" unfolding countAvailable_eq using few by (rule order_trans [OF length_filter_le])
  define fl where "fl = P div of_nat ?av"
  define ceil where "ceil = (if P mod of_nat ?av \<noteq> 0 then fl + 1 else fl)"
  have arith: "unat P \<le> ?av * unat ceil" "?av * unat fl \<le> unat P" "unat fl = unat P div ?av"
    using div_ceil [OF av avle ceil_def [unfolded fl_def]] unfolding fl_def by blast+
  have pre: "checkPreconditions (Some nodes) cur P = None"
    using sorted len pos own by (simp add: checkPreconditions_def owners_exist_iff)
  have trunc: "\<not> P < of_nat (length nodes)"
    using few P64 by (simp add: word_less_nat_alt unat_of_nat take_bit_nat_eq_self_iff)
  have ok0: "counts_ok nodes (cur, countTokens nodes)" using match len P64 by (intro countTokens_ok) auto
  obtain a1 c1 where r1: "release_decommissioned nodes 0 (cur, countTokens nodes) = Some (a1, c1)"
      "counts_ok nodes (a1, c1)" "length a1 = length cur"
      "\<forall>k < length cur. a1 ! k = (if \<exists>n \<in> set nodes. Capacity n = 0 \<and> cur ! k = node_id n then 0 else cur ! k)"
    using release_decommissioned_spec [OF ok0 ids, of "[]" nodes] match by auto
  have sub1: "set a1 \<subseteq> insert 0 (avail_ids nodes)"
  proof
    fix x assume "x \<in> set a1"
    then obtain k where k: "k < length cur" "x = a1 ! k" using r1(3) by (auto simp: in_set_conv_nth)
    moreover have "cur ! k \<in> insert 0 (node_id ` set nodes)" using own k(1) nth_mem by blast
    ultimately show "x \<in> insert 0 (avail_ids nodes)" using r1(4) by (auto simp: avail_ids_def)
  qed
  have N: "0 < length nodes" using av by (auto simp: countAvailable_eq intro: Nat.gr0I)
  obtain a2 c2 where r2: "place_tokens nodes ceil [0..<length a1] 0 (a1, c1) = (a2, c2)" "counts_ok nodes (a2, c2)"
      "length a2 = length a1" "set a2 \<subseteq> insert 0 (avail_ids nodes)" "\<forall>t \<in> set [0..<length a1]. a2 ! t \<noteq> 0"
    using place_tokens_spec [OF r1(2) ids sub1 N, of "[0..<length a1]" ceil] arith(1) r1(3) len by auto
  have sub2: "set (fst (a2, c2)) \<subseteq> avail_ids nodes"
    using r2(3-5) by (fastforce simp: in_set_conv_nth)
  obtain st where st: "balance_nodes nodes fl [0..<length nodes] (a2, c2) = st" "counts_ok nodes st"
      "length (fst st) = length a2" "set (fst st) \<subseteq> avail_ids nodes"
      "\<forall>i \<in> set [0..<length nodes]. Capacity (nodes ! i) \<noteq> 0 \<longrightarrow> fl \<le> snd st ! i"
    using balance_nodes_spec [OF r2(2) ids sub2, of "[0..<length nodes]" fl] arith(2) r2(3) r1(3) len by auto
  have run: "AssignTokens (Some nodes) cur P = Some (Inr (fst st))"
    using pre trunc av r1(1) r2(1) st(1)
    unfolding AssignTokens_def Let_def fl_def ceil_def by (cases "P mod of_nat ?av = 0") simp_all
  have "unat P div ?av \<le> count_list (fst st) (node_id n)" if n: "n \<in> set nodes" "Capacity n \<noteq> 0" for n
  proof -
    obtain i where i: "i < length nodes" "n = nodes ! i" using n(1) by (auto simp: in_set_conv_nth)
    then have "fl \<le> snd st ! i" using st(5) n(2) by simp
    then show ?thesis using st(2) i arith(3) by (simp add: counts_ok_def word_le_nat_alt)
  qed
  then show ?thesis using run st(3,4) r2(3) r1(3) len by simp
qed

end
