(* ===== verification/Controller_Laws.thy ===== *)
theory Controller_Laws
  imports Controller Cluster_State_Laws Token_Assignment Partitioner_Laws
begin

text \<open>
  The cluster controller as a deterministic state machine. \<open>step_state\<close> is the specification: what a
  command does to the cluster state alone, with no local node, no caches and no deltas. The controller
  refines it as long as its caches agree with its state (\<open>cache_ok\<close>), and every command keeps that
  agreement and the invariants of the state.
\<close>

section \<open>Specification on cluster states\<close>

definition owners_of :: "cluster_state \<Rightarrow> u64 \<Rightarrow> u64 list" where
  "owners_of cs part = Owners (Tokens cs) part (ReplicationFactor (ClusterSettings cs))"

definition spread_tokens :: "cluster_state \<Rightarrow> cluster_state option" where
  "spread_tokens cs =
     Option.bind (AssignTokens (Some (sorted_nodes cs)) (Tokens cs) (cs_Partitions (ClusterSettings cs))) (\<lambda>r.
       let a = (case r of Inl e \<Rightarrow> [] | Inr a \<Rightarrow> a)
       in assign_all (zip a (map of_nat [0..<length a])) cs)"

definition hand_over :: "u64 \<Rightarrow> u64 \<Rightarrow> cluster_state \<Rightarrow> cluster_state option" where
  "hand_over old new cs =
     (case map_of (Nodes cs) old of
        None \<Rightarrow> None
      | Some nc \<Rightarrow>
          Option.bind (modify_node new (\<lambda>x. x\<lparr>Capacity := Capacity nc\<rparr>) cs)
            (assign_all (map (Pair new) (nc_Tokens nc))))"

definition spread_if_initialized :: "cluster_state \<Rightarrow> cluster_state option" where
  "spread_if_initialized cs = (if AreInitialized (ClusterSettings cs) then spread_tokens cs else Some cs)"

definition configure :: "cluster_settings \<Rightarrow> cluster_state \<Rightarrow> cluster_state option" where
  "configure st cs = spread_if_initialized (State_Initialize (cs\<lparr>ClusterSettings := st\<rparr>))"

definition removal_refused :: "u64 \<Rightarrow> u64 \<Rightarrow> cluster_state \<Rightarrow> bool" where
  "removal_refused n r cs \<longleftrightarrow> r = n \<or> (if r \<in> node_ids cs then tok_sets cs r \<noteq> Some {} else r \<noteq> 0)"

definition remove_member :: "u64 \<Rightarrow> u64 \<Rightarrow> cluster_state \<Rightarrow> cluster_state option" where
  "remove_member n r cs =
     (if r = 0 then Option.bind (RemoveNode cs n) spread_if_initialized
      else Option.bind (hand_over n r cs) (\<lambda>cs. RemoveNode cs n))"

definition blank_node :: "node_config \<Rightarrow> node_config" where
  "blank_node cfg = cfg\<lparr>nc_Tokens := [], PartitionReplicas := [], OwnedPartitionReplicas := []\<rparr>"

definition readdress :: "node_config \<Rightarrow> node_config \<Rightarrow> node_config" where
  "readdress cfg nc = nc\<lparr>Address := (Address nc)\<lparr>Host := Host (Address cfg), Port := Port (Address cfg)\<rparr>,
     Capacity := Capacity cfg\<rparr>"

definition reconfigure_node :: "u64 \<Rightarrow> node_config \<Rightarrow> node_config \<Rightarrow> cluster_state \<Rightarrow> cluster_state option" where
  "reconfigure_node n cfg nc cs =
     (let cs' = cs\<lparr>Nodes := AList.update n (readdress cfg nc) (Nodes cs)\<rparr>
      in if Capacity cfg \<noteq> Capacity nc then spread_if_initialized cs' else Some cs')"

abbreviation done_with :: "cluster_state option \<Rightarrow> (cluster_error option \<times> cluster_state) option" where
  "done_with r \<equiv> map_option (Pair None) r"

fun step_state :: "command_body \<Rightarrow> cluster_state \<Rightarrow> (cluster_error option \<times> cluster_state) option" where
  "step_state (ClusterUpdateNodeBody n cfg) cs =
     (case map_of (Nodes cs) n of None \<Rightarrow> Some (None, cs) | Some nc \<Rightarrow> done_with (reconfigure_node n cfg nc cs))"
| "step_state (ClusterAddNodeBody n cfg) cs =
     (if n \<in> node_ids cs \<or> (\<exists>rn. RemovedNodes cs = Some rn \<and> n \<in> set rn) then Some (Some ECancelConfChange, cs)
      else done_with (spread_if_initialized (AddNode cs (blank_node cfg))))"
| "step_state (ClusterRemoveNodeBody n r) cs =
     (if removal_refused n r cs then Some (Some ECancelConfChange, cs)
      else if n \<notin> node_ids cs then Some (None, cs) else done_with (remove_member n r cs))"
| "step_state (ClusterTakePartitionReplicaBody p r n) cs =
     (if length (owners_of cs p) \<le> unat r then Some (Some EReplicaNumberInvalid, cs)
      else if owners_of cs p ! unat r \<noteq> n then Some (Some ENodeDoesNotOwnReplica, cs)
      else AssignPartitionReplica cs p r n)"
| "step_state (ClusterSetReplicationFactorBody rf) cs =
     (if ReplicationFactor (ClusterSettings cs) \<noteq> 0 then Some (None, cs)
      else done_with (configure ((ClusterSettings cs)\<lparr>ReplicationFactor := rf\<rparr>) cs))"
| "step_state (ClusterSetPartitionCountBody k) cs =
     (if cs_Partitions (ClusterSettings cs) \<noteq> 0 then Some (None, cs)
      else done_with (configure ((ClusterSettings cs)\<lparr>cs_Partitions := k\<rparr>) cs))"
| "step_state (ClusterAddSiteBody s) cs = Some (None, if SiteExists cs s then cs else AddSite cs s)"
| "step_state (ClusterRemoveSiteBody s) cs = Some (None, if SiteExists cs s then RemoveSite cs s else cs)"
| "step_state (ClusterAddRelayBody r) cs = Some (None, if relay_site cs r = None then AddRelay cs r else cs)"
| "step_state (ClusterRemoveRelayBody r) cs = Some (None, if relay_site cs r = None then cs else RemoveRelay cs r)"
| "step_state (ClusterMoveRelayBody r s) cs =
     (if \<not> SiteExists cs s \<and> s \<noteq> '''' then Some (Some ENoSuchSite, cs)
      else if relay_site cs r = None then Some (Some ENoSuchRelay, cs)
      else Some (None, if relay_site cs r = Some s then cs else MoveRelay cs r s))"
| "step_state (ClusterSnapshotBody u) cs = Some (None, cs)"

section \<open>Notifications change only the delta set\<close>

definition notify_all :: "cluster_delta list \<Rightarrow> controller \<Rightarrow> controller" where
  "notify_all ds c = c\<lparr>nextDeltaSet := nextDeltaSet c @ ds\<rparr>"

lemma notify_all_simps [simp]:
  "State (notify_all ds c) = State c" "LocalNodeID (notify_all ds c) = LocalNodeID c"
  "partitionOwnersCache (notify_all ds c) = partitionOwnersCache c"
  "localNodeOwnedPartitionReplicaCache (notify_all ds c) = localNodeOwnedPartitionReplicaCache c"
  "notificationsEnabled (notify_all ds c) = notificationsEnabled c"
  "nextDeltaSet (notify_all ds c) = nextDeltaSet c @ ds" "LocalUpdates (notify_all ds c) = LocalUpdates c"
  "notify_all ds (notify_all es c) = notify_all (es @ ds) c" "notify_all [] c = c"
  by (simp_all add: notify_all_def)

lemma notifyLocalNode_all: "notifyLocalNode d c = notify_all [d] c"
  by (simp add: notifyLocalNode_def notify_all_def)

text \<open>Every diff loop has this shape: a delta, or none, from the local ID, the state and the item.\<close>

lemma fold_notify:
  assumes "\<And>x c. f x c = notify_all (D (LocalNodeID c) (State c) x) c"
  shows "fold f xs c = notify_all (concat (map (D (LocalNodeID c) (State c)) xs)) c"
  by (induction xs arbitrary: c) (simp_all add: assms)

lemma fold_notify_filter:
  "fold (\<lambda>x c. if P x then notifyLocalNode (g (LocalNodeID c) x) c else c) xs c
     = notify_all (map (g (LocalNodeID c)) (filter P xs)) c"
proof -
  have "concat (map (\<lambda>x. if P x then [h x] else []) xs) = map h (filter P xs)" for h :: "'a \<Rightarrow> cluster_delta"
    by (induction xs) auto
  then show ?thesis
    by (subst fold_notify [where D = "\<lambda>l s x. if P x then [g l x] else []"]) (auto simp: notifyLocalNode_all)
qed

section \<open>The caches agree with the state\<close>

definition owned_of :: "cluster_state \<Rightarrow> u64 \<Rightarrow> (u64 \<times> u64) set" where
  "owned_of cs me = {(of_nat p, of_nat i) | p i.
     p < length (Tokens cs) \<and> i < length (owners_of cs (of_nat p)) \<and> owners_of cs (of_nat p) ! i = me}"

definition cache_ok :: "controller \<Rightarrow> bool" where
  "cache_ok c \<longleftrightarrow>
     (\<forall>m p os. partitionOwnersCache c = Some m \<longrightarrow> map_of m p = Some os \<longrightarrow> os = owners_of (State c) p)
     \<and> (\<forall>m. localNodeOwnedPartitionReplicaCache c = Some m \<longrightarrow> rm_ok m \<and> rm_set m = owned_of (State c) (LocalNodeID c))"

definition no_cache :: "controller \<Rightarrow> controller" where
  "no_cache c = c\<lparr>localNodeOwnedPartitionReplicaCache := None, partitionOwnersCache := None\<rparr>"

lemma no_cache_simps [simp]:
  "State (no_cache c) = State c" "LocalNodeID (no_cache c) = LocalNodeID c" "nextDeltaSet (no_cache c) = nextDeltaSet c"
  "notificationsEnabled (no_cache c) = notificationsEnabled c" "LocalUpdates (no_cache c) = LocalUpdates c"
  by (simp_all add: no_cache_def)

lemma cache_ok_empty [simp]: "cache_ok (no_cache c)" "cache_ok ((no_cache c)\<lparr>State := cs\<rparr>)"
  by (simp_all add: cache_ok_def no_cache_def)

lemma cache_ok_notify [simp]: "cache_ok (notify_all ds c) = cache_ok c"
  by (simp add: cache_ok_def)

text \<open>Filling the caches changes nothing else.\<close>

definition same_but_caches :: "controller \<Rightarrow> controller \<Rightarrow> bool" where
  "same_but_caches c c' \<longleftrightarrow> no_cache c' = no_cache c"

lemma same_refl [simp]: "same_but_caches c c"
  by (simp add: same_but_caches_def)

lemma same_trans: "same_but_caches a b \<Longrightarrow> same_but_caches b c \<Longrightarrow> same_but_caches a c"
  by (simp add: same_but_caches_def)

lemma sameD:
  assumes "same_but_caches c c'"
  shows "State c' = State c" "LocalNodeID c' = LocalNodeID c" "nextDeltaSet c' = nextDeltaSet c"
    "notificationsEnabled c' = notificationsEnabled c" "LocalUpdates c' = LocalUpdates c"
  using assms unfolding same_but_caches_def by (metis no_cache_simps)+

lemma same_caches [simp]:
  "same_but_caches c (c\<lparr>partitionOwnersCache := x\<rparr>)" "same_but_caches c (c\<lparr>localNodeOwnedPartitionReplicaCache := y\<rparr>)"
  by (simp_all add: same_but_caches_def no_cache_def)

lemma partitionOwners_ok:
  assumes "cache_ok c" "partitionOwners p c = (os, c')"
  shows "os = owners_of (State c) p \<and> cache_ok c' \<and> same_but_caches c c'
    \<and> localNodeOwnedPartitionReplicaCache c' = localNodeOwnedPartitionReplicaCache c"
proof -
  have "cache_ok (c\<lparr>partitionOwnersCache := Some (AList.update p (owners_of (State c) p) m)\<rparr>)"
    if "partitionOwnersCache c = Some m \<or> m = []" for m
    using assms(1) that by (auto simp: cache_ok_def update_conv')
  moreover have "cache_ok (c\<lparr>partitionOwnersCache := Some m\<rparr>)" if "partitionOwnersCache c = Some m" for m
    using assms(1) that by (auto simp: cache_ok_def)
  moreover have "map_of m q = Some os \<Longrightarrow> os = owners_of (State c) q" if "partitionOwnersCache c = Some m" for m q
    using assms(1) that by (auto simp: cache_ok_def)
  ultimately show ?thesis using assms(2)
    by (auto simp: partitionOwners_def Let_def owners_of_def [symmetric] split: option.splits)
qed

lemma owned_replicas_set:
  "rm_set (owned_replicas me p k os m) = rm_set m \<union> {(p, of_nat (k + i)) | i. i < length os \<and> os ! i = me}"
proof (induction os arbitrary: k m)
  case (Cons x os)
  let ?m = "if x = me then rm_take p (of_nat k) m else m"
  have "{(p, of_nat (k + i) :: u64) | i. i < length (x # os) \<and> (x # os) ! i = me}
      = (if x = me then {(p, of_nat k)} else {}) \<union> {(p, of_nat (Suc k + i)) | i. i < length os \<and> os ! i = me}"
    (is "?L = ?A \<union> ?B")
  proof (intro set_eqI iffI)
    fix z assume "z \<in> ?L"
    then obtain i where "z = (p, of_nat (k + i))" "i < Suc (length os)" "(x # os) ! i = me" by auto
    then show "z \<in> ?A \<union> ?B" by (cases i) auto
  next
    fix z assume "z \<in> ?A \<union> ?B"
    then consider "x = me" "z = (p, of_nat k)" | i where "z = (p, of_nat (Suc k + i))" "i < length os" "os ! i = me"
      by (auto split: if_splits)
    then show "z \<in> ?L"
    proof cases
      case 1 then show ?thesis by force
    next
      case 2 then show ?thesis by (intro CollectI exI [of _ "Suc i"]) auto
    qed
  qed
  moreover have "owned_replicas me p k (x # os) m = owned_replicas me p (Suc k) os ?m" by (simp add: rm_take_def)
  ultimately show ?case using Cons.IH [of "Suc k" ?m] by auto
qed simp

lemma owned_replicas_ok: "rm_ok m \<Longrightarrow> rm_ok (owned_replicas me p k os m)"
  by (induction os arbitrary: k m) (simp_all add: rm_take_def [symmetric] rm_ok_take)

lemma owned_loop_ok:
  assumes "cache_ok c" "owned_loop ps c m = (m', c')" "rm_ok m"
  shows "cache_ok c' \<and> same_but_caches c c' \<and> localNodeOwnedPartitionReplicaCache c' = localNodeOwnedPartitionReplicaCache c
    \<and> rm_ok m' \<and> rm_set m' = rm_set m \<union> {(of_nat p, of_nat i) | p i. p \<in> set ps
       \<and> i < length (owners_of (State c) (of_nat p)) \<and> owners_of (State c) (of_nat p) ! i = LocalNodeID c}"
  using assms
proof (induction ps arbitrary: c m)
  case (Cons p ps)
  obtain os c1 where po: "partitionOwners (of_nat p) c = (os, c1)" by fastforce
  note o = partitionOwners_ok [OF Cons.prems(1) po] and s = sameD [of c c1]
  have "owned_loop ps c1 (owned_replicas (LocalNodeID c1) (of_nat p) 0 os m) = (m', c')"
    using Cons.prems(2) po by simp
  from Cons.IH [OF _ this owned_replicas_ok [OF Cons.prems(3)]] o s
  show ?case by (auto simp: owned_replicas_set intro: same_trans)
qed simp

lemma localNodeOwned_ok:
  assumes "cache_ok c" "localNodeOwnedPartitionReplicas c = (m, c')"
  shows "cache_ok c' \<and> same_but_caches c c' \<and> rm_ok m
    \<and> rm_set m = (if AreInitialized (ClusterSettings (State c)) then owned_of (State c) (LocalNodeID c) else {})"
proof -
  have "cache_ok (c1\<lparr>localNodeOwnedPartitionReplicaCache := Some m1\<rparr>) \<and> rm_ok m1
      \<and> same_but_caches c (c1\<lparr>localNodeOwnedPartitionReplicaCache := Some m1\<rparr>)
      \<and> rm_set m1 = owned_of (State c) (LocalNodeID c)"
    if "owned_loop [0..<length (Tokens (State c))] c [] = (m1, c1)" for m1 c1
  proof -
    from owned_loop_ok [OF assms(1) that] have o: "cache_ok c1" "same_but_caches c c1" "rm_ok m1"
      "rm_set m1 = owned_of (State c) (LocalNodeID c)"
      by (auto simp: rm_ok_def owned_of_def)
    moreover have "cache_ok (c1\<lparr>localNodeOwnedPartitionReplicaCache := Some m1\<rparr>)"
      using o sameD [OF o(2)] by (auto simp: cache_ok_def)
    ultimately show ?thesis using same_trans [OF o(2) same_caches(2)] by blast
  qed
  then show ?thesis using assms
    by (auto simp: localNodeOwnedPartitionReplicas_def Let_def cache_ok_def rm_ok_def split: if_splits option.splits prod.splits)
qed

end
