(* ===== verification/Controller_State.thy ===== *)
theory Controller_State
  imports Controller_Laws
begin

text \<open>
  What the commands do to the cluster state: redistributing tokens is total and keeps the state
  invariant, and so does every command.
\<close>

section \<open>Assigning a list of tokens\<close>

definition frame :: "cluster_state \<Rightarrow> _" where
  "frame cs = (node_ids cs, misc cs, held_sets cs, holder_of cs, owned_sets cs, owner_of cs)"

lemma assign_all_ok:
  assumes "state_ok cs"
  shows "\<exists>cs'. assign_all xs cs = Some cs' \<and> state_ok cs' \<and> frame cs' = frame cs"
  using assms
proof (induction xs arbitrary: cs)
  case (Cons x xs)
  obtain owner token where x: "x = (owner, token)" by fastforce
  obtain e cs1 where a: "AssignToken cs owner token = Some (e, cs1)" "state_ok cs1" "frame cs1 = frame cs"
    using AssignToken_ok [OF Cons.prems, of owner token] by (auto simp: frame_def)
  with Cons.IH [OF a(2)] show ?case by (simp add: x)
qed simp

lemma frame_lengths: "frame cs' = frame cs \<Longrightarrow> length (Tokens cs') = length (Tokens cs) \<and> node_ids cs' = node_ids cs
    \<and> ClusterSettings cs' = ClusterSettings cs \<and> RemovedNodes cs' = RemovedNodes cs \<and> Sites cs' = Sites cs
    \<and> Relays cs' = Relays cs \<and> map length (Partitions cs') = map length (Partitions cs)"
  by (simp add: frame_def misc_def)

lemma assign_all_owner:
  assumes "state_ok cs" "\<forall>(owner, token) \<in> set xs. unat token < length (Tokens cs) \<and> (owner = 0 \<or> owner \<in> node_ids cs)"
    and "assign_all xs cs = Some cs'"
  shows "tok_owner cs' = tok_owner cs ++ map_of (rev (map prod.swap xs))"
  using assms
proof (induction xs arbitrary: cs)
  case (Cons x xs)
  obtain owner token where x: "x = (owner, token)" by fastforce
  obtain cs1 where a: "AssignToken cs owner token = Some (None, cs1)" "state_ok cs1" "frame cs1 = frame cs"
      "tok_owner cs1 = (tok_owner cs)(token \<mapsto> owner)"
    using AssignToken_ok [OF Cons.prems(1), of owner token] Cons.prems(2) by (auto simp: frame_def x)
  have "tok_owner cs' = tok_owner cs1 ++ map_of (rev (map prod.swap xs))"
    using Cons.prems frame_lengths [OF a(3)] a by (intro Cons.IH) (auto simp: x)
  then show ?case by (simp add: a(4) x map_add_def fun_eq_iff split: option.split)
qed simp

lemma Tokens_eqI:
  assumes "length (Tokens cs) = length a" "length a < 2 ^ 64"
    and "\<And>t. unat t < length a \<Longrightarrow> tok_owner cs t = Some (a ! unat t)"
  shows "Tokens cs = a"
proof (rule nth_equalityI)
  fix i assume "i < length (Tokens cs)"
  then have u: "unat (of_nat i :: u64) = i" "i < length a" using assms by (simp_all add: unat_of_nat take_bit_nat_eq_self_iff)
  then show "Tokens cs ! i = a ! i" using assms(3) [of "of_nat i"] assms(1) by (simp add: tok_owner_def)
qed (rule assms(1))

definition indexed :: "u64 list \<Rightarrow> (u64 \<times> u64) list" where
  "indexed a = zip a (map of_nat [0..<length a])"

lemma indexed_owner:
  assumes "unat t < length a" "length a < 2 ^ 64"
  shows "map_of (rev (map prod.swap (indexed a))) t = Some (a ! unat t)"
proof -
  have fsts: "map fst (map prod.swap (indexed a)) = map of_nat [0..<length a]"
    by (rule nth_equalityI) (auto simp: indexed_def)
  have "inj_on (of_nat :: nat \<Rightarrow> u64) {0..<length a}"
  proof (rule inj_onI)
    fix i j assume ij: "i \<in> {0..<length a}" "j \<in> {0..<length a}" and eq: "of_nat i = (of_nat j :: u64)"
    have "i < 2 ^ 64" "j < 2 ^ 64" using ij assms(2) by simp_all
    then have "unat (of_nat i :: u64) = i" "unat (of_nat j :: u64) = j"
      by (simp_all add: unat_of_nat take_bit_nat_eq_self_iff)
    then show "i = j" using eq by metis
  qed
  then have d: "distinct (map fst (rev (map prod.swap (indexed a))))"
    using fsts by (simp add: rev_map [symmetric] distinct_map)
  have "(t, a ! unat t) \<in> set (map prod.swap (indexed a))"
    using assms(1) by (force simp: indexed_def in_set_zip)
  then show ?thesis using d by (simp add: map_of_eq_Some_iff)
qed

lemma assign_all_indexed:
  assumes ok: "state_ok cs" and len: "length a = length (Tokens cs)" and own: "set a \<subseteq> insert 0 (node_ids cs)"
  shows "\<exists>cs'. assign_all (indexed a) cs = Some cs' \<and> state_ok cs' \<and> frame cs' = frame cs \<and> Tokens cs' = a"
proof -
  have l: "length a < 2 ^ 64" using state_lengths [OF state_ok_parts(2) [OF ok]] len by simp
  obtain cs' where cs': "assign_all (indexed a) cs = Some cs'" "state_ok cs'" "frame cs' = frame cs"
    using assign_all_ok [OF ok] by blast
  have "unat token < length (Tokens cs) \<and> (owner = 0 \<or> owner \<in> node_ids cs)"
    if "(owner, token) \<in> set (indexed a)" for owner token
  proof -
    from that obtain i where i: "i < length a" "owner = a ! i" "token = of_nat i" by (auto simp: indexed_def in_set_zip)
    then have "unat token = i" using l by (simp add: unat_of_nat take_bit_nat_eq_self_iff)
    moreover have "a ! i \<in> insert 0 (node_ids cs)" using own nth_mem [OF i(1)] by blast
    ultimately show ?thesis using i len by auto
  qed
  then have "tok_owner cs' = tok_owner cs ++ map_of (rev (map prod.swap (indexed a)))"
    using ok cs' by (intro assign_all_owner) auto
  then have "Tokens cs' = a"
    using len frame_lengths [OF cs'(3)] l by (intro Tokens_eqI) (simp_all add: indexed_owner)
  then show ?thesis using cs' by blast
qed

section \<open>Token assignment never panics\<close>

lemma release_tokens_total:
  "\<forall>t \<in> set toks. unat t < length (fst st) \<Longrightarrow> \<exists>st'. release_tokens toks i st = Some st' \<and> length (fst st') = length (fst st)"
proof (induction toks arbitrary: st)
  case (Cons t ts)
  then show ?case using Cons.IH [of "((fst st)[unat t := 0], (snd st)[i := snd st ! i - 1])"] by (cases st) simp
qed simp

lemma release_decommissioned_total:
  "\<forall>n \<in> set nodes. \<forall>t \<in> set (nc_Tokens n). unat t < length (fst st) \<Longrightarrow>
     \<exists>st'. release_decommissioned nodes i st = Some st' \<and> length (fst st') = length (fst st)"
proof (induction nodes arbitrary: i st)
  case (Cons n ns)
  then obtain st1 where st1: "release_tokens (nc_Tokens n) i st = Some st1" "length (fst st1) = length (fst st)"
    using release_tokens_total [of "nc_Tokens n" st i] by auto
  show ?case using Cons.IH [of st "Suc i"] Cons.IH [of st1 "Suc i"] Cons.prems st1 by simp
qed simp

lemma AssignTokens_total:
  assumes "\<forall>n \<in> set nodes. \<forall>t \<in> set (nc_Tokens n). unat t < length cur"
  shows "AssignTokens (Some nodes) cur P \<noteq> None"
proof -
  let ?nodes = "if P < of_nat (length nodes) then take (unat P) nodes else nodes"
  have "set ?nodes \<subseteq> set nodes" by (auto dest: in_set_takeD)
  then have "\<forall>n \<in> set ?nodes. \<forall>t \<in> set (nc_Tokens n). unat t < length cur" using assms by blast
  then obtain st where st: "release_decommissioned ?nodes 0 (cur, countTokens ?nodes) = Some st"
    using release_decommissioned_total [of ?nodes "(cur, countTokens ?nodes)" 0] by auto
  show ?thesis
  proof (cases "checkPreconditions (Some nodes) cur P")
    case None
    show ?thesis unfolding AssignTokens_def None option.case option.sel Let_def st by simp
  qed (simp add: AssignTokens_def)
qed

lemma token_in_range:
  assumes "state_ok cs" "(n, nc) \<in> set (Nodes cs)" "t \<in> set (nc_Tokens nc)"
  shows "tok_owner cs t = Some n \<and> unat t < length (Tokens cs)"
proof -
  note p = state_ok_parts [OF assms(1)]
  have "map_of (Nodes cs) n = Some nc" using assms(2) p(1) by (simp add: nodes_ok_def)
  then have "tok_sets cs n = Some (set (nc_Tokens nc))" by (simp add: tok_sets_def)
  then have "set (nc_Tokens nc) = {k. tok_owner cs k = Some n}" using p(3) by (simp add: ownership_def)
  then have "tok_owner cs t = Some n" using assms(3) by blast
  then show ?thesis by (simp add: tok_owner_def split: if_splits)
qed

lemma spread_tokens_ok:
  assumes ok: "state_ok cs"
  shows "\<exists>cs'. spread_tokens cs = Some cs' \<and> state_ok cs' \<and> frame cs' = frame cs"
proof -
  have "\<forall>n \<in> set (sorted_nodes cs). \<forall>t \<in> set (nc_Tokens n). unat t < length (Tokens cs)"
    using token_in_range [OF ok] by (force simp: sorted_nodes_def)
  then obtain r where "AssignTokens (Some (sorted_nodes cs)) (Tokens cs) (cs_Partitions (ClusterSettings cs)) = Some r"
    using AssignTokens_total by blast
  then show ?thesis using assign_all_ok [OF ok] by (simp add: spread_tokens_def Let_def)
qed

section \<open>The nodes the partitioner sees\<close>

lemma sorted_loop_sorted:
  "sorted (map node_id ns) \<Longrightarrow> distinct (map node_id ns) \<Longrightarrow> \<forall>n \<in> set ns. l < node_id n \<Longrightarrow> sorted_loop l ns"
proof (induction ns arbitrary: l)
  case (Cons n ns)
  have "\<forall>m \<in> set ns. node_id n < node_id m" using Cons.prems(1,2) by (fastforce simp: order.strict_iff_order)
  then show ?case using Cons by auto
qed simp

lemma sorted_nodes_set:
  assumes "state_ok cs"
  shows "n \<in> set (sorted_nodes cs) \<longleftrightarrow> map_of (Nodes cs) (node_id n) = Some n"
    "node_id ` set (sorted_nodes cs) = node_ids cs" "distinct (map node_id (sorted_nodes cs))"
    "length (sorted_nodes cs) = length (Nodes cs)"
proof -
  note ok = state_ok_parts(1) [OF assms]
  have ids: "node_id nc = m" if "(m, nc) \<in> set (Nodes cs)" for m nc
    using ok that by (auto simp: nodes_ok_def node_ok_def)
  have d: "distinct (map fst (Nodes cs))" using ok by (simp add: nodes_ok_def)
  show mem: "n \<in> set (sorted_nodes cs) \<longleftrightarrow> map_of (Nodes cs) (node_id n) = Some n" for n
  proof
    assume "n \<in> set (sorted_nodes cs)"
    then obtain m where "(m, n) \<in> set (Nodes cs)" by (auto simp: sorted_nodes_def)
    then show "map_of (Nodes cs) (node_id n) = Some n" using ids d by simp
  next
    assume "map_of (Nodes cs) (node_id n) = Some n"
    then have "n \<in> snd ` set (Nodes cs)" using map_of_SomeD by force
    then show "n \<in> set (sorted_nodes cs)" by (simp add: sorted_nodes_def)
  qed
  have "map node_id (map snd (Nodes cs)) = map fst (Nodes cs)" using ids by (auto simp: split_beta)
  with d have "distinct (map node_id (map snd (Nodes cs)))" by metis
  moreover have "mset (map node_id (sorted_nodes cs)) = mset (map node_id (map snd (Nodes cs)))"
    by (simp add: sorted_nodes_def multiset.map_comp)
  ultimately show "distinct (map node_id (sorted_nodes cs))" using mset_eq_imp_distinct_iff by blast
  show "node_id ` set (sorted_nodes cs) = node_ids cs"
  proof (intro set_eqI iffI)
    fix m assume "m \<in> node_ids cs"
    then obtain nc where "map_of (Nodes cs) m = Some nc" by (auto simp: node_ids_def)
    moreover then have "node_id nc = m" using ids map_of_SomeD by fast
    ultimately show "m \<in> node_id ` set (sorted_nodes cs)" using mem by force
  qed (auto simp: mem node_ids_def)
  show "length (sorted_nodes cs) = length (Nodes cs)" by (simp add: sorted_nodes_def)
qed

lemma assignable_sorted_nodes:
  assumes ok: "state_ok cs" and init: "AreInitialized (ClusterSettings cs)"
    and few: "length (Nodes cs) \<le> unat (cs_Partitions (ClusterSettings cs))"
  shows "assignable (sorted_nodes cs) (Tokens cs) (cs_Partitions (ClusterSettings cs))"
proof -
  note p = state_ok_parts [OF ok] and s = sorted_nodes_set [OF ok]
  have "node_id n \<noteq> 0" if "n \<in> set (sorted_nodes cs)" for n
    using that s(2) zero_not_node [OF ok] by (metis image_eqI)
  then have "nodesAreSortedAndUnique (sorted_nodes cs)"
    unfolding nodesAreSortedAndUnique_def
    by (intro sorted_loop_sorted s(3)) (simp_all add: sorted_nodes_def word_greater_zero_iff)
  moreover have "tokens_match (Tokens cs) n" if n: "n \<in> set (sorted_nodes cs)" for n
  proof -
    have m: "map_of (Nodes cs) (node_id n) = Some n" using n s(1) by blast
    then have "tok_sets cs (node_id n) = Some (set (nc_Tokens n))" by (simp add: tok_sets_def)
    then have "set (nc_Tokens n) = {t. tok_owner cs t = Some (node_id n)}" using p(3) by (simp add: ownership_def)
    moreover have "distinct (nc_Tokens n)" using p(1) map_of_SomeD [OF m] by (auto simp: nodes_ok_def node_ok_def)
    ultimately show ?thesis by (auto simp: tokens_match_def tok_owner_def split: if_splits)
  qed
  moreover have "set (Tokens cs) \<subseteq> insert 0 (node_ids cs)"
  proof
    fix x assume "x \<in> set (Tokens cs)"
    then obtain i where i: "i < length (Tokens cs)" "x = Tokens cs ! i" by (auto simp: in_set_conv_nth)
    then have "i < 2 ^ 64" using state_lengths [OF p(2)] by simp
    then have "unat (of_nat i :: u64) = i" by (simp add: unat_of_nat take_bit_nat_eq_self_iff)
    then have "tok_owner cs (of_nat i) = Some x" using i by (simp add: tok_owner_def)
    then show "x \<in> insert 0 (node_ids cs)"
      using p(3) by (auto simp: ownership_def tok_sets_def node_ids_def)
  qed
  ultimately show ?thesis
    using init p(2) few s(2,4) by (simp add: assignable_def sized_def AreInitialized_def word_greater_zero_iff)
qed

definition in_service :: "cluster_state \<Rightarrow> u64 set" where
  "in_service cs = {n. \<exists>nc. map_of (Nodes cs) n = Some nc \<and> Capacity nc \<noteq> 0}"

lemma avail_in_service: "state_ok cs \<Longrightarrow> avail_ids (sorted_nodes cs) = in_service cs"
proof -
  assume ok: "state_ok cs"
  have "\<exists>nc. map_of (Nodes cs) m = Some nc \<and> Capacity nc \<noteq> 0 \<Longrightarrow> m \<in> avail_ids (sorted_nodes cs)" for m
  proof -
    assume "\<exists>nc. map_of (Nodes cs) m = Some nc \<and> Capacity nc \<noteq> 0"
    then obtain nc where nc: "map_of (Nodes cs) m = Some nc" "Capacity nc \<noteq> 0" by blast
    then have "node_id nc = m" using state_ok_parts(1) [OF ok] map_of_SomeD [OF nc(1)]
      by (auto simp: nodes_ok_def node_ok_def)
    then show ?thesis using nc sorted_nodes_set(1) [OF ok, of nc] by (auto simp: avail_ids_def)
  qed
  then show ?thesis by (auto simp: in_service_def avail_ids_def sorted_nodes_set(1) [OF ok])
qed

lemma frame_in_service: "frame cs' = frame cs \<Longrightarrow> in_service cs' = in_service cs"
proof -
  assume "frame cs' = frame cs"
  then have "map_option Capacity (map_of (Nodes cs') n) = map_option Capacity (map_of (Nodes cs) n)" for n
    by (simp add: frame_def misc_def fun_eq_iff)
  then have "(\<exists>nc. map_of (Nodes cs') n = Some nc \<and> Capacity nc \<noteq> 0) \<longleftrightarrow> (\<exists>nc. map_of (Nodes cs) n = Some nc \<and> Capacity nc \<noteq> 0)" for n
    by (metis (no_types, lifting) option.map_disc_iff option.map_sel option.sel option.exhaust_sel option.simps(3))
  then show ?thesis by (simp add: in_service_def)
qed

text \<open>After a redistribution every token belongs to a node in service and every such node has its share.\<close>

lemma spread_tokens_even:
  assumes ok: "state_ok cs" and init: "AreInitialized (ClusterSettings cs)"
    and few: "length (Nodes cs) \<le> unat (cs_Partitions (ClusterSettings cs))" and some: "in_service cs \<noteq> {}"
  shows "\<exists>cs'. spread_tokens cs = Some cs' \<and> state_ok cs' \<and> frame cs' = frame cs \<and> set (Tokens cs') \<subseteq> in_service cs
    \<and> (\<forall>n \<in> in_service cs. length (Tokens cs) div card (in_service cs) \<le> count_list (Tokens cs') n)"
proof -
  let ?ns = "sorted_nodes cs" and ?P = "cs_Partitions (ClusterSettings cs)"
  note av = avail_in_service [OF ok] and s = sorted_nodes_set [OF ok]
  have "ids_ok ?ns" using s(2,3) zero_not_node [OF ok] by (simp add: ids_ok_def)
  then have card: "card (in_service cs) = countAvailableNodes ?ns" using card_avail av by metis
  moreover have "finite (in_service cs)" using finite_avail [of ?ns] av by simp
  ultimately have "0 < countAvailableNodes ?ns" using some by (metis card_gt_0_iff)
  then obtain a where a: "AssignTokens (Some ?ns) (Tokens cs) ?P = Some (Inr a)" "length a = unat ?P" "set a \<subseteq> in_service cs"
      "\<forall>n \<in> set ?ns. Capacity n \<noteq> 0 \<longrightarrow> unat ?P div countAvailableNodes ?ns \<le> count_list a (node_id n)"
    using AssignTokens_spec [OF assignable_sorted_nodes [OF ok init few]] av by blast
  have len: "length (Tokens cs) = unat ?P" using state_ok_parts(2) [OF ok] init by (simp add: sized_def)
  have "in_service cs \<subseteq> node_ids cs" by (auto simp: in_service_def node_ids_def)
  then have "set a \<subseteq> insert 0 (node_ids cs)" using a(3) by blast
  then obtain cs' where cs': "assign_all (indexed a) cs = Some cs'" "state_ok cs'" "frame cs' = frame cs" "Tokens cs' = a"
    using assign_all_indexed [OF ok, of a] a(2) len by auto
  have "spread_tokens cs = Some cs'" using a(1) cs'(1) by (simp add: spread_tokens_def indexed_def)
  moreover have "\<forall>n \<in> in_service cs. length (Tokens cs) div card (in_service cs) \<le> count_list a n"
  proof
    fix n assume "n \<in> in_service cs"
    then obtain nc where "nc \<in> set ?ns" "Capacity nc \<noteq> 0" "n = node_id nc" using av by (auto simp: avail_ids_def)
    then show "length (Tokens cs) div card (in_service cs) \<le> count_list a n" using a(4) card len by simp
  qed
  ultimately show ?thesis using cs' a(3) by blast
qed

section \<open>Changing a node's address or capacity\<close>

lemma node_update_ok:
  assumes ok: "state_ok cs" and n: "map_of (Nodes cs) n = Some nc"
    and same: "node_id nc' = node_id nc" "nc_Tokens nc' = nc_Tokens nc" "PartitionReplicas nc' = PartitionReplicas nc"
      "OwnedPartitionReplicas nc' = OwnedPartitionReplicas nc"
    and cs': "cs' = cs\<lparr>Nodes := AList.update n nc' (Nodes cs)\<rparr>"
  shows "state_ok cs' \<and> node_ids cs' = node_ids cs \<and> tok_sets cs' = tok_sets cs"
proof -
  note p = state_ok_parts [OF ok]
  have "node_ok n nc" using p(1) map_of_SomeD [OF n] by (auto simp: nodes_ok_def)
  then have "node_ok n nc'" using same by (simp add: node_ok_def)
  moreover have "distinct (map fst (AList.update n nc' (Nodes cs)))" using p(1) by (simp add: nodes_ok_def distinct_update)
  ultimately have "nodes_ok cs'"
    using p(1) set_AList_update' [of n nc' "Nodes cs"] unfolding nodes_ok_def cs' by (auto dest: subsetD)
  moreover have views: "tok_sets cs' = tok_sets cs" "held_sets cs' = held_sets cs" "owned_sets cs' = owned_sets cs"
    "node_ids cs' = node_ids cs"
    using n same by (auto simp: cs' tok_sets_def held_sets_def owned_sets_def node_ids_def update_conv' fun_eq_iff)
  moreover have "tok_owner cs' = tok_owner cs" "holder_of cs' = holder_of cs" "owner_of cs' = owner_of cs" "sized cs' = sized cs"
    by (simp_all add: cs' tok_owner_def holder_of_def owner_of_def replica_at_def sized_def fun_eq_iff)
  ultimately show ?thesis using p by (simp add: state_ok_def)
qed

section \<open>Handing tokens over\<close>

lemma Tokens_owner:
  assumes "sized cs" "sized cs'" "length (Tokens cs') = length (Tokens cs)" "tok_owner cs' = tok_owner cs"
  shows "Tokens cs' = Tokens cs"
  using assms state_lengths [OF assms(1)] by (intro Tokens_eqI) (simp_all add: tok_owner_def)

lemma map_of_const: "map_of (rev (map (\<lambda>t. (t, v)) ts)) t = (if t \<in> set ts then Some v else None)"
proof -
  have "map_of (map (\<lambda>t. (t, v)) xs) t = (if t \<in> set xs then Some v else None)" for xs by (induction xs) auto
  then show ?thesis by (simp add: rev_map)
qed

lemma hand_over_ok:
  assumes ok: "state_ok cs" and old: "old \<in> node_ids cs" and new: "new \<in> node_ids cs"
  shows "\<exists>cs'. hand_over old new cs = Some cs' \<and> state_ok cs' \<and> node_ids cs' = node_ids cs
    \<and> tok_owner cs' = (\<lambda>t. if tok_owner cs t = Some old then Some new else tok_owner cs t)
    \<and> holder_of cs' = holder_of cs \<and> ClusterSettings cs' = ClusterSettings cs \<and> RemovedNodes cs' = RemovedNodes cs
    \<and> Sites cs' = Sites cs \<and> Relays cs' = Relays cs \<and> length (Tokens cs') = length (Tokens cs)"
proof -
  obtain nc nc' where nc: "map_of (Nodes cs) old = Some nc" "map_of (Nodes cs) new = Some nc'"
    using old new by (auto simp: node_ids_def)
  define cs1 where "cs1 = cs\<lparr>Nodes := AList.update new (nc'\<lparr>Capacity := Capacity nc\<rparr>) (Nodes cs)\<rparr>"
  have c1: "state_ok cs1" "node_ids cs1 = node_ids cs"
    using node_update_ok [OF ok nc(2) _ _ _ _ cs1_def] by simp_all
  have t1: "tok_owner cs1 = tok_owner cs" "Tokens cs1 = Tokens cs" by (simp_all add: cs1_def tok_owner_def fun_eq_iff)
  let ?xs = "map (Pair new) (nc_Tokens nc)"
  have toks: "set (nc_Tokens nc) = {t. tok_owner cs t = Some old}"
    using state_ok_parts(3) [OF ok] nc(1) by (simp add: ownership_def tok_sets_def)
  obtain cs' where cs': "assign_all ?xs cs1 = Some cs'" "state_ok cs'" "frame cs' = frame cs1"
    using assign_all_ok [OF c1(1)] by blast
  have rng: "unat t < length (Tokens cs)" if "t \<in> set (nc_Tokens nc)" for t
    using token_in_range [OF ok map_of_SomeD [OF nc(1)] that] by blast
  have "tok_owner cs' = tok_owner cs1 ++ map_of (rev (map prod.swap ?xs))"
    using c1 new rng t1(2) by (intro assign_all_owner [OF c1(1) _ cs'(1)]) auto
  also have "map prod.swap ?xs = map (\<lambda>t. (t, new)) (nc_Tokens nc)" by simp
  finally have "tok_owner cs' = (\<lambda>t. if tok_owner cs t = Some old then Some new else tok_owner cs t)"
    by (simp add: map_add_def map_of_const toks t1(1) fun_eq_iff)
  moreover have "hand_over old new cs = Some cs'"
    using cs'(1) by (simp add: hand_over_def nc modify_node_def cs1_def)
  moreover have "holder_of cs' = holder_of cs"
    using cs'(3) by (simp add: frame_def cs1_def holder_of_def replica_at_def fun_eq_iff)
  ultimately show ?thesis using cs'(2) c1(2) frame_lengths [OF cs'(3)] by (simp add: cs1_def)
qed

section \<open>What removal leaves alone\<close>

definition sites_relays :: "cluster_state \<Rightarrow> _" where
  "sites_relays cs = (Sites cs, Relays cs, RemovedNodes cs)"

lemma modify_untouched:
  "modify_node k f cs = Some cs' \<Longrightarrow> sites_relays cs' = sites_relays cs"
  "modify_replica p r g cs = Some cs' \<Longrightarrow> sites_relays cs' = sites_relays cs"
  "set_token t v cs = Some cs' \<Longrightarrow> sites_relays cs' = sites_relays cs"
  by (auto simp: modify_node_def modify_replica_def set_token_def sites_relays_def Let_def split: option.splits if_splits)

lemma drop_held_untouched: "drop_held n ks cs = Some cs' \<Longrightarrow> sites_relays cs' = sites_relays cs"
  by (induction ks arbitrary: cs) (force simp: bind_eq_Some_conv split_paired_all dest: modify_untouched)+

lemma drop_owned_untouched: "drop_owned n ks cs = Some cs' \<Longrightarrow> sites_relays cs' = sites_relays cs"
  by (induction ks arbitrary: cs) (force simp: bind_eq_Some_conv split_paired_all dest: modify_untouched)+

lemma drop_tokens_untouched: "drop_tokens n ks cs = Some cs' \<Longrightarrow> sites_relays cs' = sites_relays cs"
  by (induction ks arbitrary: cs) (force simp: bind_eq_Some_conv split_paired_all dest: modify_untouched)+

lemma RemoveNode_untouched:
  assumes "RemoveNode cs n = Some cs'" "n \<in> node_ids cs"
  shows "Sites cs' = Sites cs \<and> Relays cs' = Relays cs
    \<and> set (the (RemovedNodes cs')) = insert n (case RemovedNodes cs of None \<Rightarrow> {} | Some rn \<Rightarrow> set rn)
    \<and> RemovedNodes cs' \<noteq> None"
proof -
  obtain nc :: node_config and cs1 cs2 cs3 where
    "drop_held n (map_pairs (PartitionReplicas nc)) cs = Some cs1"
    "drop_owned n (map_pairs (OwnedPartitionReplicas nc)) cs1 = Some cs2" "drop_tokens n (nc_Tokens nc) cs2 = Some cs3"
    and cs': "cs' = cs3\<lparr>Nodes := AList.delete n (Nodes cs3),
      RemovedNodes := Some (set_add n (case RemovedNodes cs3 of None \<Rightarrow> [] | Some rn \<Rightarrow> rn))\<rparr>"
  proof -
    obtain nc where nc: "map_of (Nodes cs) n = Some nc" using assms(2) by (auto simp: node_ids_def)
    show thesis using assms(1) unfolding RemoveNode_def nc option.case Let_def bind_eq_Some_conv
      by (elim exE conjE) (rule that, assumption+, simp)
  qed
  then have "sites_relays cs3 = sites_relays cs"
    by (simp add: drop_held_untouched drop_owned_untouched drop_tokens_untouched)
  then show ?thesis unfolding cs' by (simp add: sites_relays_def split: option.split)
qed

end
