(* ===== verification/Controller_Steps.thy ===== *)
theory Controller_Steps
  imports Controller_State
begin

text \<open>
  Every command takes a good cluster state to a good one, and the controller refines the
  specification \<open>step_state\<close>: same state, same error, caches still in agreement.
\<close>

section \<open>The specification keeps the invariants\<close>

definition cluster_ok :: "cluster_state \<Rightarrow> bool" where
  "cluster_ok cs \<longleftrightarrow> state_ok cs \<and> relays_ok cs"

lemma relays_ok_same: "relays_ok cs \<Longrightarrow> Sites cs' = Sites cs \<Longrightarrow> Relays cs' = Relays cs \<Longrightarrow> relays_ok cs'"
  by (simp add: relays_ok_def relay_site_def SiteExists_def)

lemma cluster_ok_frame: "cluster_ok cs \<Longrightarrow> state_ok cs' \<Longrightarrow> frame cs' = frame cs \<Longrightarrow> cluster_ok cs'"
  using frame_lengths [of cs' cs] relays_ok_same [of cs cs'] by (simp add: cluster_ok_def)

definition total_ok :: "cluster_state option \<Rightarrow> bool" where
  "total_ok r \<longleftrightarrow> (\<exists>cs. r = Some cs \<and> cluster_ok cs)"

lemma total_okI [intro]: "cluster_ok cs \<Longrightarrow> total_ok (Some cs)"
  by (simp add: total_ok_def)

lemma spread_total: "cluster_ok cs \<Longrightarrow> total_ok (spread_if_initialized cs)"
proof -
  assume ok: "cluster_ok cs"
  then obtain cs' where "spread_tokens cs = Some cs'" "state_ok cs'" "frame cs' = frame cs"
    using spread_tokens_ok by (auto simp: cluster_ok_def)
  then show ?thesis using cluster_ok_frame [OF ok] ok by (auto simp: spread_if_initialized_def total_ok_def)
qed

lemma RemoveNode_total:
  assumes "cluster_ok cs" "n \<in> node_ids cs"
  shows "\<exists>cs'. RemoveNode cs n = Some cs' \<and> cluster_ok cs' \<and> ClusterSettings cs' = ClusterSettings cs
    \<and> node_ids cs' = node_ids cs - {n} \<and> tok_owner cs' = forget_node n (tok_owner cs)"
proof -
  obtain cs' where cs': "RemoveNode cs n = Some cs'" "state_ok cs'" "ClusterSettings cs' = ClusterSettings cs"
      "node_ids cs' = node_ids cs - {n}" "tok_owner cs' = forget_node n (tok_owner cs)"
    using RemoveNode_ok [of cs n] assms by (auto simp: cluster_ok_def)
  then have "relays_ok cs'"
    using assms RemoveNode_untouched [OF cs'(1) assms(2)] relays_ok_same [of cs cs'] by (simp add: cluster_ok_def)
  then show ?thesis using cs' by (simp add: cluster_ok_def)
qed

lemma remove_member_total:
  assumes ok: "cluster_ok cs" and n: "n \<in> node_ids cs" and r: "r = 0 \<or> r \<in> node_ids cs"
  shows "total_ok (remove_member n r cs)"
proof (cases "r = 0")
  case True
  obtain cs' where "RemoveNode cs n = Some cs'" "cluster_ok cs'" using RemoveNode_total [OF ok n] by blast
  then show ?thesis using spread_total by (simp add: remove_member_def True)
next
  case False
  then obtain cs1 where cs1: "hand_over n r cs = Some cs1" "state_ok cs1" "node_ids cs1 = node_ids cs"
      "Sites cs1 = Sites cs" "Relays cs1 = Relays cs"
    using hand_over_ok [of cs n r] ok n r by (auto simp: cluster_ok_def)
  then have "cluster_ok cs1" using relays_ok_same ok by (auto simp: cluster_ok_def)
  then obtain cs2 where "RemoveNode cs1 n = Some cs2" "cluster_ok cs2"
    using RemoveNode_total n cs1(3) by blast
  then show ?thesis using cs1(1) False by (auto simp: remove_member_def)
qed

lemma configure_total:
  assumes ok: "cluster_ok cs" and no: "\<not> AreInitialized (ClusterSettings cs)"
  shows "total_ok (configure st cs)"
proof -
  let ?cs = "State_Initialize (cs\<lparr>ClusterSettings := st\<rparr>)"
  have "state_ok ?cs"
  proof (cases "AreInitialized st")
    case True
    then show ?thesis using State_Initialize_ok [OF _ no True] ok by (simp add: cluster_ok_def)
  next
    case False
    have "Tokens cs = []" "Partitions cs = []" using ok no by (simp_all add: cluster_ok_def state_ok_def sized_def)
    then show ?thesis using ok False
      by (simp add: State_Initialize_def cluster_ok_def state_ok_def nodes_ok_def sized_def tok_sets_def [abs_def]
          tok_owner_def [abs_def] held_sets_def [abs_def] owned_sets_def [abs_def] holder_of_def [abs_def]
          owner_of_def [abs_def] replica_at_def)
  qed
  moreover have "relays_ok ?cs"
    by (rule relays_ok_same [of cs]) (use ok in \<open>simp_all add: cluster_ok_def State_Initialize_def Let_def\<close>)
  ultimately show ?thesis unfolding configure_def by (intro spread_total) (simp add: cluster_ok_def)
qed

lemma reconfigure_total:
  assumes ok: "cluster_ok cs" and n: "map_of (Nodes cs) n = Some nc"
  shows "total_ok (reconfigure_node n cfg nc cs)"
proof -
  let ?cs = "cs\<lparr>Nodes := AList.update n (readdress cfg nc) (Nodes cs)\<rparr>"
  have "state_ok ?cs"
    using node_update_ok [OF _ n, of "readdress cfg nc" ?cs] ok by (simp add: cluster_ok_def readdress_def)
  then have "cluster_ok ?cs" using ok relays_ok_same [of cs ?cs] by (simp add: cluster_ok_def)
  then show ?thesis using spread_total [of ?cs] by (auto simp: reconfigure_node_def Let_def)
qed

lemma add_node_ok:
  assumes "cluster_ok cs"
  shows "cluster_ok (AddNode cs (blank_node cfg))"
proof -
  have "state_ok (AddNode cs (blank_node cfg))"
    using AddNode_ok [of cs "blank_node cfg"] assms by (simp add: cluster_ok_def fresh_node_def blank_node_def)
  moreover have "relays_ok (AddNode cs (blank_node cfg))"
    by (rule relays_ok_same [of cs]) (use assms in \<open>simp_all add: cluster_ok_def AddNode_def\<close>)
  ultimately show ?thesis by (simp add: cluster_ok_def)
qed

lemma site_ops_state_ok [simp]:
  "state_ok (AddSite cs s) = state_ok cs" "state_ok (RemoveSite cs s) = state_ok cs" "state_ok (AddRelay cs s) = state_ok cs"
  "state_ok (RemoveRelay cs s) = state_ok cs" "state_ok (MoveRelay cs r s) = state_ok cs"
  by (rule state_ok_frame; simp add: AddSite_def RemoveSite_def AddRelay_def RemoveRelay_def MoveRelay_def Let_def
      split: option.split)+

lemma removal_refused_iff:
  assumes "\<not> removal_refused n r cs"
  shows "r \<noteq> n" "r = 0 \<or> r \<in> node_ids cs"
  using assms by (auto simp: removal_refused_def split: if_splits)

lemma done_withD: "total_ok r \<Longrightarrow> \<exists>e cs'. done_with r = Some (e, cs') \<and> cluster_ok cs' \<and> (e = None \<or> cs' = cs)"
  by (auto simp: total_ok_def)

text \<open>A command never panics, keeps the invariants, and changes nothing when it reports an error.\<close>

lemma step_state_ok:
  assumes ok: "cluster_ok cs"
  shows "\<exists>e cs'. step_state b cs = Some (e, cs') \<and> cluster_ok cs' \<and> (e = None \<or> cs' = cs)"
proof (cases b)
  case (ClusterUpdateNodeBody n cfg)
  then show ?thesis using ok done_withD [OF reconfigure_total [OF ok]] by (auto split: option.split)
next
  case (ClusterAddNodeBody n cfg)
  then show ?thesis using ok done_withD [OF spread_total [OF add_node_ok [OF ok]]] by auto
next
  case (ClusterRemoveNodeBody n r)
  then show ?thesis using ok done_withD [OF remove_member_total [OF ok]] removal_refused_iff [of n r cs] by auto
next
  case (ClusterTakePartitionReplicaBody p r n)
  obtain e cs' where a: "AssignPartitionReplica cs p r n = Some (e, cs')" "state_ok cs'" "misc cs' = misc cs" "e = None \<or> cs' = cs"
    using AssignPartitionReplica_ok [of cs p r n] ok by (fastforce simp: cluster_ok_def split: if_splits)
  then have "cluster_ok cs'" using ok relays_ok_same [of cs cs'] by (simp add: cluster_ok_def misc_def)
  then show ?thesis using a ok ClusterTakePartitionReplicaBody by auto
next
  case (ClusterSetReplicationFactorBody rf)
  then show ?thesis using ok done_withD [OF configure_total [OF ok]] by (auto simp: AreInitialized_def)
next
  case (ClusterSetPartitionCountBody k)
  then show ?thesis using ok done_withD [OF configure_total [OF ok]] by (auto simp: AreInitialized_def)
next
  case (ClusterRemoveSiteBody s)
  then show ?thesis using ok relays_ok_RemoveSite [of cs s] by (auto simp: cluster_ok_def)
qed (use ok in \<open>auto simp: cluster_ok_def relays_ok_ops\<close>)

section \<open>The controller refines the specification\<close>

definition yields :: "controller \<Rightarrow> controller option \<Rightarrow> cluster_state option \<Rightarrow> bool" where
  "yields c r s \<longleftrightarrow> (case s of None \<Rightarrow> r = None
     | Some cs \<Rightarrow> \<exists>c'. r = Some c' \<and> State c' = cs \<and> cache_ok c' \<and> LocalNodeID c' = LocalNodeID c)"

definition gives :: "controller \<Rightarrow> outcome \<Rightarrow> (cluster_error option \<times> cluster_state) option \<Rightarrow> bool" where
  "gives c r s \<longleftrightarrow> (case s of None \<Rightarrow> r = None
     | Some (e, cs) \<Rightarrow> \<exists>c'. r = Some (e, c') \<and> State c' = cs \<and> cache_ok c' \<and> LocalNodeID c' = LocalNodeID c)"

text \<open>The deltas of a diff: what is gone, then what is new.\<close>

definition token_deltas :: "u64 \<Rightarrow> u64 list \<Rightarrow> u64 list \<Rightarrow> cluster_delta list" where
  "token_deltas me old new =
     map (NodeLoseToken me) (filter (\<lambda>t. t \<notin> set new) old) @ map (NodeGainToken me) (filter (\<lambda>t. t \<notin> set old) new)"

definition replica_deltas :: "(u64 \<Rightarrow> u64 \<Rightarrow> cluster_delta) \<Rightarrow> (u64 \<Rightarrow> u64 \<Rightarrow> cluster_delta) \<Rightarrow>
    replica_map \<Rightarrow> replica_map \<Rightarrow> cluster_delta list" where
  "replica_deltas lose gain old new =
     map (\<lambda>k. lose (fst k) (snd k)) (filter (rm_missing new) (map_pairs old))
     @ map (\<lambda>k. gain (fst k) (snd k)) (filter (rm_missing old) (map_pairs new))"

lemma localDiffTokens_all:
  "localDiffTokensAndNotify snap c = notify_all (case map_of (Nodes (State c)) (LocalNodeID c) of
      None \<Rightarrow> [] | Some nc \<Rightarrow> token_deltas (LocalNodeID c) snap (nc_Tokens nc)) c"
  by (simp add: localDiffTokensAndNotify_def Let_def fold_notify_filter [where g = NodeLoseToken]
      fold_notify_filter [where g = NodeGainToken] token_deltas_def split: option.split)

lemma localDiffReplicas_all:
  "localDiffPartitionReplicasAndNotify snap c = notify_all (case map_of (Nodes (State c)) (LocalNodeID c) of
      None \<Rightarrow> [] | Some nc \<Rightarrow> replica_deltas (NodeLosePartitionReplica (LocalNodeID c))
        (NodeGainPartitionReplica (LocalNodeID c)) snap (PartitionReplicas nc)) c"
  by (simp add: localDiffPartitionReplicasAndNotify_def Let_def replica_deltas_def
      fold_notify_filter [where g = "\<lambda>l k. NodeLosePartitionReplica l (fst k) (snd k)"]
      fold_notify_filter [where g = "\<lambda>l k. NodeGainPartitionReplica l (fst k) (snd k)"] split: option.split)

lemma localDiffOwned_eq:
  "localDiffOwnedPartitionReplicasAndNotify snap c = (case localNodeOwnedPartitionReplicas c of (cur, c') \<Rightarrow>
     notify_all (replica_deltas (NodeLosePartitionReplicaOwnership (LocalNodeID c'))
       (NodeGainPartitionReplicaOwnership (LocalNodeID c')) snap cur) c')"
  by (simp add: localDiffOwnedPartitionReplicasAndNotify_def Let_def replica_deltas_def
      fold_notify_filter [where g = "\<lambda>l k. NodeLosePartitionReplicaOwnership l (fst k) (snd k)"]
      fold_notify_filter [where g = "\<lambda>l k. NodeGainPartitionReplicaOwnership l (fst k) (snd k)"] split: prod.split)

lemma localDiffOwned_all:
  assumes "cache_ok c"
  shows "\<exists>ds c'. localDiffOwnedPartitionReplicasAndNotify snap c = notify_all ds c' \<and> same_but_caches c c' \<and> cache_ok c'"
proof -
  obtain cur c' where l: "localNodeOwnedPartitionReplicas c = (cur, c')" by fastforce
  with localNodeOwned_ok [OF assms l] show ?thesis by (auto simp: localDiffOwned_eq)
qed

lemma clear_both: "clearPartitionOwnersCache (c\<lparr>localNodeOwnedPartitionReplicaCache := None\<rparr>) = no_cache c"
  by (simp add: clearPartitionOwnersCache_def no_cache_def)

lemma diff_both:
  assumes "cache_ok c"
  shows "\<exists>c'. localDiffOwnedPartitionReplicasAndNotify owned (localDiffTokensAndNotify snap c) = c'
    \<and> State c' = State c \<and> cache_ok c' \<and> LocalNodeID c' = LocalNodeID c"
proof -
  obtain ds where "localDiffTokensAndNotify snap c = notify_all ds c" using localDiffTokens_all by blast
  moreover obtain es c' where "localDiffOwnedPartitionReplicasAndNotify owned (notify_all ds c) = notify_all es c'"
      "same_but_caches (notify_all ds c) c'" "cache_ok c'"
    using localDiffOwned_all [of "notify_all ds c" owned] assms by auto
  ultimately show ?thesis using sameD [of "notify_all ds c" c'] by simp
qed

text \<open>Both redistributions snapshot the local node, drop the caches, change the state and notify.\<close>

lemma no_cache_no_cache [simp]: "no_cache (no_cache c) = no_cache c"
  by (simp add: no_cache_def)

lemma snapshot_owned:
  obtains owned c1 where "localNodeOwnedPartitionReplicas (no_cache c) = (owned, c1)" "no_cache c1 = no_cache c"
    "State c1 = State c"
proof -
  obtain owned c1 where l: "localNodeOwnedPartitionReplicas (no_cache c) = (owned, c1)" by fastforce
  then have s: "same_but_caches (no_cache c) c1" using localNodeOwned_ok [OF _ l] by simp
  then have "no_cache c1 = no_cache c" unfolding same_but_caches_def no_cache_no_cache .
  moreover have "State c1 = State c" using sameD(1) [OF s] by simp
  ultimately show thesis using that l by blast
qed

lemma change_and_notify:
  "yields c (Option.bind r (\<lambda>cs. Some (localDiffOwnedPartitionReplicasAndNotify owned
     (localDiffTokensAndNotify snap ((no_cache c)\<lparr>State := cs\<rparr>))))) r"
  using diff_both [of "(no_cache c)\<lparr>State := cs\<rparr>" owned snap for cs] by (cases r) (fastforce simp: yields_def)+

lemma assignTokens_yields: "yields c (assignTokens c) (spread_tokens (State c))"
proof (cases "AssignTokens (Some (sorted_nodes (State c))) (Tokens (State c)) (cs_Partitions (ClusterSettings (State c)))")
  case (Some r)
  obtain owned c1 where l: "localNodeOwnedPartitionReplicas (no_cache c) = (owned, c1)" "no_cache c1 = no_cache c"
    "State c1 = State c" by (rule snapshot_owned)
  show ?thesis
    unfolding assignTokens_def spread_tokens_def Some Option.bind.bind_lunit clear_both l Let_def prod.case no_cache_simps
    by (rule change_and_notify)
qed (simp add: assignTokens_def spread_tokens_def yields_def)

lemma reassignTokens_yields: "yields c (reassignTokens old new c) (hand_over old new (State c))"
proof -
  obtain owned c1 where l: "localNodeOwnedPartitionReplicas (no_cache c) = (owned, c1)" "no_cache c1 = no_cache c"
    "State c1 = State c" by (rule snapshot_owned)
  show ?thesis
  proof (cases "map_of (Nodes (State c)) old")
    case (Some nc)
    show ?thesis
      unfolding reassignTokens_def hand_over_def clear_both l Let_def prod.case no_cache_simps Some option.case
        Option.bind_assoc [symmetric]
      by (rule change_and_notify)
  qed (simp add: reassignTokens_def hand_over_def clear_both l Let_def yields_def)
qed

lemma spread_yields:
  "cache_ok c \<Longrightarrow> yields c (if AreInitialized (ClusterSettings (State c)) then assignTokens c else Some c)
     (spread_if_initialized (State c))"
  using assignTokens_yields [of c] by (simp add: spread_if_initialized_def yields_def)

lemma yields_gives: "yields c r s \<Longrightarrow> gives c (ok_result r) (done_with s)"
  by (auto simp: yields_def gives_def ok_result_def split: option.splits)

lemma gives_Some: "State c' = cs \<Longrightarrow> cache_ok c' \<Longrightarrow> LocalNodeID c' = LocalNodeID c \<Longrightarrow> gives c (Some (e, c')) (Some (e, cs))"
  by (simp add: gives_def)

lemma if_ok_result: "(if b then ok_result r else Some (None, c)) = ok_result (if b then r else Some c)"
  by (simp add: ok_result_def)

lemma cache_ok_state:
  "cache_ok c \<Longrightarrow> Tokens cs = Tokens (State c) \<Longrightarrow> ReplicationFactor (ClusterSettings cs) = ReplicationFactor (ClusterSettings (State c))
     \<Longrightarrow> cache_ok (c\<lparr>State := cs\<rparr>)"
  by (simp add: cache_ok_def owners_of_def [abs_def] owned_of_def)

definition ctl_ok :: "controller \<Rightarrow> bool" where
  "ctl_ok c \<longleftrightarrow> cluster_ok (State c) \<and> cache_ok c"

lemma yields_from: "yields c' r s \<Longrightarrow> LocalNodeID c' = LocalNodeID c \<Longrightarrow> yields c r s"
  by (cases s) (simp_all add: yields_def)

lemma UpdateNodeConfig_gives:
  assumes "cache_ok c"
  shows "gives c (UpdateNodeConfig n cfg c) (step_state (ClusterUpdateNodeBody n cfg) (State c))"
proof (cases "map_of (Nodes (State c)) n")
  case (Some nc)
  let ?c = "c\<lparr>State := (State c)\<lparr>Nodes := AList.update n (readdress cfg nc) (Nodes (State c))\<rparr>\<rparr>"
  have ok: "cache_ok ?c" using assms by (intro cache_ok_state) simp_all
  have same: "nc\<lparr>Address := (Address nc)\<lparr>Host := Host (Address cfg), Port := Port (Address cfg)\<rparr>\<rparr> = readdress cfg nc"
    if "Capacity cfg = Capacity nc" using that by (simp add: readdress_def)
  have "yields c (if AreInitialized (ClusterSettings (State c)) then assignTokens ?c else Some ?c)
      (spread_if_initialized (State ?c))"
    using yields_from [OF spread_yields [OF ok], of c] by simp
  then have y: "gives c (ok_result (if AreInitialized (ClusterSettings (State c)) then assignTokens ?c else Some ?c))
      (done_with (spread_if_initialized (State ?c)))" by (rule yields_gives)
  show ?thesis
  proof (cases "Capacity cfg = Capacity nc")
    case True
    then have "UpdateNodeConfig n cfg c = Some (None, ?c)"
      using Some by (simp add: UpdateNodeConfig_def Let_def same [symmetric])
    then show ?thesis using ok Some True by (simp add: reconfigure_node_def gives_Some)
  next
    case False
    then have "UpdateNodeConfig n cfg c
        = ok_result (if AreInitialized (ClusterSettings (State c)) then assignTokens ?c else Some ?c)"
      using Some by (simp add: UpdateNodeConfig_def Let_def if_ok_result readdress_def)
    moreover have "step_state (ClusterUpdateNodeBody n cfg) (State c) = done_with (spread_if_initialized (State ?c))"
      using Some False by (simp add: reconfigure_node_def)
    ultimately show ?thesis using y by simp
  qed
qed (simp add: UpdateNodeConfig_def gives_Some assms)

lemma AddNode_gives:
  assumes "cache_ok c"
  shows "gives c (Controller_AddNode n cfg c) (step_state (ClusterAddNodeBody n cfg) (State c))"
proof -
  let ?cs = "AddNode (State c) (blank_node cfg)"
  define c' where "c' = (if n = LocalNodeID c then notifyLocalNode (NodeAdd (LocalNodeID c) (blank_node cfg)) (c\<lparr>State := ?cs\<rparr>)
    else c\<lparr>State := ?cs\<rparr>)"
  have "cache_ok (c\<lparr>State := ?cs\<rparr>)" using assms by (intro cache_ok_state) (simp_all add: AddNode_def)
  then have ok: "cache_ok c'" "State c' = ?cs" "LocalNodeID c' = LocalNodeID c" by (simp_all add: c'_def notifyLocalNode_all)
  have y: "gives c (ok_result (if AreInitialized (ClusterSettings ?cs) then assignTokens c' else Some c'))
      (done_with (spread_if_initialized ?cs))"
    by (rule yields_gives [OF yields_from [OF spread_yields [OF ok(1), unfolded ok(2)] ok(3)]])
  have def: "Controller_AddNode n cfg c = (if n \<in> node_ids (State c) \<or> (\<exists>rn. RemovedNodes (State c) = Some rn \<and> n \<in> set rn)
      then Some (Some ECancelConfChange, c)
      else ok_result (if AreInitialized (ClusterSettings ?cs) then assignTokens c' else Some c'))"
    using ok(2) unfolding Controller_AddNode_def Let_def if_ok_result blank_node_def [symmetric]
    by (auto simp: node_ids_iff c'_def split: option.splits)
  show ?thesis
  proof (cases "n \<in> node_ids (State c) \<or> (\<exists>rn. RemovedNodes (State c) = Some rn \<and> n \<in> set rn)")
    case True
    show ?thesis unfolding def step_state.simps if_P [OF True] using assms by (simp add: gives_Some)
  next
    case False
    show ?thesis unfolding def step_state.simps if_not_P [OF False] by (rule y)
  qed
qed

lemma removal_guard:
  "((map_of (Nodes cs) r = None \<and> r \<noteq> 0) \<or> (case map_of (Nodes cs) r of None \<Rightarrow> False | Some nc \<Rightarrow> nc_Tokens nc \<noteq> [])
     \<or> r = n) \<longleftrightarrow> removal_refused n r cs"
  by (auto simp: removal_refused_def node_ids_def tok_sets_def split: option.splits)

lemma reassigned_removal:
  assumes "cluster_ok cs" "hand_over n r cs = Some cs1" "RemoveNode cs1 n = Some cs2" "n \<in> node_ids cs" "r \<in> node_ids cs" "r \<noteq> n"
  shows "Tokens cs2 = Tokens cs1 \<and> ClusterSettings cs2 = ClusterSettings cs1"
proof -
  have h: "state_ok cs1" "node_ids cs1 = node_ids cs"
      "tok_owner cs1 = (\<lambda>t. if tok_owner cs t = Some n then Some r else tok_owner cs t)"
    using hand_over_ok [of cs n r] assms by (auto simp: cluster_ok_def)
  have r: "state_ok cs2" "tok_owner cs2 = forget_node n (tok_owner cs1)" "ClusterSettings cs2 = ClusterSettings cs1"
    using RemoveNode_ok [OF h(1), of n] assms h(2) by auto
  have "tok_owner cs2 = tok_owner cs1" using assms(6) by (simp add: r(2) h(3) forget_node_def fun_eq_iff)
  moreover have "sized cs1" "sized cs2" using h(1) r(1) by (simp_all add: state_ok_def)
  moreover then have "length (Tokens cs2) = length (Tokens cs1)" using r(3) by (auto simp: sized_def split: if_splits)
  ultimately show ?thesis using Tokens_owner r(3) by blast
qed

lemma yields_bindI:
  assumes "yields c r s" "\<And>c' cs. r = Some c' \<Longrightarrow> s = Some cs \<Longrightarrow> State c' = cs \<Longrightarrow> cache_ok c' \<Longrightarrow>
    LocalNodeID c' = LocalNodeID c \<Longrightarrow> yields c (f c') (g cs)"
  shows "yields c (Option.bind r f) (Option.bind s g)"
proof (cases s)
  case None
  then show ?thesis using assms(1) by (simp add: yields_def)
next
  case (Some cs)
  then obtain c' where "r = Some c'" "State c' = cs" "cache_ok c'" "LocalNodeID c' = LocalNodeID c"
    using assms(1) by (auto simp: yields_def)
  then show ?thesis using assms(2) Some by simp
qed

lemma yields_notify:
  assumes "yields c r s"
  shows "yields c (map_option (\<lambda>c. if P c then notifyLocalNode (d c) c else c) r) s"
proof (cases s)
  case (Some cs)
  then obtain c' where "r = Some c'" "State c' = cs" "cache_ok c'" "LocalNodeID c' = LocalNodeID c"
    using assms by (auto simp: yields_def)
  then show ?thesis using Some by (simp add: yields_def notifyLocalNode_all)
qed (use assms in \<open>simp add: yields_def\<close>)

lemma RemoveNode_gives:
  assumes ok: "ctl_ok c"
  shows "gives c (Controller_RemoveNode n r c) (step_state (ClusterRemoveNodeBody n r) (State c))"
proof -
  note cl = ok [unfolded ctl_ok_def, THEN conjunct1] and ca = ok [unfolded ctl_ok_def, THEN conjunct2]
  consider "removal_refused n r (State c)" | "\<not> removal_refused n r (State c)" "n \<notin> node_ids (State c)"
    | "\<not> removal_refused n r (State c)" "n \<in> node_ids (State c)" by blast
  then show ?thesis
  proof cases
    case 3
    note r = removal_refused_iff [OF 3(1)]
    define f where "f = (\<lambda>c. Option.bind (RemoveNode (State c) n) (\<lambda>cs. let c = c\<lparr>State := cs\<rparr> in
        if r = 0 \<and> AreInitialized (ClusterSettings (State c)) then assignTokens c else Some c))"
    have y: "yields c (Option.bind (if r \<noteq> 0 then reassignTokens n r c else Some c) f) (remove_member n r (State c))"
    proof (cases "r = 0")
      case True
      have "yields c (Option.bind (RemoveNode (State c) n) (\<lambda>cs. if AreInitialized (ClusterSettings cs)
          then assignTokens (c\<lparr>State := cs\<rparr>) else Some (c\<lparr>State := cs\<rparr>)))
          (Option.bind (RemoveNode (State c) n) spread_if_initialized)"
      proof -
        obtain cs where cs: "RemoveNode (State c) n = Some cs" "ClusterSettings cs = ClusterSettings (State c)" "cluster_ok cs"
            "tok_owner cs = forget_node n (tok_owner (State c))"
          using RemoveNode_total [OF cl 3(2)] by blast
        show ?thesis
        proof (cases "AreInitialized (ClusterSettings cs)")
          case True
          then show ?thesis using yields_from [OF assignTokens_yields [of "c\<lparr>State := cs\<rparr>"], of c] cs(1)
            by (simp add: spread_if_initialized_def)
        next
          case False
          then have "Tokens cs = []" "Tokens (State c) = []"
            using cs(2,3) cl by (simp_all add: cluster_ok_def state_ok_def sized_def)
          then have "cache_ok (c\<lparr>State := cs\<rparr>)" using ca cs(2) by (intro cache_ok_state) simp_all
          then show ?thesis using False cs(1) by (simp add: spread_if_initialized_def yields_def)
        qed
      qed
      then show ?thesis using True by (simp add: f_def remove_member_def Let_def)
    next
      case False
      then have rin: "r \<in> node_ids (State c)" using r(2) by blast
      have "yields c (Option.bind (reassignTokens n r c) f) (Option.bind (hand_over n r (State c)) (\<lambda>cs. RemoveNode cs n))"
      proof (rule yields_bindI [OF reassignTokens_yields])
        fix c1 cs1 assume "reassignTokens n r c = Some c1" and a: "hand_over n r (State c) = Some cs1" "State c1 = cs1" "cache_ok c1" "LocalNodeID c1 = LocalNodeID c"
        show "yields c (f c1) (RemoveNode cs1 n)"
        proof (cases "RemoveNode cs1 n")
          case (Some cs2)
          then have "cache_ok (c1\<lparr>State := cs2\<rparr>)"
            using reassigned_removal [OF cl a(1) Some 3(2) rin r(1)] a by (intro cache_ok_state) simp_all
          then show ?thesis using Some False a by (simp add: f_def yields_def)
        qed (use a in \<open>simp add: f_def yields_def\<close>)
      qed
      then show ?thesis using False by (simp add: remove_member_def)
    qed
    have "Controller_RemoveNode n r c = ok_result (map_option (\<lambda>c. if n = LocalNodeID c then notifyLocalNode (NodeRemove (LocalNodeID c)) c else c)
        (Option.bind (if r \<noteq> 0 then reassignTokens n r c else Some c) f))"
      using 3 unfolding Controller_RemoveNode_def Let_def removal_guard f_def ok_result_def
      by (simp add: node_ids_iff map_conv_bind_option Option.bind_assoc del: not_None_eq cong: if_cong)
    then show ?thesis using yields_gives [OF yields_notify [OF y]] 3 by simp
  qed (simp_all add: Controller_RemoveNode_def Let_def removal_guard node_ids_iff gives_Some ca)
qed

lemma owners_bound: "length (Tokens cs) < 2 ^ 64 \<Longrightarrow> length (owners_of cs p) < 2 ^ 64"
proof -
  assume len: "length (Tokens cs) < 2 ^ 64"
  let ?rf = "ReplicationFactor (ClusterSettings cs)"
  have u: "unat ?rf < 2 ^ 64" using unsigned_less [of ?rf, where 'a = nat] by simp
  have loop: "length (owners_loop T q rf is acc) \<le> length acc + length is" for T q rf "is" acc
  proof (induction "is" arbitrary: acc)
    case (Cons i "is")
    then show ?case using Cons.IH [of acc] Cons.IH [of "acc @ [x]" for x] by (simp add: Let_def) (use le_SucI in blast)
  qed simp
  let ?O = "owners_loop (Tokens cs) (unat p) (sint ?rf) [0..<length (Tokens cs)] []"
  have O: "length ?O \<le> length (Tokens cs)" using loop [of "Tokens cs" "unat p" "sint ?rf" "[0..<length (Tokens cs)]" "[]"] by simp
  have "length ?O + unat (?rf - of_nat (length ?O)) = unat ?rf" if "of_nat (length ?O) < ?rf"
  proof -
    have l: "unat (of_nat (length ?O) :: u64) = length ?O" using O len by (simp add: unat_of_nat take_bit_nat_eq_self_iff)
    then show ?thesis using that unat_sub [of "of_nat (length ?O)" ?rf] by (simp add: word_less_nat_alt word_le_nat_alt)
  qed
  then show ?thesis using O len u by (auto simp: owners_of_def Owners_def Let_def)
qed

lemma TakePartitionReplica_gives:
  assumes ok: "ctl_ok c"
  shows "gives c (TakePartitionReplica p r n c) (step_state (ClusterTakePartitionReplicaBody p r n) (State c))"
proof -
  note cl = ok [unfolded ctl_ok_def, THEN conjunct1] and ca = ok [unfolded ctl_ok_def, THEN conjunct2]
  obtain os c1 where po: "partitionOwners p c = (os, c1)" by fastforce
  note o = partitionOwners_ok [OF ca po]
  then have os: "os = owners_of (State c) p" and c1: "cache_ok c1" "State c1 = State c" "LocalNodeID c1 = LocalNodeID c"
    by (auto dest: sameD)
  have "length os < 2 ^ 64"
    using owners_bound [of "State c" p] state_lengths [of "State c"] cl os by (simp add: cluster_ok_def state_ok_def)
  then have guard: "of_nat (length os) \<le> r \<or> os = [] \<longleftrightarrow> length os \<le> unat r" by (auto simp: of_nat_le_u64)
  obtain e cs where a: "AssignPartitionReplica (State c) p r n = Some (e, cs)" "state_ok cs" "misc cs = misc (State c)"
      "tok_owner cs = tok_owner (State c)"
    using AssignPartitionReplica_ok [of "State c" p r n] cl by (auto simp: cluster_ok_def)
  have "Tokens cs = Tokens (State c)"
    using a cl by (intro Tokens_owner) (simp_all add: cluster_ok_def state_ok_def misc_def)
  then have k: "cache_ok (c1\<lparr>State := cs\<rparr>)" using c1 a(3) by (intro cache_ok_state) (simp_all add: misc_def)
  show ?thesis
  proof (cases "length os \<le> unat r \<or> os ! unat r \<noteq> n")
    case True
    then show ?thesis
      by (auto simp: TakePartitionReplica_def po Let_def guard os [symmetric] gives_Some c1)
  next
    case False
    have "TakePartitionReplica p r n c = (case e of Some err \<Rightarrow> Some (Some err, c1\<lparr>State := cs\<rparr>)
        | None \<Rightarrow> Some (None, localDiffPartitionReplicasAndNotify (localNodePartitionReplicaSnapshot c) (c1\<lparr>State := cs\<rparr>)))"
      using False by (simp add: TakePartitionReplica_def po Let_def guard c1(2) a(1))
    moreover have "step_state (ClusterTakePartitionReplicaBody p r n) (State c) = Some (e, cs)"
      using False a(1) by (simp add: os [symmetric])
    ultimately show ?thesis using k c1 by (simp add: localDiffReplicas_all gives_Some split: option.split)
  qed
qed

lemma settings_gives:
  assumes ok: "ctl_ok c" and no: "\<not> AreInitialized (ClusterSettings (State c))"
  shows "gives c (ok_result (initializeClusterIfReady (c\<lparr>State := (State c)\<lparr>ClusterSettings := st\<rparr>\<rparr>)))
    (done_with (configure st (State c)))"
proof (rule yields_gives)
  let ?cs = "(State c)\<lparr>ClusterSettings := st\<rparr>"
  show "yields c (initializeClusterIfReady (c\<lparr>State := ?cs\<rparr>)) (configure st (State c))"
  proof (cases "AreInitialized st")
    case True
    then have "ClusterSettings (State_Initialize ?cs) = st" by (simp add: State_Initialize_def Let_def)
    then show ?thesis
      using True yields_from [OF assignTokens_yields [of "c\<lparr>State := State_Initialize ?cs\<rparr>"], of c]
      by (simp add: initializeClusterIfReady_def configure_def spread_if_initialized_def)
  next
    case False
    have t: "Tokens (State c) = []" using ok no by (simp add: ctl_ok_def cluster_ok_def state_ok_def sized_def)
    have "Owners [] p rf = []" for p rf by (simp add: Owners_def)
    then have "cache_ok (c\<lparr>State := ?cs\<rparr>)"
      using ok t by (simp add: ctl_ok_def cache_ok_def owners_of_def [abs_def] owned_of_def)
    then show ?thesis using False
      by (simp add: initializeClusterIfReady_def configure_def spread_if_initialized_def State_Initialize_def yields_def)
  qed
qed

lemma site_ops_cache:
  assumes "cache_ok c"
  shows "cache_ok (c\<lparr>State := AddSite (State c) s\<rparr>)" "cache_ok (c\<lparr>State := RemoveSite (State c) s\<rparr>)"
    "cache_ok (c\<lparr>State := AddRelay (State c) s\<rparr>)" "cache_ok (c\<lparr>State := RemoveRelay (State c) s\<rparr>)"
    "cache_ok (c\<lparr>State := MoveRelay (State c) r s\<rparr>)"
  by (rule cache_ok_state [OF assms]; simp add: AddSite_def RemoveSite_def AddRelay_def RemoveRelay_def MoveRelay_def Let_def
      split: option.split)+

lemmas site_handlers = Controller_AddSite_def Controller_RemoveSite_def Controller_AddRelay_def Controller_RemoveRelay_def
  Controller_MoveRelay_def

text \<open>The handler of every command does to the state what the specification says.\<close>

lemma handle_gives:
  assumes ok: "ctl_ok c"
  shows "gives c (handle b c) (step_state b (State c))"
proof -
  note ca = ok [unfolded ctl_ok_def, THEN conjunct2]
  show ?thesis
  proof (cases b)
    case (ClusterSetReplicationFactorBody rf)
    have "\<not> AreInitialized (ClusterSettings (State c))" if "ReplicationFactor (ClusterSettings (State c)) = 0"
      using that by (simp add: AreInitialized_def)
    then show ?thesis using settings_gives [OF ok] ca ClusterSetReplicationFactorBody
      by (simp add: SetReplicationFactor_def gives_Some)
  next
    case (ClusterSetPartitionCountBody k)
    have "\<not> AreInitialized (ClusterSettings (State c))" if "cs_Partitions (ClusterSettings (State c)) = 0"
      using that by (simp add: AreInitialized_def)
    then show ?thesis using settings_gives [OF ok] ca ClusterSetPartitionCountBody
      by (simp add: SetPartitionCount_def gives_Some)
  next
    case (ClusterUpdateNodeBody n cfg)
    then show ?thesis using UpdateNodeConfig_gives [OF ca] by (simp only: handle.simps)
  next
    case (ClusterAddNodeBody n cfg)
    then show ?thesis using AddNode_gives [OF ca] by (simp only: handle.simps)
  next
    case (ClusterRemoveNodeBody n r)
    then show ?thesis using RemoveNode_gives [OF ok] by (simp only: handle.simps)
  next
    case (ClusterTakePartitionReplicaBody p r n)
    then show ?thesis using TakePartitionReplica_gives [OF ok] by (simp only: handle.simps)
  qed (auto simp: site_handlers notifyLocalNode_all site_ops_cache [OF ca] ca intro!: gives_Some split: option.split)
qed

end
