(* ===== verification/Controller_Runs.thy ===== *)
theory Controller_Runs
  imports Controller_Steps
begin

text \<open>
  Whole executions. A machine that refines a specification on an abstraction of its state produces, from
  any log, the outputs of the specification; two machines with the same abstract state therefore
  agree on every log. The cluster controller is such a machine, its abstraction the cluster state.
  \<open>reachable\<close> is the set of controllers an execution can produce, with queries and the notification
  switches interleaved with the commands.
\<close>

fun run_machine :: "('b \<Rightarrow> 'c \<Rightarrow> ('r \<times> 'c) option) \<Rightarrow> 'b list \<Rightarrow> 'c \<Rightarrow> ('r list \<times> 'c) option" where
  "run_machine step [] c = Some ([], c)"
| "run_machine step (b # bs) c =
     Option.bind (step b c) (\<lambda>(r, c). Option.bind (run_machine step bs c) (\<lambda>(rs, c). Some (r # rs, c)))"

locale refining_machine =
  fixes step :: "'b \<Rightarrow> 'c \<Rightarrow> ('r \<times> 'c) option"
    and spec :: "'b \<Rightarrow> 's \<Rightarrow> ('e \<times> 's) option"
    and abst :: "'c \<Rightarrow> 's" and out :: "'r \<Rightarrow> 'e" and inv :: "'c \<Rightarrow> bool"
  assumes step_refines: "inv c \<Longrightarrow> \<exists>r c'. step b c = Some (r, c') \<and> inv c' \<and> spec b (abst c) = Some (out r, abst c')"
begin

lemma run_refines:
  "inv c \<Longrightarrow> \<exists>rs c'. run_machine step bs c = Some (rs, c') \<and> inv c' \<and> run_machine spec bs (abst c) = Some (map out rs, abst c')"
proof (induction bs arbitrary: c)
  case (Cons b bs)
  obtain r c1 where s: "step b c = Some (r, c1)" "inv c1" "spec b (abst c) = Some (out r, abst c1)"
    using step_refines [OF Cons.prems] by blast
  then show ?case using Cons.IH [OF s(2)] by auto
qed simp

lemma runs_agree:
  assumes "inv c" "inv d" "abst c = abst d"
  shows "\<exists>rs c' ss d'. run_machine step bs c = Some (rs, c') \<and> run_machine step bs d = Some (ss, d')
    \<and> map out rs = map out ss \<and> abst c' = abst d' \<and> inv c' \<and> inv d'"
  using run_refines [OF assms(1), of bs] run_refines [OF assms(2), of bs] assms(3) by auto

end

section \<open>The controller as a machine\<close>

definition spec_step :: "cluster_error + command_body \<Rightarrow> cluster_state \<Rightarrow> (cluster_error option \<times> cluster_state) option" where
  "spec_step body cs = (case body of Inl e \<Rightarrow> Some (Some ECouldNotParseCommand, cs) | Inr b \<Rightarrow> step_state b cs)"

lemma ctl_ok_deltas [simp]:
  "ctl_ok (c\<lparr>nextDeltaSet := ds\<rparr>) = ctl_ok c" "ctl_ok (c\<lparr>LocalUpdates := us\<rparr>) = ctl_ok c"
  "ctl_ok (c\<lparr>notificationsEnabled := b\<rparr>) = ctl_ok c"
  by (simp_all add: ctl_ok_def cache_ok_def)

lemma Step_spec:
  assumes ok: "ctl_ok c"
  shows "\<exists>r c'. Step body c = Some (r, c') \<and> ctl_ok c' \<and> LocalNodeID c' = LocalNodeID c
    \<and> spec_step body (State c) = Some (snd r, State c')"
proof (cases body)
  case (Inl e)
  then show ?thesis using ok by (simp add: Step_def spec_step_def)
next
  case (Inr b)
  let ?c = "c\<lparr>nextDeltaSet := []\<rparr>"
  obtain e cs where s: "step_state b (State c) = Some (e, cs)" "cluster_ok cs"
    using step_state_ok [of "State c" b] ok by (auto simp: ctl_ok_def)
  then obtain c1 where c1: "handle b ?c = Some (e, c1)" "State c1 = cs" "cache_ok c1" "LocalNodeID c1 = LocalNodeID c"
    using handle_gives [of ?c b] ok by (auto simp: gives_def)
  then have "ctl_ok c1" using s(2) by (simp add: ctl_ok_def)
  then show ?thesis using Inr s c1 by (simp add: Step_def spec_step_def Let_def)
qed

interpretation ctl: refining_machine Step spec_step State snd ctl_ok
  using Step_spec by unfold_locales blast

section \<open>Snapshots\<close>

text \<open>
  \<open>ApplySnapshot\<close> computes the replicas owned before the snapshot with the caches it has just cleared,
  which fills them again, and does not clear them after the new state is in place. The caches are
  right only if the cluster was not initialized before.
\<close>

definition cached_owners :: "controller \<Rightarrow> u64 \<Rightarrow> u64 list option" where
  "cached_owners c p = Option.bind (partitionOwnersCache c) (\<lambda>m. map_of m p)"

lemma partitionOwners_caches:
  assumes "cache_ok c" "partitionOwners p c = (os, c')"
  shows "cached_owners c' q = (if q = p then Some (owners_of (State c) p) else cached_owners c q)"
  using assms partitionOwners_ok [OF assms]
  by (auto simp: partitionOwners_def cached_owners_def Let_def owners_of_def [symmetric] update_conv' split: option.splits)

lemma owned_loop_caches:
  assumes "cache_ok c" "owned_loop ps c m = (m', c')"
  shows "cached_owners c' q = (if q \<in> of_nat ` set ps then Some (owners_of (State c) q) else cached_owners c q)"
  using assms
proof (induction ps arbitrary: c m)
  case (Cons p ps)
  obtain os c1 where po: "partitionOwners (of_nat p) c = (os, c1)" by fastforce
  note o = partitionOwners_ok [OF Cons.prems(1) po] and k = partitionOwners_caches [OF Cons.prems(1) po]
  have "owned_loop ps c1 (owned_replicas (LocalNodeID c1) (of_nat p) 0 os m) = (m', c')" using Cons.prems(2) po by simp
  from Cons.IH [OF _ this] o show ?case by (auto simp: k dest: sameD)
qed simp

definition snapshot_deltas :: "controller \<Rightarrow> controller \<Rightarrow> controller" where
  "snapshot_deltas c0 c =
     (let c = (case (map_of (Nodes (State c0)) (LocalNodeID c0), map_of (Nodes (State c)) (LocalNodeID c)) of
                 (None, Some nc) \<Rightarrow> notifyLocalNode (NodeAdd (LocalNodeID c) nc) c | _ \<Rightarrow> c)
      in localDiffTokensAndNotify (localNodeTokenSnapshot c0) c)"

lemma snapshot_deltas_all: "\<exists>ds. snapshot_deltas c0 c = notify_all ds c"
  by (simp add: snapshot_deltas_def localDiffTokens_all notifyLocalNode_all Let_def split: option.split)
    (metis notify_all_simps(8,9))

lemma fold_all:
  assumes "\<And>x c. \<exists>ds. f x c = notify_all ds c"
  shows "\<exists>ds. fold f xs c = notify_all ds c"
proof (induction xs arbitrary: c)
  case (Cons x xs)
  obtain ds where "f x c = notify_all ds c" using assms by blast
  moreover obtain es where "fold f xs (notify_all ds c) = notify_all es (notify_all ds c)" using Cons by blast
  ultimately show ?case by auto
qed (auto intro: exI [of _ "[]"])

lemma notify_all_id: "\<exists>ds. c = notify_all ds c"
  by (rule exI [of _ "[]"]) simp

lemma diffRelays_all: "\<exists>ds. diffRelaysAndNotify snap c = notify_all ds c"
proof -
  obtain ds where ds: "fold (\<lambda>(relay, site) c. case relay_site (State c) relay of None \<Rightarrow> notifyLocalNode (RelayRemoved relay) c
      | Some s \<Rightarrow> if s \<noteq> site then notifyLocalNode (RelayMoved relay s) c else c) snap c = notify_all ds c"
    using fold_all [of "\<lambda>(relay, site) c. case relay_site (State c) relay of None \<Rightarrow> notifyLocalNode (RelayRemoved relay) c
      | Some s \<Rightarrow> if s \<noteq> site then notifyLocalNode (RelayMoved relay s) c else c" snap c]
    by (fastforce simp: notifyLocalNode_all intro: notify_all_id split: option.split)
  obtain es where "fold (\<lambda>(relay, site) c. if map_of snap relay = None then notifyLocalNode (RelayAdded relay) c else c)
      (relaysSnapshot (notify_all ds c)) (notify_all ds c) = notify_all es (notify_all ds c)"
    using fold_all [of "\<lambda>(relay, site) c. if map_of snap relay = None then notifyLocalNode (RelayAdded relay) c else c"]
    by (fastforce simp: notifyLocalNode_all intro: notify_all_id)
  then show ?thesis by (auto simp: diffRelaysAndNotify_def ds Let_def)
qed

lemma diffSites_all: "\<exists>ds. diffSitesAndNotify snap c = notify_all ds c"
proof -
  obtain ds where ds: "fold (\<lambda>site c. if \<not> SiteExists (State c) site then notifyLocalNode (SiteRemoved site) c else c) snap c
      = notify_all ds c"
    using fold_all [of "\<lambda>site c. if \<not> SiteExists (State c) site then notifyLocalNode (SiteRemoved site) c else c" snap c]
    by (fastforce simp: notifyLocalNode_all intro: notify_all_id)
  obtain es where "fold (\<lambda>site c. if site \<notin> set snap then notifyLocalNode (SiteAdded site) c else c)
      (sitesSnapshot (notify_all ds c)) (notify_all ds c) = notify_all es (notify_all ds c)"
    using fold_all [of "\<lambda>site c. if site \<notin> set snap then notifyLocalNode (SiteAdded site) c else c"]
    by (fastforce simp: notifyLocalNode_all intro: notify_all_id)
  then show ?thesis by (auto simp: diffSitesAndNotify_def ds Let_def)
qed

lemma ApplySnapshot_shape:
  assumes "localNodeOwnedPartitionReplicas (no_cache c) = (owned, c1)"
  shows "\<exists>ds es. ApplySnapshot (Some cs) c =
    (True, notify_all es (localDiffOwnedPartitionReplicasAndNotify owned (notify_all ds (c1\<lparr>State := cs\<rparr>))))"
proof -
  have nc: "(clearPartitionOwnersCache c)\<lparr>localNodeOwnedPartitionReplicaCache := None\<rparr> = no_cache c"
    by (simp add: clearPartitionOwnersCache_def no_cache_def)
  define ca where "ca = snapshot_deltas c1 (c1\<lparr>State := cs\<rparr>)"
  define cb where "cb = localDiffOwnedPartitionReplicasAndNotify owned ca"
  define cc where "cc = localDiffPartitionReplicasAndNotify (localNodePartitionReplicaSnapshot c1) cb"
  define cd where "cd = diffSitesAndNotify (sitesSnapshot c1) (diffRelaysAndNotify (relaysSnapshot c1) cc)"
  define ce where "ce = (if map_of (Nodes (State c1)) (LocalNodeID c1) \<noteq> None \<and> map_of (Nodes cs) (LocalNodeID c1) = None
    then notifyLocalNode (NodeRemove (LocalNodeID cd)) cd else cd)"
  have "ApplySnapshot (Some cs) c = (True, ce)"
    unfolding ApplySnapshot_def Let_def nc assms prod.case option.case ca_def cb_def cc_def cd_def ce_def snapshot_deltas_def
    by (simp cong: option.case_cong)
  moreover obtain ds where "ca = notify_all ds (c1\<lparr>State := cs\<rparr>)" using snapshot_deltas_all ca_def by blast
  moreover obtain es where "cc = notify_all es cb" using localDiffReplicas_all cc_def by blast
  moreover obtain fs where "cd = notify_all fs cc"
  proof -
    obtain xs where xs: "diffRelaysAndNotify (relaysSnapshot c1) cc = notify_all xs cc" using diffRelays_all by blast
    obtain ys where "diffSitesAndNotify (sitesSnapshot c1) (notify_all xs cc) = notify_all ys (notify_all xs cc)"
      using diffSites_all by blast
    then show thesis using xs that by (simp add: cd_def)
  qed
  moreover obtain gs where "ce = notify_all gs cd"
    by (metis ce_def notifyLocalNode_all notify_all_simps(9))
  ultimately show ?thesis by (auto simp: cb_def)
qed

text \<open>A controller whose cluster was not initialized is restored correctly.\<close>

lemma ApplySnapshot_restores:
  assumes no: "\<not> ClusterIsInitialized c" and cs: "cluster_ok cs"
  shows "\<exists>c'. ApplySnapshot (Some cs) c = (True, c') \<and> ctl_ok c' \<and> State c' = cs \<and> LocalNodeID c' = LocalNodeID c"
proof -
  have l: "localNodeOwnedPartitionReplicas (no_cache c) = ([], no_cache c)"
    using no by (simp add: localNodeOwnedPartitionReplicas_def ClusterIsInitialized_def)
  obtain ds es where a: "ApplySnapshot (Some cs) c =
      (True, notify_all es (localDiffOwnedPartitionReplicasAndNotify [] (notify_all ds ((no_cache c)\<lparr>State := cs\<rparr>))))"
    using ApplySnapshot_shape [OF l] by blast
  obtain fs c' where "localDiffOwnedPartitionReplicasAndNotify [] (notify_all ds ((no_cache c)\<lparr>State := cs\<rparr>)) = notify_all fs c'"
      "same_but_caches (notify_all ds ((no_cache c)\<lparr>State := cs\<rparr>)) c'" "cache_ok c'"
    using localDiffOwned_all [of "notify_all ds ((no_cache c)\<lparr>State := cs\<rparr>)" "[]"] by auto
  then show ?thesis using a cs sameD(1,2) [of "notify_all ds ((no_cache c)\<lparr>State := cs\<rparr>)" c'] by (simp add: ctl_ok_def)
qed

text \<open>A controller whose cluster was initialized keeps answering with the owners of the old state.\<close>

lemma ApplySnapshot_caches:
  assumes init: "ClusterIsInitialized c" "AreInitialized (ClusterSettings cs)"
    and p: "unat p < length (Tokens (State c))"
  shows "cached_owners (snd (ApplySnapshot (Some cs) c)) p = Some (owners_of (State c) p)"
    "State (snd (ApplySnapshot (Some cs) c)) = cs"
proof -
  obtain m c1 where loop: "owned_loop [0..<length (Tokens (State c))] (no_cache c) [] = (m, c1)" by fastforce
  let ?c1 = "c1\<lparr>localNodeOwnedPartitionReplicaCache := Some m\<rparr>"
  have "localNodeOwnedPartitionReplicaCache (no_cache c) = None" by (simp add: no_cache_def)
  then have l: "localNodeOwnedPartitionReplicas (no_cache c) = (m, ?c1)"
    using init(1) loop by (simp add: localNodeOwnedPartitionReplicas_def ClusterIsInitialized_def)
  obtain ds es where a: "ApplySnapshot (Some cs) c =
      (True, notify_all es (localDiffOwnedPartitionReplicasAndNotify m (notify_all ds (?c1\<lparr>State := cs\<rparr>))))"
    using ApplySnapshot_shape [OF l] by blast
  have "localNodeOwnedPartitionReplicas (notify_all ds (?c1\<lparr>State := cs\<rparr>)) = (m, notify_all ds (?c1\<lparr>State := cs\<rparr>))"
    using init(2) by (simp add: localNodeOwnedPartitionReplicas_def)
  then obtain fs where "ApplySnapshot (Some cs) c = (True, notify_all fs (?c1\<lparr>State := cs\<rparr>))"
    using a by (auto simp: localDiffOwned_eq)
  then have s: "snd (ApplySnapshot (Some cs) c) = notify_all fs (?c1\<lparr>State := cs\<rparr>)" by simp
  have "p \<in> of_nat ` set [0..<length (Tokens (State c))]" using p by (intro image_eqI [of _ _ "unat p"]) simp_all
  then have "cached_owners c1 p = Some (owners_of (State c) p)"
    using owned_loop_caches [OF _ loop, of p] by simp
  then show "cached_owners (snd (ApplySnapshot (Some cs) c)) p = Some (owners_of (State c) p)"
    "State (snd (ApplySnapshot (Some cs) c)) = cs" by (simp_all add: s cached_owners_def)
qed

section \<open>Reachable controllers\<close>

definition empty_state :: cluster_state where
  "empty_state = \<lparr>RemovedNodes = None, Nodes = [], Tokens = [], Partitions = [],
     ClusterSettings = \<lparr>ReplicationFactor = 0, cs_Partitions = 0\<rparr>, Sites = None, Relays = None\<rparr>"

definition new_controller :: "u64 \<Rightarrow> controller" where
  "new_controller n = \<lparr>LocalNodeID = n, State = empty_state, LocalUpdates = [], notificationsEnabled = False,
     nextDeltaSet = [], localNodeOwnedPartitionReplicaCache = None, partitionOwnersCache = None\<rparr>"

inductive reachable :: "controller \<Rightarrow> bool" where
  start: "reachable (new_controller n)"
| command: "reachable c \<Longrightarrow> Step body c = Some (r, c') \<Longrightarrow> reachable c'"
| owners_query: "reachable c \<Longrightarrow> PartitionOwners p c = (os, c') \<Longrightarrow> reachable c'"
| owned_query: "reachable c \<Longrightarrow> LocalNodeOwnedPartitionReplicas c = (rs, c') \<Longrightarrow> reachable c'"
| enable: "reachable c \<Longrightarrow> reachable (EnableNotifications c)"
| disable: "reachable c \<Longrightarrow> reachable (DisableNotifications c)"
| restore: "reachable c \<Longrightarrow> \<not> ClusterIsInitialized c \<Longrightarrow> cluster_ok cs \<Longrightarrow>
    ApplySnapshot (Some cs) c = (ok, c') \<Longrightarrow> reachable c'"

lemma empty_state_ok: "cluster_ok empty_state"
  by (simp add: cluster_ok_def state_ok_def relays_ok_def empty_state_def nodes_ok_def sized_def AreInitialized_def
      ownership_def tok_sets_def tok_owner_def held_sets_def holder_of_def owned_sets_def owner_of_def replica_at_def
      relay_site_def split: prod.split)

lemma new_controller_ok: "ctl_ok (new_controller n)"
  using empty_state_ok by (simp add: ctl_ok_def new_controller_def cache_ok_def)

lemma ctl_ok_same: "ctl_ok c \<Longrightarrow> cache_ok c' \<Longrightarrow> same_but_caches c c' \<Longrightarrow> ctl_ok c'"
  by (simp add: ctl_ok_def sameD)

lemma PartitionOwners_ok:
  assumes "ctl_ok c" "PartitionOwners p c = (os, c')"
  shows "ctl_ok c' \<and> State c' = State c \<and> os = (if ClusterIsInitialized c then owners_of (State c) p else [])"
proof (cases "AreInitialized (ClusterSettings (State c))")
  case True
  have s: "length (Tokens (State c)) = length (Partitions (State c))" "length (Partitions (State c)) < 2 ^ 64"
    using assms(1) True state_lengths [of "State c"] by (auto simp: ctl_ok_def cluster_ok_def state_ok_def sized_def)
  show ?thesis
  proof (cases "of_nat (length (Partitions (State c))) \<le> p")
    case far: True
    then show ?thesis using assms True s by (auto simp: PartitionOwners_def ClusterIsInitialized_def owners_of_def Owners_def)
  next
    case False
    then have "partitionOwners p c = (os, c')" using assms(2) True by (simp add: PartitionOwners_def)
    then show ?thesis using partitionOwners_ok [of c p os c'] assms(1) True ctl_ok_same sameD
      by (fastforce simp: ctl_ok_def ClusterIsInitialized_def)
  qed
qed (use assms in \<open>auto simp: PartitionOwners_def ClusterIsInitialized_def\<close>)

lemma LocalNodeOwned_ok:
  assumes "ctl_ok c" "LocalNodeOwnedPartitionReplicas c = (rs, c')"
  shows "ctl_ok c' \<and> State c' = State c"
proof -
  obtain m c1 where l: "localNodeOwnedPartitionReplicas c = (m, c1)" by fastforce
  have c: "cache_ok c1" "same_but_caches c c1" using localNodeOwned_ok [OF _ l] assms(1) by (simp_all add: ctl_ok_def)
  have "c' = c \<or> c' = c1" using assms(2) l by (auto simp: LocalNodeOwnedPartitionReplicas_def split: if_splits)
  then show ?thesis using assms(1) ctl_ok_same [OF assms(1) c] sameD(1) [OF c(2)] by auto
qed

lemma reachable_ok: "reachable c \<Longrightarrow> ctl_ok c"
proof (induction rule: reachable.induct)
  case (command c body r c')
  then show ?case using Step_spec [of c body] by auto
next
  case (restore c cs ok c')
  then show ?case using ApplySnapshot_restores [of c cs] by auto
qed (auto simp: new_controller_ok EnableNotifications_def DisableNotifications_def dest: PartitionOwners_ok LocalNodeOwned_ok)

end
