(* ===== verification/Cluster_Properties.thy ===== *)
theory Cluster_Properties
  imports Controller_Runs
begin

text \<open>
  The properties of cluster membership, token assignment and the controller, with their witnesses. The
  running example is a cluster of two nodes, 1 and 2, with four partitions and two replicas.
\<close>

section \<open>The example cluster\<close>

definition ex_config :: "u64 \<Rightarrow> node_config" where
  "ex_config n = \<lparr>Address = \<lparr>NodeID = n, Host = ''h'', Port = 80\<rparr>, Capacity = 1, nc_Tokens = [],
     OwnedPartitionReplicas = [], PartitionReplicas = []\<rparr>"

definition ex_log :: "(cluster_error + command_body) list" where
  "ex_log = map Inr [ClusterSetReplicationFactorBody 2, ClusterSetPartitionCountBody 4,
     ClusterAddNodeBody 1 (ex_config 1), ClusterAddNodeBody 2 (ex_config 2)]"

definition ex_ctl :: "u64 \<Rightarrow> controller" where
  "ex_ctl n = snd (the (run_machine Step ex_log (new_controller n)))"

definition ex_replicas :: "partition_replica list list" where
  "ex_replicas = map (\<lambda>p. map (\<lambda>r. \<lparr>Partition = p, Replica = r, Holder = 0, Owner = 0\<rparr>) [0, 1]) [0, 1, 2, 3]"

definition ex_state :: cluster_state where
  "ex_state = \<lparr>RemovedNodes = None, Nodes = [(1, (ex_config 1)\<lparr>nc_Tokens := [1, 3]\<rparr>), (2, (ex_config 2)\<lparr>nc_Tokens := [0, 2]\<rparr>)],
     Tokens = [2, 1, 2, 1], Partitions = ex_replicas, ClusterSettings = \<lparr>ReplicationFactor = 2, cs_Partitions = 4\<rparr>,
     Sites = None, Relays = None\<rparr>"

lemma ex_ctl_state: "State (ex_ctl 1) = ex_state" "State (ex_ctl 2) = ex_state"
  by code_simp+

lemma ex_ctl_init: "ClusterIsInitialized (ex_ctl 1)"
  unfolding ClusterIsInitialized_def ex_ctl_state by code_simp

lemma run_reachable: "reachable c \<Longrightarrow> run_machine Step bs c = Some (rs, c') \<Longrightarrow> reachable c'"
  by (induction bs arbitrary: c rs) (auto simp: bind_eq_Some_conv dest: reachable.command)

lemma ex_ctl_reachable: "reachable (ex_ctl n)"
proof -
  obtain rs c where r: "run_machine Step ex_log (new_controller n) = Some (rs, c)"
    using ctl.run_refines [OF new_controller_ok] by blast
  then have "ex_ctl n = c" by (simp add: ex_ctl_def)
  then show ?thesis using run_reachable [OF reachable.start r] by simp
qed

lemma ex_ctl_ok: "ctl_ok (ex_ctl n)"
  using reachable_ok ex_ctl_reachable by blast

section \<open>The controller\<close>







text \<open>C17: redistributing the tokens of an initialized cluster with no more nodes than partitions and a node
  in service gives every token to a node in service, and every such node at least its even share.\<close>

theorem assignTokens_spreads:
  assumes "ctl_ok c" "ClusterIsInitialized c" "in_service (State c) \<noteq> {}"
    and "length (Nodes (State c)) \<le> unat (cs_Partitions (ClusterSettings (State c)))"
  shows "\<exists>c'. assignTokens c = Some c' \<and> ctl_ok c' \<and> in_service (State c') = in_service (State c)
    \<and> (\<forall>n \<in> set (Tokens (State c')). n \<in> in_service (State c))
    \<and> (\<forall>n \<in> in_service (State c). length (Tokens (State c)) div card (in_service (State c)) \<le> count_list (Tokens (State c')) n)"
proof -
  obtain cs where cs: "spread_tokens (State c) = Some cs" "state_ok cs" "frame cs = frame (State c)"
      "set (Tokens cs) \<subseteq> in_service (State c)"
      "\<forall>n \<in> in_service (State c). length (Tokens (State c)) div card (in_service (State c)) \<le> count_list (Tokens cs) n"
    using spread_tokens_even [of "State c"] assms by (auto simp: ctl_ok_def cluster_ok_def ClusterIsInitialized_def)
  then obtain c' where "assignTokens c = Some c'" "State c' = cs" "cache_ok c'"
    using assignTokens_yields [of c] by (auto simp: yields_def)
  moreover have "cluster_ok cs" using cluster_ok_frame cs(2,3) assms(1) by (auto simp: ctl_ok_def)
  ultimately show ?thesis using cs frame_in_service [OF cs(3)] by (auto simp: ctl_ok_def)
qed

lemma ex_ctl_service: "in_service (State (ex_ctl 1)) = {1, 2}"
proof -
  show ?thesis by (auto simp: in_service_def ex_ctl_state ex_state_def ex_config_def split: if_splits)
qed

theorem assignTokens_spreads_witness:
  "\<exists>c'. assignTokens (ex_ctl 1) = Some c' \<and> set (Tokens (State c')) \<subseteq> {1, 2} \<and> 2 \<le> count_list (Tokens (State c')) 1"
proof -
  have "length (Nodes (State (ex_ctl 1))) \<le> unat (cs_Partitions (ClusterSettings (State (ex_ctl 1))))"
    "length (Tokens (State (ex_ctl 1))) = 4" by (simp_all add: ex_ctl_state ex_state_def)
  then obtain c' where c': "assignTokens (ex_ctl 1) = Some c'" "\<forall>n \<in> set (Tokens (State c')). n \<in> {1, 2}"
      "\<forall>n \<in> {1, 2}. 4 div card {1, 2 :: u64} \<le> count_list (Tokens (State c')) n"
    using assignTokens_spreads [OF ex_ctl_ok [of 1] ex_ctl_init] unfolding ex_ctl_service by auto
  have "4 div card {1, 2 :: u64} = 2" by (simp flip: numeral_2_eq_2)
  then have "2 \<le> count_list (Tokens (State c')) 1" using c'(3) by (metis insertI1)
  then show ?thesis using c'(1,2) by blast
qed


definition names_its_node :: "command_body \<Rightarrow> bool" where
  "names_its_node b = (case b of ClusterAddNodeBody n cfg \<Rightarrow> NodeID (Address cfg) = n | _ \<Rightarrow> True)"

definition removed_ids :: "cluster_state \<Rightarrow> u64 set" where
  "removed_ids cs = (case RemovedNodes cs of None \<Rightarrow> {} | Some rn \<Rightarrow> set rn)"

definition members :: "cluster_state \<Rightarrow> u64 set \<times> u64_set option" where
  "members cs = (node_ids cs, RemovedNodes cs)"

lemma members_spread:
  assumes "state_ok cs" "spread_if_initialized cs = Some cs'"
  shows "members cs' = members cs"
proof (cases "AreInitialized (ClusterSettings cs)")
  case True
  then have "spread_tokens cs = Some cs'" using assms(2) by (simp add: spread_if_initialized_def)
  then have "frame cs' = frame cs" using spread_tokens_ok [OF assms(1)] by auto
  then show ?thesis using frame_lengths [of cs' cs] by (simp add: members_def)
qed (use assms in \<open>simp add: spread_if_initialized_def\<close>)

lemma members_configure:
  assumes "cluster_ok cs" "\<not> AreInitialized (ClusterSettings cs)" "configure st cs = Some cs'"
  shows "members cs' = members cs"
proof -
  let ?cs = "State_Initialize (cs\<lparr>ClusterSettings := st\<rparr>)"
  have m: "members ?cs = members cs" by (simp add: members_def node_ids_def State_Initialize_def Let_def)
  show ?thesis
  proof (cases "AreInitialized st")
    case True
    then have "state_ok ?cs" using State_Initialize_ok [OF _ assms(2) True] assms(1) by (simp add: cluster_ok_def)
    then show ?thesis using members_spread assms(3) m by (simp add: configure_def)
  next
    case False
    then have "cs' = cs\<lparr>ClusterSettings := st\<rparr>"
      using assms(3) by (simp add: configure_def State_Initialize_def spread_if_initialized_def)
    then show ?thesis by (simp add: members_def node_ids_def)
  qed
qed

lemma members_reconfigure:
  assumes "cluster_ok cs" "map_of (Nodes cs) n = Some nc" "reconfigure_node n cfg nc cs = Some cs'"
  shows "members cs' = members cs"
proof -
  let ?cs = "cs\<lparr>Nodes := AList.update n (readdress cfg nc) (Nodes cs)\<rparr>"
  have "state_ok ?cs" "node_ids ?cs = node_ids cs"
    using node_update_ok [OF _ assms(2), of "readdress cfg nc" ?cs] assms(1) by (simp_all add: cluster_ok_def readdress_def)
  then show ?thesis using assms(3) members_spread [of ?cs cs']
    by (auto simp: reconfigure_node_def Let_def members_def split: if_splits)
qed

lemma members_remove:
  assumes ok: "cluster_ok cs" and n: "n \<in> node_ids cs" and r: "r = 0 \<or> r \<in> node_ids cs" and rm: "remove_member n r cs = Some cs'"
  shows "node_ids cs' = node_ids cs - {n} \<and> removed_ids cs' = insert n (removed_ids cs)"
proof -
  have remove: "node_ids c2 = node_ids c1 - {n} \<and> removed_ids c2 = insert n (removed_ids c1)"
    if rm1: "state_ok c1" "n \<in> node_ids c1" "RemoveNode c1 n = Some c2" for c1 c2
  proof -
    obtain c3 where "RemoveNode c1 n = Some c3" "node_ids c3 = node_ids c1 - {n}"
      using RemoveNode_ok [OF rm1(1,2)] by blast
    moreover obtain rn where "RemovedNodes c2 = Some rn"
        "set rn = insert n (case RemovedNodes c1 of None \<Rightarrow> {} | Some rn \<Rightarrow> set rn)"
      using RemoveNode_untouched [OF rm1(3,2)] by auto
    ultimately show ?thesis using rm1(3) by (simp add: removed_ids_def)
  qed
  show ?thesis
  proof (cases "r = 0")
    case True
    then obtain cs1 where cs1: "RemoveNode cs n = Some cs1" "spread_if_initialized cs1 = Some cs'"
      using rm by (auto simp: remove_member_def bind_eq_Some_conv)
    then have "state_ok cs1" using RemoveNode_total [OF ok n] by (auto simp: cluster_ok_def)
    from members_spread [OF this cs1(2)] remove [OF _ n cs1(1)] ok show ?thesis
      by (simp add: members_def removed_ids_def cluster_ok_def)
  next
    case False
    then obtain cs1 where cs1: "hand_over n r cs = Some cs1" "RemoveNode cs1 n = Some cs'"
      using rm by (auto simp: remove_member_def bind_eq_Some_conv)
    have "state_ok cs1" "node_ids cs1 = node_ids cs" "RemovedNodes cs1 = RemovedNodes cs"
      using hand_over_ok [of cs n r] ok n r False cs1(1) by (auto simp: cluster_ok_def)
    then show ?thesis using remove [OF _ _ cs1(2)] n by (simp add: removed_ids_def)
  qed
qed

lemma site_members [simp]:
  "members (AddSite cs s) = members cs" "members (RemoveSite cs s) = members cs" "members (AddRelay cs s) = members cs"
  "members (RemoveRelay cs s) = members cs" "members (MoveRelay cs r s) = members cs"
  by (simp_all add: members_def node_ids_def AddSite_def RemoveSite_def AddRelay_def RemoveRelay_def MoveRelay_def Let_def
      split: option.split)

lemma step_state_removed:
  assumes cl: "cluster_ok cs" and b: "names_its_node b" and apart: "removed_ids cs \<inter> node_ids cs = {}"
    and s: "step_state b cs = Some (e, cs')"
  shows "removed_ids cs \<subseteq> removed_ids cs' \<and> removed_ids cs' \<inter> node_ids cs' = {}"
proof -
  have keep: ?thesis if "members cs' = members cs"
    using that apart by (simp add: members_def removed_ids_def)
  show ?thesis
  proof (cases b)
    case (ClusterUpdateNodeBody n cfg)
    then show ?thesis using s keep members_reconfigure [OF cl] by (auto split: option.splits)
  next
    case (ClusterAddNodeBody n cfg)
    let ?add = "AddNode cs (blank_node cfg)"
    have id: "NodeID (Address (blank_node cfg)) = n" using b ClusterAddNodeBody by (simp add: names_its_node_def blank_node_def)
    show ?thesis
    proof (cases "n \<in> node_ids cs \<or> n \<in> removed_ids cs")
      case True
      then show ?thesis using s keep ClusterAddNodeBody by (auto simp: removed_ids_def split: option.splits)
    next
      case False
      then have "spread_if_initialized ?add = Some cs'"
        using s ClusterAddNodeBody by (auto simp: removed_ids_def split: option.splits if_splits)
      then have "members cs' = members ?add"
        using add_node_ok [OF cl] members_spread by (auto simp: cluster_ok_def)
      moreover have "node_ids ?add \<subseteq> insert n (node_ids cs)" "RemovedNodes ?add = RemovedNodes cs"
        using id by (auto simp: AddNode_def node_ids_def update_conv' split: if_splits)
      ultimately show ?thesis using apart False by (auto simp: members_def removed_ids_def)
    qed
  next
    case (ClusterRemoveNodeBody n m)
    consider "cs' = cs" | "\<not> removal_refused n m cs" "n \<in> node_ids cs" "remove_member n m cs = Some cs'"
      using s unfolding ClusterRemoveNodeBody step_state.simps by (auto split: if_splits)
    then show ?thesis
    proof cases
      case 1
      then show ?thesis using keep by simp
    next
      case 2
      note m = members_remove [OF cl 2(2) removal_refused_iff(2) [OF 2(1)] 2(3)]
      then show ?thesis using apart by blast
    qed
  next
    case (ClusterTakePartitionReplicaBody p q n)
    have "members cs' = members cs"
      if "AssignPartitionReplica cs p q n = Some (e, cs')"
      using AssignPartitionReplica_ok [of cs p q n] cl that by (auto simp: cluster_ok_def members_def misc_def)
    then show ?thesis using s keep ClusterTakePartitionReplicaBody by (auto split: if_splits)
  next
    case (ClusterSetReplicationFactorBody rf)
    then show ?thesis using s keep members_configure [OF cl] by (auto simp: AreInitialized_def split: if_splits)
  next
    case (ClusterSetPartitionCountBody k)
    then show ?thesis using s keep members_configure [OF cl] by (auto simp: AreInitialized_def split: if_splits)
  qed (rule keep, insert s, force split: if_splits)+
qed





text \<open>C21: a snapshot that reaches a controller of an initialized cluster leaves its memoised owners
  stale: the controller has the snapshot's state and still answers with the owners of the state
  before it, for every partition it had.\<close>

theorem ApplySnapshot_leaves_stale_owners:
  assumes "ClusterIsInitialized c" "AreInitialized (ClusterSettings cs)" "unat p < length (Tokens (State c))"
    and "\<not> of_nat (length (Partitions cs)) \<le> p"
  shows "State (snd (ApplySnapshot (Some cs) c)) = cs
    \<and> fst (PartitionOwners p (snd (ApplySnapshot (Some cs) c)))
      = Owners (Tokens (State c)) p (ReplicationFactor (ClusterSettings (State c)))"
  using ApplySnapshot_caches [OF assms(1,2,3)] assms(2,4)
  by (auto simp: PartitionOwners_def partitionOwners_def cached_owners_def owners_of_def Let_def bind_eq_Some_conv)

definition ex_alone :: cluster_state where
  "ex_alone = ex_state\<lparr>RemovedNodes := Some [2], Nodes := [(1, (ex_config 1)\<lparr>nc_Tokens := [0, 1, 2, 3]\<rparr>)], Tokens := [1, 1, 1, 1]\<rparr>"

theorem ApplySnapshot_leaves_stale_owners_witness:
  "fst (PartitionOwners 0 (snd (ApplySnapshot (Some ex_alone) (ex_ctl 1)))) = [2, 1]
    \<and> Owners (Tokens ex_alone) 0 (ReplicationFactor (ClusterSettings ex_alone)) = [1, 1]"
proof -
  have "AreInitialized (ClusterSettings ex_alone)" "\<not> of_nat (length (Partitions ex_alone)) \<le> (0 :: u64)"
    "Owners (Tokens ex_alone) 0 (ReplicationFactor (ClusterSettings ex_alone)) = [1, 1]" by code_simp+
  moreover have "unat (0 :: u64) < length (Tokens (State (ex_ctl 1)))"
    "Owners (Tokens (State (ex_ctl 1))) 0 (ReplicationFactor (ClusterSettings (State (ex_ctl 1)))) = [2, 1]"
    unfolding ex_ctl_state by code_simp+
  ultimately show ?thesis using ApplySnapshot_leaves_stale_owners [OF ex_ctl_init, of ex_alone 0] by simp
qed

section \<open>Nodes and sites\<close>

text \<open>C20: removing a member from a good cluster state succeeds and leaves a good state without it, in which
  exactly the tokens and replicas it had are unassigned and all others stay where they were.\<close>

theorem RemoveNode_releases:
  assumes "state_ok cs" "n \<in> node_ids cs"
  shows "\<exists>cs'. RemoveNode cs n = Some cs' \<and> state_ok cs' \<and> node_ids cs' = node_ids cs - {n}
    \<and> (\<forall>t. tok_owner cs' t = (if tok_owner cs t = Some n then Some 0 else tok_owner cs t))
    \<and> (\<forall>k. holder_of cs' k = (if holder_of cs k = Some n then Some 0 else holder_of cs k))
    \<and> Sites cs' = Sites cs \<and> Relays cs' = Relays cs"
proof -
  obtain cs' where c: "RemoveNode cs n = Some cs'" "state_ok cs'" "node_ids cs' = node_ids cs - {n}"
      "tok_owner cs' = forget_node n (tok_owner cs)" "holder_of cs' = forget_node n (holder_of cs)"
    using RemoveNode_ok [OF assms] by blast
  then show ?thesis using RemoveNode_untouched [OF c(1) assms(2)] by (simp add: forget_node_def)
qed

theorem RemoveNode_releases_witness:
  "\<exists>cs'. RemoveNode (State (ex_ctl 1)) 2 = Some cs' \<and> state_ok cs' \<and> tok_owner cs' 0 = Some 0 \<and> tok_owner cs' 1 = Some 1"
proof -
  have ok: "state_ok (State (ex_ctl 1))" using ex_ctl_ok by (simp add: ctl_ok_def cluster_ok_def)
  have "map_of (Nodes (State (ex_ctl 1))) 2 \<noteq> None" "Tokens (State (ex_ctl 1)) = [2, 1, 2, 1]"
    by (simp_all add: ex_ctl_state ex_state_def)
  then have "2 \<in> node_ids (State (ex_ctl 1))" "tok_owner (State (ex_ctl 1)) 0 = Some 2" "tok_owner (State (ex_ctl 1)) 1 = Some 1"
    by (simp_all add: node_ids_iff tok_owner_def)
  then show ?thesis using RemoveNode_releases [OF ok, of 2] by auto
qed

text \<open>C22: removing a site leaves no relay on it: its relays are unassigned, all other relays keep their site.\<close>

theorem RemoveSite_unassigns_relays:
  assumes "cluster_ok cs" "SiteExists cs s"
  shows "cluster_ok (RemoveSite cs s) \<and> \<not> SiteExists (RemoveSite cs s) s
    \<and> relay_site (RemoveSite cs s) r = map_option (\<lambda>x. if x = s then '''' else x) (relay_site cs r)"
  using relays_ok_RemoveSite [of cs s r] assms by (simp add: cluster_ok_def)

theorem RemoveSite_unassigns_relays_witness:
  "relay_site (RemoveSite (MoveRelay (AddRelay (AddSite empty_state ''s'') ''r'') ''r'' ''s'') ''s'') ''r'' = Some ''''
    \<and> \<not> SiteExists (RemoveSite (MoveRelay (AddRelay (AddSite empty_state ''s'') ''r'') ''r'' ''s'') ''s'') ''s''"
proof -
  let ?cs = "MoveRelay (AddRelay (AddSite empty_state ''s'') ''r'') ''r'' ''s''"
  have "cluster_ok ?cs" using empty_state_ok by (simp add: cluster_ok_def relays_ok_ops)
  moreover have "SiteExists ?cs ''s''" "relay_site ?cs ''r'' = Some ''s''" by code_simp+
  ultimately show ?thesis using RemoveSite_unassigns_relays [of ?cs "''s''" "''r''"] by simp
qed

section \<open>Partitions\<close>

text \<open>C23: a fresh strategy maps every key to an existing partition, whatever the partition count.\<close>

theorem Partition_in_range:
  assumes "shiftAmount ps = 0" "0 < cnt"
  shows "fst (Strategy_Partition ps key cnt) < cnt"
  by (rule Strategy_Partition_in_range [OF assms])

theorem Partition_in_range_witness: "fst (Strategy_Partition \<lparr>shiftAmount = 0\<rparr> ''abc'' 1000) < 1000"
  by (rule Partition_in_range) simp_all

text \<open>
  A comment of the partitioner says that after placing the unassigned tokens a node has at most
  the rounded-up share. That holds for the placed tokens but not for nodes that had more before: the third
  node keeps three of five tokens although the share is two.
\<close>

lemma AssignTokens_above_ceiling:
  "AssignTokens (Some [ex_config 3\<lparr>nc_Tokens := [0, 2]\<rparr>, ex_config 6, ex_config 7\<lparr>nc_Tokens := [1, 3, 4]\<rparr>]) [3, 7, 3, 7, 7] 5
     = Some (Inr [6, 7, 3, 7, 7])"
  by code_simp

end
