(* ===== verification/Storage.thy ===== *)
theory Storage
  imports Prelude "HOL-Library.Sublist"
begin

text \<open>
  \<^verbatim>\<open>storage/storageEngine.go\<close>: write batches, the LevelDB driver and the prefixed driver that lets several
  buckets share one database. LevelDB itself is a parameter, the record \<open>leveldb\<close> of the
  functions the driver calls; what the code relies on is the locale \<open>leveldb_api\<close>. A driver is the record of
  its operations on a driver state, as the Go interface \<^verbatim>\<open>StorageDriver\<close> is; what a client relies
  on is the locale \<open>kv_driver\<close>, which the LevelDB driver and the prefixed driver satisfy.

  An iterator is given by the items its \<^verbatim>\<open>Next\<close> produces, each with the prefix it was found
  under, and by whether it ends with an error. A failed operation is \<open>None\<close>, or \<open>False\<close> for a batch. Values
  are of any type: the drivers never look at them.
\<close>

section \<open>Batches\<close>

datatype op_type = PUT | DEL

record 'v op =
  OpType :: op_type
  OpKey :: bytes
  OpValue :: "'v option"

definition IsDelete :: "'v op \<Rightarrow> bool" where
  "IsDelete o' \<longleftrightarrow> OpType o' = DEL"

definition IsPut :: "'v op \<Rightarrow> bool" where
  "IsPut o' \<longleftrightarrow> OpType o' = PUT"

definition Op_Key :: "'v op \<Rightarrow> bytes" where
  "Op_Key o' = OpKey o'"

definition Op_Value :: "'v op \<Rightarrow> 'v option" where
  "Op_Value o' = OpValue o'"

type_synonym 'v batch = "(bytes \<times> 'v op) list"

definition NewBatch :: "'v batch" where
  "NewBatch = []"

definition Batch_Size :: "'v batch \<Rightarrow> nat" where
  "Batch_Size b = length b"

definition Batch_Put :: "bytes \<Rightarrow> 'v \<Rightarrow> 'v batch \<Rightarrow> 'v batch" where
  "Batch_Put key value b = AList.update key \<lparr>OpType = PUT, OpKey = key, OpValue = Some value\<rparr> b"

definition Batch_Delete :: "bytes \<Rightarrow> 'v batch \<Rightarrow> 'v batch" where
  "Batch_Delete key b = AList.update key \<lparr>OpType = DEL, OpKey = key, OpValue = None\<rparr> b"

definition Ops :: "'v batch \<Rightarrow> (bytes \<times> 'v op) list" where
  "Ops b = b"

text \<open>The comparison of two operations reads the first one's key twice.\<close>

fun less_loop :: "bytes \<Rightarrow> bytes \<Rightarrow> bool" where
  "less_loop (a # k1) (b # k2) = (if b > a then False else less_loop k1 k2)"
| "less_loop _ _ = True"

definition OpList_Less :: "'v op list \<Rightarrow> nat \<Rightarrow> nat \<Rightarrow> bool" where
  "OpList_Less opList i j = (let k1 = Op_Key (opList ! i); k2 = Op_Key (opList ! i) in less_loop k1 k2)"

section \<open>The LevelDB driver\<close>

record range =
  rg_Start :: bytes
  rg_Limit :: "bytes option"

record ('d, 'v) leveldb =
  GetSnapshot :: "'d \<Rightarrow> bool"
  snapshot_Get :: "'d \<Rightarrow> bytes \<Rightarrow> 'v option option"
  NewIterator :: "'d \<Rightarrow> range \<Rightarrow> (bytes \<times> 'v) list \<times> bool"
  BytesPrefix :: "bytes \<Rightarrow> range"
  db_Write :: "'d \<Rightarrow> 'v op list \<Rightarrow> 'd option"

type_synonym 'v items = "(bytes \<times> bytes \<times> 'v) list"
type_synonym 'v iterator = "'v items \<times> bool"

record 'd level_driver =
  db :: "'d option"

fun get_values :: "('d, 'v) leveldb \<Rightarrow> 'd \<Rightarrow> bytes list \<Rightarrow> 'v option list option" where
  "get_values L d [] = Some []"
| "get_values L d (key # keys) =
     Option.bind (snapshot_Get L d key) (\<lambda>v. map_option (Cons v) (get_values L d keys))"

definition level_Get :: "('d, 'v) leveldb \<Rightarrow> 'd level_driver \<Rightarrow> bytes list \<Rightarrow> 'v option list option" where
  "level_Get L s keys =
     (case db s of
        None \<Rightarrow> None
      | Some d \<Rightarrow> if keys = [] then Some [] else if \<not> GetSnapshot L d then None else get_values L d keys)"

text \<open>
  A sorted key list without the keys that extend the one before; a skipped key is overwritten with its
  predecessor before the next comparison.
\<close>

fun consolidate_loop :: "bytes \<Rightarrow> bytes list \<Rightarrow> bytes list" where
  "consolidate_loop prev [] = []"
| "consolidate_loop prev (s # rest) =
     (if \<not> prefix prev s then s # consolidate_loop s rest else consolidate_loop prev rest)"

definition consolidateKeys :: "bytes list \<Rightarrow> bytes list" where
  "consolidateKeys keys = (case sort keys of [] \<Rightarrow> [] | s # rest \<Rightarrow> s # consolidate_loop s rest)"

text \<open>
  Forwards, the iterator goes on to the next range when one is exhausted. Backwards, an empty range makes
  \<^verbatim>\<open>Next\<close> return false although ranges are left.
\<close>

fun iterate_forward :: "('d, 'v) leveldb \<Rightarrow> 'd \<Rightarrow> range list \<Rightarrow> 'v iterator" where
  "iterate_forward L d [] = ([], False)"
| "iterate_forward L d (r # rs) =
     (let (kvs, err) = NewIterator L d r;
          found = map (\<lambda>(k, v). (rg_Start r, k, v)) kvs
      in if err then (found, True)
         else (let (more, err) = iterate_forward L d rs in (found @ more, err)))"

fun iterate_backward :: "('d, 'v) leveldb \<Rightarrow> 'd \<Rightarrow> range list \<Rightarrow> 'v iterator" where
  "iterate_backward L d [] = ([], False)"
| "iterate_backward L d (r # rs) =
     (let (kvs, err) = NewIterator L d r;
          found = map (\<lambda>(k, v). (rg_Start r, k, v)) (rev kvs)
      in if found = [] then ([], err)
         else if err then (found, True)
         else (let (more, err) = iterate_backward L d rs in (found @ more, err)))"

datatype direction = FORWARD | BACKWARD

definition iterate :: "('d, 'v) leveldb \<Rightarrow> 'd level_driver \<Rightarrow> range list \<Rightarrow> direction \<Rightarrow> 'v iterator option" where
  "iterate L s ranges direction =
     (case db s of
        None \<Rightarrow> None
      | Some d \<Rightarrow>
          if \<not> GetSnapshot L d then None
          else Some (case direction of FORWARD \<Rightarrow> iterate_forward L d ranges | BACKWARD \<Rightarrow> iterate_backward L d ranges))"

definition level_GetMatches :: "('d, 'v) leveldb \<Rightarrow> 'd level_driver \<Rightarrow> bytes list \<Rightarrow> 'v iterator option" where
  "level_GetMatches L s keys = iterate L s (map (BytesPrefix L) (consolidateKeys keys)) FORWARD"

definition level_GetRange :: "('d, 'v) leveldb \<Rightarrow> 'd level_driver \<Rightarrow> bytes \<Rightarrow> bytes \<Rightarrow> 'v iterator option" where
  "level_GetRange L s lo hi = iterate L s [\<lparr>rg_Start = lo, rg_Limit = Some hi\<rparr>] FORWARD"

definition level_GetRanges ::
  "('d, 'v) leveldb \<Rightarrow> 'd level_driver \<Rightarrow> (bytes \<times> bytes) list \<Rightarrow> direction \<Rightarrow> 'v iterator option" where
  "level_GetRanges L s ranges direction =
     iterate L s (map (\<lambda>(lo, hi). \<lparr>rg_Start = lo, rg_Limit = Some hi\<rparr>) ranges) direction"

definition level_Batch :: "('d, 'v) leveldb \<Rightarrow> 'd level_driver \<Rightarrow> 'v batch \<Rightarrow> bool \<times> 'd level_driver" where
  "level_Batch L s b =
     (case db s of
        None \<Rightarrow> (False, s)
      | Some d \<Rightarrow> (case db_Write L d (map snd (Ops b)) of None \<Rightarrow> (False, s) | Some d' \<Rightarrow> (True, s\<lparr>db := Some d'\<rparr>)))"

section \<open>Drivers\<close>

record ('s, 'v) driver =
  drv_Get :: "'s \<Rightarrow> bytes list \<Rightarrow> 'v option list option"
  drv_GetMatches :: "'s \<Rightarrow> bytes list \<Rightarrow> 'v iterator option"
  drv_GetRange :: "'s \<Rightarrow> bytes \<Rightarrow> bytes \<Rightarrow> 'v iterator option"
  drv_GetRanges :: "'s \<Rightarrow> (bytes \<times> bytes) list \<Rightarrow> direction \<Rightarrow> 'v iterator option"
  drv_Batch :: "'s \<Rightarrow> 'v batch \<Rightarrow> bool \<times> 's"

definition LevelDBStorageDriver :: "('d, 'v) leveldb \<Rightarrow> ('d level_driver, 'v) driver" where
  "LevelDBStorageDriver L = \<lparr>drv_Get = level_Get L, drv_GetMatches = level_GetMatches L,
     drv_GetRange = level_GetRange L, drv_GetRanges = level_GetRanges L, drv_Batch = level_Batch L\<rparr>"

definition addPrefix :: "bytes \<Rightarrow> bytes \<Rightarrow> bytes" where
  "addPrefix pre k = pre @ k"

definition PrefixedIterator :: "bytes \<Rightarrow> 'v iterator \<Rightarrow> 'v iterator" where
  "PrefixedIterator pre it =
     (map (\<lambda>(p, k, v). (drop (length pre) p, drop (length pre) k, v)) (fst it), snd it)"

definition prefixed_Get :: "bytes \<Rightarrow> ('s, 'v) driver \<Rightarrow> 's \<Rightarrow> bytes list \<Rightarrow> 'v option list option" where
  "prefixed_Get pre D s keys = drv_Get D s (map (addPrefix pre) keys)"

definition prefixed_GetMatches :: "bytes \<Rightarrow> ('s, 'v) driver \<Rightarrow> 's \<Rightarrow> bytes list \<Rightarrow> 'v iterator option" where
  "prefixed_GetMatches pre D s keys = map_option (PrefixedIterator pre) (drv_GetMatches D s (map (addPrefix pre) keys))"

definition prefixed_GetRange :: "bytes \<Rightarrow> ('s, 'v) driver \<Rightarrow> 's \<Rightarrow> bytes \<Rightarrow> bytes \<Rightarrow> 'v iterator option" where
  "prefixed_GetRange pre D s start end =
     map_option (PrefixedIterator pre) (drv_GetRange D s (addPrefix pre start) (addPrefix pre end))"

definition prefixed_GetRanges ::
  "bytes \<Rightarrow> ('s, 'v) driver \<Rightarrow> 's \<Rightarrow> (bytes \<times> bytes) list \<Rightarrow> direction \<Rightarrow> 'v iterator option" where
  "prefixed_GetRanges pre D s ranges direction =
     map_option (PrefixedIterator pre)
       (drv_GetRanges D s (map (\<lambda>(a, b). (addPrefix pre a, addPrefix pre b)) ranges) direction)"

definition prefix_batch :: "bytes \<Rightarrow> 'v batch \<Rightarrow> 'v batch" where
  "prefix_batch pre b =
     foldl (\<lambda>newBatch (key, o'). AList.update (addPrefix pre key) (o'\<lparr>OpKey := addPrefix pre key\<rparr>) newBatch) NewBatch (Ops b)"

definition prefixed_Batch :: "bytes \<Rightarrow> ('s, 'v) driver \<Rightarrow> 's \<Rightarrow> 'v batch \<Rightarrow> bool \<times> 's" where
  "prefixed_Batch pre D s b = drv_Batch D s (prefix_batch pre b)"

definition PrefixedStorageDriver :: "bytes \<Rightarrow> ('s, 'v) driver \<Rightarrow> ('s, 'v) driver" where
  "PrefixedStorageDriver pre D = \<lparr>drv_Get = prefixed_Get pre D, drv_GetMatches = prefixed_GetMatches pre D,
     drv_GetRange = prefixed_GetRange pre D, drv_GetRanges = prefixed_GetRanges pre D, drv_Batch = prefixed_Batch pre D\<rparr>"

section \<open>Copying a database\<close>

text \<open>
  \<^verbatim>\<open>levelCopy\<close>, used by snapshots and restores: the keys of the source in order, written in chunks bounded by
  a number of keys and by a number of bytes. The size of a value is a parameter.
\<close>

definition CopyBatchSize :: nat where "CopyBatchSize = 1000"
definition CopyBatchMaxBytes :: nat where "CopyBatchMaxBytes = 5 * 1024 * 1024"

fun copy_loop :: "('d, 'v) leveldb \<Rightarrow> ('v \<Rightarrow> nat) \<Rightarrow> (bytes \<times> 'v) list \<Rightarrow> 'v op list \<Rightarrow> nat \<Rightarrow> 'd \<Rightarrow> ('v op list \<times> 'd) option" where
  "copy_loop L sz [] b batchSizeBytes dest = Some (b, dest)"
| "copy_loop L sz ((k, v) # kvs) b batchSizeBytes dest =
     (let b = b @ [\<lparr>OpType = PUT, OpKey = k, OpValue = Some v\<rparr>];
          batchSizeBytes = batchSizeBytes + length k + sz v
      in if CopyBatchMaxBytes \<le> batchSizeBytes \<or> CopyBatchSize \<le> length b
         then Option.bind (db_Write L dest b) (copy_loop L sz kvs [] 0)
         else copy_loop L sz kvs b batchSizeBytes dest)"

definition levelCopy :: "('d, 'v) leveldb \<Rightarrow> ('v \<Rightarrow> nat) \<Rightarrow> 'd \<Rightarrow> 'd \<Rightarrow> 'd option" where
  "levelCopy L sz dest src =
     (let (kvs, err) = NewIterator L src \<lparr>rg_Start = [], rg_Limit = None\<rparr> in
      Option.bind (copy_loop L sz kvs [] 0 dest) (\<lambda>(b, dest).
        if err then None
        else if b \<noteq> [] then db_Write L dest b else Some dest))"

definition restoreLevel :: "('d, 'v) leveldb \<Rightarrow> ('v \<Rightarrow> nat) \<Rightarrow> 'd level_driver \<Rightarrow> 'd level_driver \<Rightarrow> 'd level_driver option" where
  "restoreLevel L sz s other =
     (case (db s, db other) of
        (Some d, Some src) \<Rightarrow> map_option (\<lambda>d. s\<lparr>db := Some d\<rparr>) (levelCopy L sz d src)
      | _ \<Rightarrow> None)"

definition metadata_ops :: "(bytes \<Rightarrow> 'v) \<Rightarrow> bytes \<Rightarrow> (string \<times> string) list \<Rightarrow> 'v op list" where
  "metadata_ops value metadataPrefix metadata =
     map (\<lambda>(k, v). \<lparr>OpType = PUT, OpKey = metadataPrefix @ bytes_of_string k, OpValue = Some (value (bytes_of_string v))\<rparr>) metadata"

definition level_Snapshot ::
  "('d, 'v) leveldb \<Rightarrow> ('v \<Rightarrow> nat) \<Rightarrow> (bytes \<Rightarrow> 'v) \<Rightarrow> 'd level_driver \<Rightarrow> 'd option \<Rightarrow> bytes \<Rightarrow> (string \<times> string) list \<Rightarrow> 'd option" where
  "level_Snapshot L sz value s snapshotDB metadataPrefix metadata =
     (case db s of
        None \<Rightarrow> None
      | Some d \<Rightarrow>
          Option.bind snapshotDB (\<lambda>dest.
          Option.bind (levelCopy L sz dest d) (\<lambda>dest.
            db_Write L dest (metadata_ops value metadataPrefix metadata))))"

end
