(* ===== verification/Storage_Laws.thy ===== *)
theory Storage_Laws
  imports Storage
begin

text \<open>
  The contracts of the storage layer and their providers: a LevelDB that behaves as documented makes the
  LevelDB driver a key-value driver, and a prefixed driver over a key-value driver is one again, on the
  keys under its prefix. An in-memory database shows the contract of LevelDB can be met.
\<close>

section \<open>Contents and contracts\<close>

type_synonym 'v contents = "bytes \<rightharpoonup> 'v"

definition apply_op :: "'v op \<Rightarrow> 'v contents \<Rightarrow> 'v contents" where
  "apply_op o' m = m(OpKey o' := (case OpType o' of PUT \<Rightarrow> OpValue o' | DEL \<Rightarrow> None))"

definition apply_ops :: "'v op list \<Rightarrow> 'v contents \<Rightarrow> 'v contents" where
  "apply_ops ops m = fold apply_op ops m"

definition in_range :: "range \<Rightarrow> bytes \<Rightarrow> bool" where
  "in_range r k \<longleftrightarrow> rg_Start r \<le> k \<and> (case rg_Limit r of None \<Rightarrow> True | Some l \<Rightarrow> k < l)"

locale leveldb_api =
  fixes L :: "('d, 'v) leveldb" and contents :: "'d \<Rightarrow> 'v contents"
  assumes snapshot_law: "snapshot_Get L d k = Some v \<Longrightarrow> v = contents d k"
    and iterator_law: "NewIterator L d r = (kvs, False) \<Longrightarrow>
      sorted_wrt (<) (map fst kvs) \<and> set kvs = {(k, v). contents d k = Some v \<and> in_range r k}"
    and iterator_sound: "NewIterator L d r = (kvs, True) \<Longrightarrow>
      sorted_wrt (<) (map fst kvs) \<and> set kvs \<subseteq> {(k, v). contents d k = Some v \<and> in_range r k}"
    and prefix_law: "in_range (BytesPrefix L p) k \<longleftrightarrow> prefix p k"
    and write_law: "db_Write L d ops = Some d' \<Longrightarrow> contents d' = apply_ops ops (contents d)"

definition wf_batch :: "'v batch \<Rightarrow> bool" where
  "wf_batch b \<longleftrightarrow> distinct (map fst b) \<and> (\<forall>(k, o') \<in> set b. OpKey o' = k \<and> (OpType o' = PUT \<longrightarrow> OpValue o' \<noteq> None))"

definition apply_batch :: "'v batch \<Rightarrow> 'v contents \<Rightarrow> 'v contents" where
  "apply_batch b m k = (case map_of b k of None \<Rightarrow> m k | Some o' \<Rightarrow> (case OpType o' of PUT \<Rightarrow> OpValue o' | DEL \<Rightarrow> None))"

definition found :: "'v items \<Rightarrow> (bytes \<times> 'v) list" where
  "found its = map snd its"

text \<open>What a client may rely on; \<open>contents s\<close> is what the driver in state \<open>s\<close> stores.\<close>

locale kv_driver =
  fixes D :: "('s, 'v) driver" and contents :: "'s \<Rightarrow> 'v contents"
  assumes get_law: "drv_Get D s ks = Some vs \<Longrightarrow> vs = map (contents s) ks"
    and matches_law: "drv_GetMatches D s ps = Some (its, False) \<Longrightarrow>
      distinct (map fst (found its)) \<and> set (found its) = {(k, v). contents s k = Some v \<and> (\<exists>p \<in> set ps. prefix p k)}"
    and matches_sound: "drv_GetMatches D s ps = Some (its, True) \<Longrightarrow>
      distinct (map fst (found its)) \<and> set (found its) \<subseteq> {(k, v). contents s k = Some v \<and> (\<exists>p \<in> set ps. prefix p k)}"
    and range_law: "drv_GetRange D s lo hi = Some (its, False) \<Longrightarrow>
      sorted_wrt (<) (map fst (found its)) \<and> set (found its) = {(k, v). contents s k = Some v \<and> lo \<le> k \<and> k < hi}"
    and batch_law: "drv_Batch D s b = (True, s') \<Longrightarrow> wf_batch b \<Longrightarrow> contents s' = apply_batch b (contents s)"
    and batch_failed: "drv_Batch D s b = (False, s') \<Longrightarrow> contents s' = contents s"

section \<open>Batches\<close>

lemma wf_NewBatch [simp]: "wf_batch NewBatch"
  by (simp add: wf_batch_def NewBatch_def)

lemma set_alist_update: "set (AList.update k v al) \<subseteq> insert (k, v) (set al)"
  by (induction al) auto

lemma wf_batch_update:
  assumes "wf_batch b" "OpKey o' = k" "OpType o' = PUT \<longrightarrow> OpValue o' \<noteq> None"
  shows "wf_batch (AList.update k o' b)"
  unfolding wf_batch_def
proof
  show "distinct (map fst (AList.update k o' b))" using assms(1) by (simp add: wf_batch_def distinct_update)
  show "\<forall>(k, o') \<in> set (AList.update k o' b). OpKey o' = k \<and> (OpType o' = PUT \<longrightarrow> OpValue o' \<noteq> None)"
  proof
    fix x assume "x \<in> set (AList.update k o' b)"
    then have "x = (k, o') \<or> x \<in> set b" using set_alist_update by fastforce
    then show "case x of (k, o') \<Rightarrow> OpKey o' = k \<and> (OpType o' = PUT \<longrightarrow> OpValue o' \<noteq> None)"
      using assms by (auto simp: wf_batch_def)
  qed
qed

lemma wf_Batch_Put [simp]: "wf_batch b \<Longrightarrow> wf_batch (Batch_Put k v b)"
  unfolding Batch_Put_def by (rule wf_batch_update) simp_all

lemma wf_Batch_Delete [simp]: "wf_batch b \<Longrightarrow> wf_batch (Batch_Delete k b)"
  unfolding Batch_Delete_def by (rule wf_batch_update) simp_all

lemma apply_NewBatch [simp]: "apply_batch NewBatch m = m"
  by (simp add: apply_batch_def NewBatch_def fun_eq_iff)

lemma apply_Batch_Put [simp]: "apply_batch (Batch_Put k v b) m = (apply_batch b m)(k \<mapsto> v)"
  by (simp add: apply_batch_def Batch_Put_def update_conv' fun_eq_iff)

lemma apply_Batch_Delete [simp]: "apply_batch (Batch_Delete k b) m = (apply_batch b m)(k := None)"
  by (simp add: apply_batch_def Batch_Delete_def update_conv' fun_eq_iff)

lemma apply_ops_batch:
  assumes "wf_batch b"
  shows "apply_ops (map snd b) m = apply_batch b m"
  using assms
proof (induction b arbitrary: m rule: rev_induct)
  case (snoc x b)
  obtain k o' where x: "x = (k, o')" by fastforce
  have "wf_batch b" "OpKey o' = k" "k \<notin> fst ` set b" using snoc.prems by (auto simp: wf_batch_def x)
  moreover have "map_of (b @ [(k, o')]) q = (case map_of b q of None \<Rightarrow> if q = k then Some o' else None | Some y \<Rightarrow> Some y)" for q
    by (simp add: map_add_def split: option.split)
  moreover have "map_of b k = None" using calculation(3) by (simp add: map_of_eq_None_iff)
  ultimately show ?case using snoc.IH [of m]
    by (auto simp: x apply_ops_def apply_op_def apply_batch_def fun_eq_iff split: option.split)
qed (simp add: apply_ops_def apply_batch_def fun_eq_iff)

section \<open>Consolidated prefixes\<close>

text \<open>Dropping the keys that extend another changes no match, and no key matches two of the rest.\<close>

lemma consolidate_loop_cover:
  "\<exists>p \<in> set (prev # ks). prefix p k \<Longrightarrow> \<exists>p \<in> insert prev (set (consolidate_loop prev ks)). prefix p k"
proof (induction ks arbitrary: prev)
  case (Cons s ks)
  show ?case
  proof (cases "prefix prev s")
    case True
    then have "\<exists>p \<in> set (prev # ks). prefix p k" using Cons.prems prefix_order.trans [of prev s k] by auto
    then show ?thesis using Cons.IH [of prev] True by auto
  next
    case False
    then show ?thesis using Cons.IH [of s] Cons.prems by auto
  qed
qed simp

lemma consolidate_loop_subset: "set (consolidate_loop prev ks) \<subseteq> set ks"
  by (induction ks arbitrary: prev) auto

lemma prefix_le: "prefix p k \<Longrightarrow> (p :: bytes) \<le> k"
  by (induction p k rule: list_induct2') auto

lemma prefix_between: "prefix p k \<Longrightarrow> p \<le> q \<Longrightarrow> q \<le> k \<Longrightarrow> prefix p (q :: bytes)"
proof (induction p arbitrary: q k)
  case (Cons a p)
  obtain k' where k: "k = a # k'" "prefix p k'" using Cons.prems(1) by (cases k) auto
  show ?case
  proof (cases q)
    case (Cons b q')
    then have "b = a" "p \<le> q'" "q' \<le> k'" using Cons.prems(2,3) k by auto
    then show ?thesis using Cons.IH k \<open>q = b # q'\<close> by auto
  qed (use Cons.prems in simp)
qed simp

lemma consolidate_loop_antichain:
  assumes "sorted (prev # ks)"
  shows "sorted_wrt (\<lambda>p q. \<forall>k. \<not> (prefix p k \<and> prefix q k)) (prev # consolidate_loop prev ks)"
  using assms
proof (induction ks arbitrary: prev)
  case (Cons s ks)
  show ?case
  proof (cases "prefix prev s")
    case True
    have "sorted (prev # ks)" using Cons.prems by simp
    then show ?thesis using Cons.IH [of prev] True by simp
  next
    case False
    have "\<not> (prefix prev k \<and> prefix q k)" if q: "q \<in> insert s (set (consolidate_loop s ks))" for q k
    proof
      assume k: "prefix prev k \<and> prefix q k"
      have "s \<le> q" using q Cons.prems consolidate_loop_subset [of s ks] by auto
      moreover have "prev \<le> s" using Cons.prems by simp
      moreover have "q \<le> k" using k prefix_le by blast
      ultimately have "prefix prev s" using prefix_between [of prev k s] k by auto
      then show False using False by blast
    qed
    then show ?thesis using Cons False by auto
  qed
qed simp

lemma consolidateKeys_spec:
  "(\<exists>p \<in> set (consolidateKeys ks). prefix p k) \<longleftrightarrow> (\<exists>p \<in> set ks. prefix p k)"
  "sorted_wrt (\<lambda>p q. \<forall>k. \<not> (prefix p k \<and> prefix q k)) (consolidateKeys ks)"
proof -
  consider "sort ks = []" | s rest where "sort ks = s # rest" by (cases "sort ks") auto
  then have "((\<exists>p \<in> set (consolidateKeys ks). prefix p k) \<longleftrightarrow> (\<exists>p \<in> set ks. prefix p k))
    \<and> sorted_wrt (\<lambda>p q. \<forall>k. \<not> (prefix p k \<and> prefix q k)) (consolidateKeys ks)"
  proof cases
    case 1
    then have "ks = []" by (metis length_sort length_0_conv)
    then show ?thesis by (simp add: consolidateKeys_def)
  next
    case 2
    have ks: "set ks = set (s # rest)" by (metis 2 set_sort)
    have "sorted (s # rest)" by (metis 2 sorted_sort)
    then show ?thesis
      using consolidate_loop_cover [of s rest k] consolidate_loop_subset [of s rest] consolidate_loop_antichain [of s rest]
      by (auto simp: consolidateKeys_def 2 ks)
  qed
  then show "(\<exists>p \<in> set (consolidateKeys ks). prefix p k) \<longleftrightarrow> (\<exists>p \<in> set ks. prefix p k)"
    "sorted_wrt (\<lambda>p q. \<forall>k. \<not> (prefix p k \<and> prefix q k)) (consolidateKeys ks)" by blast+
qed

section \<open>The LevelDB driver meets the contract\<close>

definition level_contents :: "('d \<Rightarrow> 'v contents) \<Rightarrow> 'd level_driver \<Rightarrow> 'v contents" where
  "level_contents C s = (case db s of None \<Rightarrow> Map.empty | Some d \<Rightarrow> C d)"

context leveldb_api
begin

lemma get_values_contents: "get_values L d ks = Some vs \<Longrightarrow> vs = map (contents d) ks"
  by (induction ks arbitrary: vs) (auto simp: bind_eq_Some_conv dest: snapshot_law)

lemma iterate_forward_spec:
  assumes "iterate_forward L d rs = (its, err)" "sorted_wrt (\<lambda>r r'. \<forall>k. \<not> (in_range r k \<and> in_range r' k)) rs"
  shows "distinct (map fst (found its)) \<and> set (found its) \<subseteq> {(k, v). contents d k = Some v \<and> (\<exists>r \<in> set rs. in_range r k)}
    \<and> (\<not> err \<longrightarrow> {(k, v). contents d k = Some v \<and> (\<exists>r \<in> set rs. in_range r k)} \<subseteq> set (found its))"
  using assms
proof (induction rs arbitrary: its err)
  case (Cons r rs)
  obtain kvs e where n: "NewIterator L d r = (kvs, e)" by fastforce
  have "sorted_wrt (<) (map fst kvs) \<and> set kvs \<subseteq> {(k, v). contents d k = Some v \<and> in_range r k}"
    using iterator_law [of d r kvs] iterator_sound [of d r kvs] n by (cases e) simp_all
  then have kvs: "sorted_wrt (<) (map fst kvs)" "set kvs \<subseteq> {(k, v). contents d k = Some v \<and> in_range r k}" by simp_all
  then have dk: "distinct (map fst kvs)" by (simp add: strict_sorted_iff)
  have fk: "found (map (\<lambda>(k, v). (rg_Start r, k, v)) kvs) = kvs" by (induction kvs) (auto simp: found_def)
  show ?case
  proof (cases e)
    case True
    then have "found its = kvs" "err" using Cons.prems(1) n fk by auto
    then show ?thesis using dk kvs(2) by auto
  next
    case False
    obtain more e' where m: "iterate_forward L d rs = (more, e')" by fastforce
    have its: "found its = kvs @ found more" "err = e'"
      using Cons.prems(1) n m False fk by (auto simp: found_def)
    have full: "set kvs = {(k, v). contents d k = Some v \<and> in_range r k}" using iterator_law [of d r kvs] n False by simp
    note IH = Cons.IH [OF m]
    have "fst ` set kvs \<inter> fst ` set (found more) = {}"
      using IH Cons.prems(2) kvs(2) by fastforce
    then show ?thesis using IH Cons.prems(2) dk full its by auto
  qed
qed (simp add: found_def)

lemma ranges_disjoint: "sorted_wrt (\<lambda>r r'. \<forall>k. \<not> (in_range r k \<and> in_range r' k)) (map (BytesPrefix L) (consolidateKeys ps))"
  using consolidateKeys_spec(2) [of ps] by (simp add: sorted_wrt_map prefix_law)

lemma level_matches:
  assumes "level_GetMatches L s ps = Some (its, err)"
  shows "distinct (map fst (found its))
    \<and> set (found its) \<subseteq> {(k, v). level_contents contents s k = Some v \<and> (\<exists>p \<in> set ps. prefix p k)}
    \<and> (\<not> err \<longrightarrow> {(k, v). level_contents contents s k = Some v \<and> (\<exists>p \<in> set ps. prefix p k)} \<subseteq> set (found its))"
proof -
  obtain d where d: "db s = Some d" "iterate_forward L d (map (BytesPrefix L) (consolidateKeys ps)) = (its, err)"
    using assms by (auto simp: level_GetMatches_def iterate_def split: option.splits if_splits)
  have "(\<exists>r \<in> set (map (BytesPrefix L) (consolidateKeys ps)). in_range r k) \<longleftrightarrow> (\<exists>p \<in> set ps. prefix p k)" for k
    using consolidateKeys_spec(1) [of ps k] by (auto simp: prefix_law)
  with iterate_forward_spec [OF d(2) ranges_disjoint] show ?thesis by (simp add: level_contents_def d(1))
qed

end

sublocale leveldb_api \<subseteq> level: kv_driver "LevelDBStorageDriver L" "level_contents contents"
proof
  fix s ks vs
  assume "drv_Get (LevelDBStorageDriver L) s ks = Some vs"
  then show "vs = map (level_contents contents s) ks"
    by (auto simp: LevelDBStorageDriver_def level_Get_def level_contents_def dest: get_values_contents split: option.splits if_splits)
next
  fix s ps its
  assume "drv_GetMatches (LevelDBStorageDriver L) s ps = Some (its, False)"
  then have "level_GetMatches L s ps = Some (its, False)" by (simp add: LevelDBStorageDriver_def)
  from level_matches [OF this]
  show "distinct (map fst (found its))
    \<and> set (found its) = {(k, v). level_contents contents s k = Some v \<and> (\<exists>p \<in> set ps. prefix p k)}" by blast
next
  fix s ps its
  assume "drv_GetMatches (LevelDBStorageDriver L) s ps = Some (its, True)"
  then have "level_GetMatches L s ps = Some (its, True)" by (simp add: LevelDBStorageDriver_def)
  from level_matches [OF this]
  show "distinct (map fst (found its))
    \<and> set (found its) \<subseteq> {(k, v). level_contents contents s k = Some v \<and> (\<exists>p \<in> set ps. prefix p k)}" by blast
next
  fix s lo hi its
  assume a: "drv_GetRange (LevelDBStorageDriver L) s lo hi = Some (its, False)"
  let ?r = "\<lparr>rg_Start = lo, rg_Limit = Some hi\<rparr>"
  obtain d where d: "db s = Some d" "iterate_forward L d [?r] = (its, False)"
    using a by (auto simp: LevelDBStorageDriver_def level_GetRange_def iterate_def split: option.splits if_splits)
  obtain kvs where kvs: "NewIterator L d ?r = (kvs, False)" "its = map (\<lambda>(k, v). (lo, k, v)) kvs"
    using d(2) by (cases "NewIterator L d ?r") (auto simp: Let_def split: if_splits)
  have "found its = kvs" using kvs(2) by (auto simp: found_def intro: nth_equalityI)
  then show "sorted_wrt (<) (map fst (found its))
    \<and> set (found its) = {(k, v). level_contents contents s k = Some v \<and> lo \<le> k \<and> k < hi}"
    using iterator_law [OF kvs(1)] by (simp add: level_contents_def d(1) in_range_def)
next
  fix s b s'
  assume "drv_Batch (LevelDBStorageDriver L) s b = (True, s')" and wf: "wf_batch b"
  then obtain d d' where "db s = Some d" "db_Write L d (map snd b) = Some d'" "s' = s\<lparr>db := Some d'\<rparr>"
    by (auto simp: LevelDBStorageDriver_def level_Batch_def Ops_def split: option.splits)
  then show "level_contents contents s' = apply_batch b (level_contents contents s)"
    using write_law apply_ops_batch [OF wf] by (simp add: level_contents_def)
next
  fix s b s'
  assume "drv_Batch (LevelDBStorageDriver L) s b = (False, s')"
  then show "level_contents contents s' = level_contents contents s"
    by (auto simp: LevelDBStorageDriver_def level_Batch_def split: option.splits)
qed

section \<open>The prefixed driver meets the contract\<close>

definition prefixed_contents :: "bytes \<Rightarrow> ('s \<Rightarrow> 'v contents) \<Rightarrow> 's \<Rightarrow> 'v contents" where
  "prefixed_contents pre C s k = C s (pre @ k)"

lemma prefix_batch_map:
  assumes "distinct (map fst b)"
  shows "map_of (prefix_batch pre b) (pre @ k) = map_option (\<lambda>o'. o'\<lparr>OpKey := pre @ k\<rparr>) (map_of b k)
    \<and> (\<not> prefix pre q \<longrightarrow> map_of (prefix_batch pre b) q = None) \<and> distinct (map fst (prefix_batch pre b))"
  using assms
proof (induction b rule: rev_induct)
  case (snoc x b)
  obtain j o' where x: "x = (j, o')" by fastforce
  have "j \<notin> fst ` set b" using snoc.prems by (auto simp: x)
  then have "map_of b j = None" by (simp add: map_of_eq_None_iff)
  moreover have "prefix_batch pre (b @ [x]) = AList.update (pre @ j) (o'\<lparr>OpKey := pre @ j\<rparr>) (prefix_batch pre b)"
    by (simp add: prefix_batch_def Ops_def addPrefix_def x)
  ultimately show ?case using snoc
    by (auto simp: update_conv' distinct_update x map_add_def split: option.split)
qed (simp add: prefix_batch_def Ops_def NewBatch_def)

lemma wf_prefix_batch: "wf_batch b \<Longrightarrow> wf_batch (prefix_batch pre b)"
proof -
  assume wf: "wf_batch b"
  then have d: "distinct (map fst b)" by (simp add: wf_batch_def)
  note m = prefix_batch_map [OF d]
  have "OpKey o' = q \<and> (OpType o' = PUT \<longrightarrow> OpValue o' \<noteq> None)" if q: "(q, o') \<in> set (prefix_batch pre b)" for q o'
  proof -
    have "map_of (prefix_batch pre b) q = Some o'" using q m by (simp add: map_of_eq_Some_iff)
    moreover then obtain k where k: "q = pre @ k" using m by (metis option.distinct(1) prefixE)
    ultimately obtain p where "map_of b k = Some p" "o' = p\<lparr>OpKey := pre @ k\<rparr>" using m by auto
    then show ?thesis using wf k map_of_SomeD [of b k p] by (auto simp: wf_batch_def)
  qed
  then show ?thesis using m by (auto simp: wf_batch_def)
qed

lemma found_PrefixedIterator: "found (fst (PrefixedIterator pre (its, e))) = map (\<lambda>(k, v). (drop (length pre) k, v)) (found its)"
  by (simp add: PrefixedIterator_def found_def split_beta)

lemma strip_distinct:
  assumes "distinct (map fst kvs)" "\<forall>(k, v) \<in> set kvs. prefix pre k"
  shows "distinct (map fst (map (\<lambda>(k, v). (drop (length pre) k, v)) kvs))"
proof -
  have "inj_on (drop (length pre)) (fst ` set kvs)"
  proof (rule inj_onI)
    fix a b assume "a \<in> fst ` set kvs" "b \<in> fst ` set kvs" and eq: "drop (length pre) a = drop (length pre) b"
    then have "prefix pre a" "prefix pre b" using assms(2) by auto
    then show "a = b" using eq by (auto simp: prefix_def)
  qed
  then show ?thesis using assms(1) by (simp add: distinct_map comp_def split_beta image_image comp_inj_on inj_on_def)
qed

lemma strip_set:
  assumes "\<forall>(k, v) \<in> set kvs. prefix pre k"
  shows "(k, v) \<in> set (map (\<lambda>(k, v). (drop (length pre) k, v)) kvs) \<longleftrightarrow> (pre @ k, v) \<in> set kvs"
  using assms by (force simp: prefix_def)

lemma append_le_cancel: "(pre @ a :: bytes) \<le> pre @ b \<longleftrightarrow> a \<le> b" "(pre @ a :: bytes) < pre @ b \<longleftrightarrow> a < b"
  by (induction pre) auto

lemma between_prefixed:
  fixes k :: bytes
  assumes "pre @ lo \<le> k" "k < pre @ hi"
  shows "prefix pre k"
  using assms
proof (induction pre arbitrary: k)
  case (Cons a pre)
  then show ?case by (cases k) (auto dest: less_le_trans)
qed simp

lemma prefixed_is_driver:
  assumes "kv_driver D C"
  shows "kv_driver (PrefixedStorageDriver pre D) (prefixed_contents pre C)"
proof -
  note laws = kv_driver.get_law [OF assms] kv_driver.matches_law [OF assms] kv_driver.matches_sound [OF assms]
    kv_driver.range_law [OF assms] kv_driver.batch_law [OF assms] kv_driver.batch_failed [OF assms]
  have stripped: "\<exists>jts. drv_GetMatches D s (map (addPrefix pre) ps) = Some (jts, e)
      \<and> found its = map (\<lambda>(k, v). (drop (length pre) k, v)) (found jts)
      \<and> (\<forall>(k, v) \<in> set (found jts). prefix pre k) \<and> distinct (map fst (found its))
      \<and> (\<forall>k v. (k, v) \<in> set (found its) \<longleftrightarrow> (pre @ k, v) \<in> set (found jts))"
    if a: "drv_GetMatches (PrefixedStorageDriver pre D) s ps = Some (its, e)" for s ps its e
  proof -
    obtain jts where j: "drv_GetMatches D s (map (addPrefix pre) ps) = Some (jts, e)" "its = fst (PrefixedIterator pre (jts, e))"
      using a by (auto simp: PrefixedStorageDriver_def prefixed_GetMatches_def PrefixedIterator_def)
    have f: "found its = map (\<lambda>(k, v). (drop (length pre) k, v)) (found jts)"
      unfolding j(2) by (rule found_PrefixedIterator)
    have "distinct (map fst (found jts))
        \<and> set (found jts) \<subseteq> {(k, v). C s k = Some v \<and> (\<exists>p \<in> set (map (addPrefix pre) ps). prefix p k)}"
      using laws(2) [of s "map (addPrefix pre) ps" jts] laws(3) [of s "map (addPrefix pre) ps" jts] j(1)
      by (cases e) simp_all
    moreover then have "\<forall>(k, v) \<in> set (found jts). prefix pre k"
      by (auto simp: addPrefix_def dest: append_prefixD)
    ultimately show ?thesis using j(1) f strip_distinct [of "found jts" pre] strip_set [of "found jts" pre] by auto
  qed
  show ?thesis
  proof
    fix s ks vs
    assume "drv_Get (PrefixedStorageDriver pre D) s ks = Some vs"
    then show "vs = map (prefixed_contents pre C s) ks"
      using laws(1) [of s "map (addPrefix pre) ks" vs]
      by (simp add: PrefixedStorageDriver_def prefixed_Get_def prefixed_contents_def addPrefix_def)
  next
    fix s ps its
    assume "drv_GetMatches (PrefixedStorageDriver pre D) s ps = Some (its, False)"
    from stripped [OF this] obtain jts where j: "drv_GetMatches D s (map (addPrefix pre) ps) = Some (jts, False)"
      "distinct (map fst (found its))" "\<forall>k v. (k, v) \<in> set (found its) \<longleftrightarrow> (pre @ k, v) \<in> set (found jts)" by blast
    with laws(2) [OF j(1)]
    show "distinct (map fst (found its))
      \<and> set (found its) = {(k, v). prefixed_contents pre C s k = Some v \<and> (\<exists>p \<in> set ps. prefix p k)}"
      by (auto simp: prefixed_contents_def addPrefix_def)
  next
    fix s ps its
    assume "drv_GetMatches (PrefixedStorageDriver pre D) s ps = Some (its, True)"
    from stripped [OF this] obtain jts where j: "drv_GetMatches D s (map (addPrefix pre) ps) = Some (jts, True)"
      "distinct (map fst (found its))" "\<forall>k v. (k, v) \<in> set (found its) \<longleftrightarrow> (pre @ k, v) \<in> set (found jts)" by blast
    have "prefixed_contents pre C s k = Some v \<and> (\<exists>p \<in> set ps. prefix p k)" if "(k, v) \<in> set (found its)" for k v
    proof -
      have "(pre @ k, v) \<in> {(k, v). C s k = Some v \<and> (\<exists>p \<in> set (map (addPrefix pre) ps). prefix p k)}"
        using laws(3) [OF j(1)] j(3) that by blast
      then show ?thesis by (simp add: prefixed_contents_def addPrefix_def)
    qed
    then show "distinct (map fst (found its))
      \<and> set (found its) \<subseteq> {(k, v). prefixed_contents pre C s k = Some v \<and> (\<exists>p \<in> set ps. prefix p k)}"
      using j(2) by blast
  next
    fix s lo hi its
    assume "drv_GetRange (PrefixedStorageDriver pre D) s lo hi = Some (its, False)"
    then obtain jts where j: "drv_GetRange D s (pre @ lo) (pre @ hi) = Some (jts, False)"
        "its = fst (PrefixedIterator pre (jts, False))"
      by (auto simp: PrefixedStorageDriver_def prefixed_GetRange_def PrefixedIterator_def addPrefix_def)
    note r = laws(4) [OF j(1)]
    have f: "found its = map (\<lambda>(k, v). (drop (length pre) k, v)) (found jts)"
      unfolding j(2) by (rule found_PrefixedIterator)
    have pre: "\<forall>(k, v) \<in> set (found jts). prefix pre k" using r between_prefixed by auto
    have "sorted_wrt (<) (map fst (found its))"
    proof -
      have "drop (length pre) a < drop (length pre) b" if "prefix pre a" "prefix pre b" "a < b" for a b
        using that append_le_cancel(2) [of pre] by (auto simp: prefix_def)
      moreover have "sorted_wrt (<) (map fst (found jts))" using r by blast
      ultimately show ?thesis using pre unfolding f
        by (auto simp: sorted_wrt_map split_beta intro: sorted_wrt_mono_rel [rotated])
    qed
    moreover have "(k, v) \<in> set (found its) \<longleftrightarrow> prefixed_contents pre C s k = Some v \<and> lo \<le> k \<and> k < hi" for k v
      unfolding f strip_set [OF pre] using r by (simp add: prefixed_contents_def append_le_cancel)
    ultimately show "sorted_wrt (<) (map fst (found its))
      \<and> set (found its) = {(k, v). prefixed_contents pre C s k = Some v \<and> lo \<le> k \<and> k < hi}" by auto
  next
    fix s b s'
    assume a: "drv_Batch (PrefixedStorageDriver pre D) s b = (True, s')" and wf: "wf_batch b"
    then have "C s' = apply_batch (prefix_batch pre b) (C s)"
      using laws(5) wf_prefix_batch [OF wf] by (simp add: PrefixedStorageDriver_def prefixed_Batch_def)
    then show "prefixed_contents pre C s' = apply_batch b (prefixed_contents pre C s)"
      using prefix_batch_map [of b pre] wf
      by (auto simp: prefixed_contents_def apply_batch_def wf_batch_def fun_eq_iff split: option.split op_type.split)
  next
    fix s b s'
    assume "drv_Batch (PrefixedStorageDriver pre D) s b = (False, s')"
    then show "prefixed_contents pre C s' = prefixed_contents pre C s"
      using laws(6) by (simp add: PrefixedStorageDriver_def prefixed_Batch_def prefixed_contents_def fun_eq_iff)
  qed
qed

section \<open>Copies\<close>

lemma apply_ops_append: "apply_ops (xs @ ys) m = apply_ops ys (apply_ops xs m)"
  by (simp add: apply_ops_def)

definition put_ops :: "(bytes \<times> 'v) list \<Rightarrow> 'v op list" where
  "put_ops kvs = map (\<lambda>(k, v). \<lparr>OpType = PUT, OpKey = k, OpValue = Some v\<rparr>) kvs"

lemma apply_put_ops: "apply_ops (put_ops kvs) m = m ++ map_of (rev kvs)"
  by (induction kvs rule: rev_induct)
    (auto simp: apply_ops_def put_ops_def apply_op_def map_add_def fun_eq_iff split: option.split)

context leveldb_api
begin

lemma copy_loop_contents:
  assumes "copy_loop L sz kvs b n dest = Some (b', dest')"
  shows "apply_ops b' (contents dest') = apply_ops (b @ put_ops kvs) (contents dest)"
  using assms
proof (induction kvs arbitrary: b n dest)
  case (Cons kv kvs)
  obtain k v where kv: "kv = (k, v)" by fastforce
  let ?b = "b @ [\<lparr>OpType = PUT, OpKey = k, OpValue = Some v\<rparr>]"
  have p: "?b @ put_ops kvs = b @ put_ops (kv # kvs)" by (simp add: put_ops_def kv)
  show ?case
  proof (cases "CopyBatchMaxBytes \<le> n + length k + sz v \<or> CopyBatchSize \<le> length ?b")
    case True
    then obtain d where d: "db_Write L dest ?b = Some d" "copy_loop L sz kvs [] 0 d = Some (b', dest')"
      using Cons.prems by (auto simp: kv Let_def bind_eq_Some_conv split: if_splits)
    have "apply_ops b' (contents dest') = apply_ops (put_ops kvs) (apply_ops ?b (contents dest))"
      using Cons.IH [OF d(2)] write_law [OF d(1)] by simp
    then show ?thesis unfolding p [symmetric] by (simp only: apply_ops_append)
  next
    case False
    then have "copy_loop L sz kvs ?b (n + length k + sz v) dest = Some (b', dest')"
      using Cons.prems by (simp add: kv Let_def)
    from Cons.IH [OF this] show ?thesis unfolding p .
  qed
qed (simp add: put_ops_def)

text \<open>A successful copy into an empty database reproduces the source.\<close>

lemma levelCopy_contents:
  assumes "levelCopy L sz dest src = Some dest'" "contents dest = Map.empty"
  shows "contents dest' = contents src"
proof -
  let ?r = "\<lparr>rg_Start = [], rg_Limit = None\<rparr>"
  obtain kvs err b d where n: "NewIterator L src ?r = (kvs, err)" and c: "copy_loop L sz kvs [] 0 dest = Some (b, d)"
    and e: "\<not> err" "(if b \<noteq> [] then db_Write L d b else Some d) = Some dest'"
    using assms(1) by (auto simp: levelCopy_def bind_eq_Some_conv split: prod.splits if_splits)
  have "contents dest' = apply_ops b (contents d)" using e(2) write_law by (auto simp: apply_ops_def split: if_splits)
  also have "\<dots> = map_of (rev kvs)" using copy_loop_contents [OF c] assms(2) by (simp add: apply_put_ops)
  finally have m: "contents dest' = map_of (rev kvs)" .
  have law: "sorted_wrt (<) (map fst kvs)" "set kvs = {(k, v). contents src k = Some v \<and> in_range ?r k}"
    using iterator_law [of src ?r kvs] n e(1) by simp_all
  then have "distinct (map fst (rev kvs))" by (simp add: strict_sorted_iff rev_map [symmetric])
  then have "map_of (rev kvs) k = Some v \<longleftrightarrow> contents src k = Some v" for k v
    using law(2) by (simp add: in_range_def)
  then show ?thesis unfolding m by (metis ext option.exhaust)
qed

end

section \<open>An in-memory database\<close>

fun next_key :: "bytes \<Rightarrow> bytes option" where
  "next_key [] = None"
| "next_key (b # bs) =
     (case next_key bs of Some l \<Rightarrow> Some (b # l) | None \<Rightarrow> if b = 255 then None else Some [b + 1])"

definition mem_leveldb :: "((bytes \<times> 'v) list, 'v) leveldb" where
  "mem_leveldb = \<lparr>GetSnapshot = (\<lambda>d. True), snapshot_Get = (\<lambda>d k. Some (map_of d k)),
     NewIterator = (\<lambda>d r. (map (\<lambda>k. (k, the (map_of d k))) (sort (filter (in_range r) (remdups (map fst d)))), False)),
     BytesPrefix = (\<lambda>p. \<lparr>rg_Start = p, rg_Limit = next_key p\<rparr>),
     db_Write = (\<lambda>d ops. Some (fold (\<lambda>o' d. case OpType o' of
        PUT \<Rightarrow> (case OpValue o' of None \<Rightarrow> AList.delete (OpKey o') d | Some v \<Rightarrow> AList.update (OpKey o') v d)
      | DEL \<Rightarrow> AList.delete (OpKey o') d) ops d))\<rparr>"

lemma unat_numeral_byte: "unat (255 :: byte) = 255"
  by simp

lemma next_key_prefix:
  "in_range \<lparr>rg_Start = p, rg_Limit = next_key p\<rparr> k \<longleftrightarrow> prefix p k"
proof (induction p arbitrary: k)
  case (Cons b bs)
  have top: "x \<le> 255" for x :: byte by (simp add: word_le_nat_alt) (use unsigned_less [of x, where 'a = nat] in simp)
  have succ: "y < b + 1 \<longleftrightarrow> y \<le> b" if "b \<noteq> 255" for y
  proof -
    have "unat b \<noteq> 255" using that by (metis unat_numeral_byte word_unat_eq_iff)
    then have "unat b + 1 < 2 ^ 8" using unsigned_less [of b, where 'a = nat] by simp
    then have "unat (b + 1) = unat b + 1" using unat_add_lem [of b 1] by simp
    then show ?thesis by (simp add: word_less_nat_alt word_le_nat_alt less_Suc_eq_le)
  qed
  show ?case
  proof (cases k)
    case (Cons y ks)
    show ?thesis
    proof (cases "next_key bs")
      case None
      show ?thesis
      proof (cases "b = 255")
        case True
        then show ?thesis using Cons.IH [of ks] top [of y] None \<open>k = y # ks\<close> by (auto simp: in_range_def)
      next
        case False
        then show ?thesis using Cons.IH [of ks] succ [OF False, of y] None \<open>k = y # ks\<close> by (auto simp: in_range_def)
      qed
    next
      case (Some l)
      then show ?thesis using Cons.IH [of ks] \<open>k = y # ks\<close> by (auto simp: in_range_def)
    qed
  qed (simp add: in_range_def)
qed (simp add: in_range_def)

lemma mem_is_leveldb: "leveldb_api mem_leveldb (map_of :: (bytes \<times> 'v) list \<Rightarrow> 'v contents)"
proof
  fix d kvs :: "(bytes \<times> 'v) list" and r
  let ?ks = "sort (filter (in_range r) (remdups (map fst d)))"
  assume "NewIterator mem_leveldb d r = (kvs, False)"
  then have kvs: "kvs = map (\<lambda>k. (k, the (map_of d k))) ?ks" by (simp add: mem_leveldb_def)
  have "map fst kvs = ?ks" by (simp add: kvs comp_def)
  moreover have "sorted_wrt (<) ?ks" by (simp add: strict_sorted_iff)
  moreover have "(k, v) \<in> set kvs \<longleftrightarrow> map_of d k = Some v \<and> in_range r k" for k v
  proof -
    have "k \<in> fst ` set d \<longleftrightarrow> map_of d k \<noteq> None" using map_of_eq_None_iff [of d k] by simp
    moreover have "(k, v) \<in> set kvs \<longleftrightarrow> v = the (map_of d k) \<and> in_range r k \<and> k \<in> fst ` set d"
      unfolding kvs by (auto simp: image_iff)
    ultimately show ?thesis by auto
  qed
  then have "set kvs = {(k, v). map_of d k = Some v \<and> in_range r k}" by auto
  ultimately show "sorted_wrt (<) (map fst kvs) \<and> set kvs = {(k, v). map_of d k = Some v \<and> in_range r k}" by simp
next
  fix ops and d d' :: "(bytes \<times> 'v) list"
  assume "db_Write mem_leveldb d ops = Some d'"
  then show "map_of d' = apply_ops ops (map_of d)"
    by (induction ops arbitrary: d)
      (auto simp: mem_leveldb_def apply_ops_def apply_op_def update_conv' delete_conv' split: op_type.splits option.splits)
qed (simp_all add: mem_leveldb_def next_key_prefix)

interpretation mem: leveldb_api mem_leveldb "map_of :: (bytes \<times> 'v) list \<Rightarrow> 'v contents"
  by (rule mem_is_leveldb)

end
