(* ===== verification/Row.thy ===== *)
theory Row
  imports Update Storage_Laws
begin

text \<open>
  What a bucket stores: \<^verbatim>\<open>data/row.go\<close>, the conflict resolvers of \<^verbatim>\<open>resolver/strategies\<close>, and the
  values under the keys of a bucket. The JSON text of a value is not modelled: a stored value is the row, sibling
  list or byte string the text denotes, decoding one kind as another fails as the JSON decoder does, and
  decoding siblings allocates them (the addresses from \<open>alloc\<close> on).
\<close>

record row =
  row_Key :: string
  LocalVersion :: u64
  Siblings :: "sibling_set option"

datatype stored =
    StoredRow string u64 "sibling list option"
  | StoredSiblings "sibling list"
  | StoredBytes bytes

definition Row_Encode :: "row \<Rightarrow> stored" where
  "Row_Encode r = StoredRow (row_Key r) (LocalVersion r) (map_option MarshalJSON (Siblings r))"

text \<open>Format 0 had no rows; a value that is not a sibling list may already have been upgraded.\<close>

definition unmarshal_row :: "nat \<Rightarrow> stored \<Rightarrow> (row \<times> nat) option" where
  "unmarshal_row alloc v =
     (case v of
        StoredRow k ver None \<Rightarrow> Some (\<lparr>row_Key = k, LocalVersion = ver, Siblings = None\<rparr>, alloc)
      | StoredRow k ver (Some ss) \<Rightarrow>
          (let (siblings, alloc) = UnmarshalJSON alloc ss
           in Some (\<lparr>row_Key = k, LocalVersion = ver, Siblings = Some siblings\<rparr>, alloc))
      | _ \<Rightarrow> None)"

definition Row_Decode :: "nat \<Rightarrow> stored \<Rightarrow> string \<Rightarrow> (row \<times> nat) option" where
  "Row_Decode alloc v formatVersion =
     (if formatVersion = ''0'' then
        (case v of
           StoredSiblings ss \<Rightarrow>
             (let (siblings, alloc) = UnmarshalJSON alloc ss
              in Some (\<lparr>row_Key = '''', LocalVersion = 0, Siblings = Some siblings\<rparr>, alloc))
         | _ \<Rightarrow> unmarshal_row alloc v)
      else unmarshal_row alloc v)"

section \<open>Conflict resolvers\<close>

datatype conflict_resolver = MultiValue | LastWriterWins

fun newest_loop :: "sibling_ptr option \<Rightarrow> sibling_set \<Rightarrow> sibling_ptr option" where
  "newest_loop newest [] = newest"
| "newest_loop newest (p # ss) =
     newest_loop (case newest of None \<Rightarrow> Some p | Some q \<Rightarrow> if Timestamp (snd p) > Timestamp (snd q) then Some p else newest) ss"

fun ResolveConflicts :: "conflict_resolver \<Rightarrow> sibling_set \<Rightarrow> sibling_set" where
  "ResolveConflicts MultiValue ss = ss"
| "ResolveConflicts LastWriterWins ss =
     (case newest_loop None ss of None \<Rightarrow> ss | Some p \<Rightarrow> NewSiblingSet [p])"

section \<open>Laws\<close>

lemma MarshalJSON_Unmarshal [simp]: "MarshalJSON (fst (UnmarshalJSON alloc ss)) = ss"
  by (simp add: MarshalJSON_def UnmarshalJSON_def map_snd_zip)

lemma Row_roundtrip:
  "\<exists>r' alloc'. Row_Decode alloc (Row_Encode r) fmt = Some (r', alloc') \<and> row_Key r' = row_Key r
     \<and> LocalVersion r' = LocalVersion r \<and> map_option MarshalJSON (Siblings r') = map_option MarshalJSON (Siblings r)"
  by (cases "Siblings r") (auto simp: Row_Decode_def Row_Encode_def unmarshal_row_def split: prod.split
      dest: arg_cong [where f = "\<lambda>x. MarshalJSON (fst x)"])

lemma newest_loop_spec:
  "newest_loop (Some q) ss = Some p \<Longrightarrow> p \<in> set (q # ss) \<and> (\<forall>x \<in> set (q # ss). Timestamp (snd x) \<le> Timestamp (snd p))"
proof (induction ss arbitrary: q)
  case (Cons x ss)
  let ?q = "if Timestamp (snd x) > Timestamp (snd q) then x else q"
  have "newest_loop (Some ?q) ss = Some p" using Cons.prems by (simp split: if_splits)
  from Cons.IH [OF this] show ?case by (auto split: if_splits dest: order.trans)
qed simp

lemma newest_loop_total: "\<exists>p. newest_loop (Some q) ss = Some p"
  by (induction ss arbitrary: q) auto

text \<open>Resolution keeps one of the siblings, and changes nothing the second time.\<close>

lemma ResolveConflicts_subset: "set (ResolveConflicts r ss) \<subseteq> set ss \<and> (ss \<noteq> [] \<longrightarrow> ResolveConflicts r ss \<noteq> [])"
proof (cases r)
  case LastWriterWins
  show ?thesis
  proof (cases ss)
    case (Cons q rest)
    obtain p where "newest_loop (Some q) rest = Some p" using newest_loop_total by blast
    then show ?thesis using newest_loop_spec [of q rest p] by (simp add: LastWriterWins Cons NewSiblingSet_def)
  qed (simp add: LastWriterWins)
qed simp

lemma ResolveConflicts_idem [simp]: "ResolveConflicts r (ResolveConflicts r ss) = ResolveConflicts r ss"
proof (cases r)
  case LastWriterWins
  show ?thesis
  proof (cases ss)
    case (Cons q rest)
    obtain p where "newest_loop (Some q) rest = Some p" using newest_loop_total by blast
    then show ?thesis by (simp add: LastWriterWins Cons NewSiblingSet_def)
  qed (simp add: LastWriterWins)
qed simp

end
