(* ===== verification/Monitor.thy ===== *)
theory Monitor
  imports Row "HOL-Library.Sublist"
begin

text \<open>
  \<^verbatim>\<open>bucket/monitor.go\<close>: delivery of committed rows to watchers in the order of their local versions. Rows may
  be submitted out of order; a heap holds those that are ahead. The heap is the list of its rows in
  ascending version, as \<^verbatim>\<open>heap.Pop\<close> takes them; the channel of a listener is the list of rows sent
  to it. The pointer set of listeners is a list.
\<close>

definition UpdateHeap_Less :: "row list \<Rightarrow> nat \<Rightarrow> nat \<Rightarrow> bool" where
  "UpdateHeap_Less h i j \<longleftrightarrow> LocalVersion (h ! i) < LocalVersion (h ! j)"

definition heap_Push :: "row list \<Rightarrow> row \<Rightarrow> row list" where
  "heap_Push h r = insort_key LocalVersion r h"

record listener =
  l_keys :: "bytes list"
  l_prefixes :: "bytes list"
  l_ch :: "row list"

fun any_key :: "string \<Rightarrow> bytes list \<Rightarrow> bool" where
  "any_key k [] = False"
| "any_key k (key # keys) = (if k = string_of_bytes key then True else any_key k keys)"

fun any_prefix :: "string \<Rightarrow> bytes list \<Rightarrow> bool" where
  "any_prefix k [] = False"
| "any_prefix k (p # ps) = (if prefix (string_of_bytes p) k then True else any_prefix k ps)"

definition isListeningFor :: "listener \<Rightarrow> row \<Rightarrow> bool" where
  "isListeningFor l update = (if any_key (row_Key update) (l_keys l) then True else any_prefix (row_Key update) (l_prefixes l))"

record monitor =
  listeners :: "listener list"
  previousVersion :: u64
  updateHeap :: "row list"

definition NewMonitor :: "u64 \<Rightarrow> monitor" where
  "NewMonitor startVersion = \<lparr>listeners = [], previousVersion = startVersion, updateHeap = []\<rparr>"

definition AddListener :: "bytes list \<Rightarrow> bytes list \<Rightarrow> row list \<Rightarrow> monitor \<Rightarrow> monitor" where
  "AddListener keys pres ch m =
     m\<lparr>listeners := listeners m @ [\<lparr>l_keys = keys, l_prefixes = pres, l_ch = ch\<rparr>]\<rparr>"

definition sendUpdate :: "row \<Rightarrow> monitor \<Rightarrow> monitor" where
  "sendUpdate update m =
     m\<lparr>listeners := map (\<lambda>l. if isListeningFor l update then l\<lparr>l_ch := l_ch l @ [update]\<rparr> else l) (listeners m)\<rparr>"

fun flush_loop :: "row list \<Rightarrow> monitor \<Rightarrow> monitor" where
  "flush_loop [] m = m\<lparr>updateHeap := []\<rparr>"
| "flush_loop (r # rs) m =
     (if LocalVersion r = 0 \<or> LocalVersion r = previousVersion m + 1 then
        (let m = m\<lparr>previousVersion := LocalVersion r\<rparr> in
         flush_loop rs (if row_Key r = '''' then m else sendUpdate r m))
      else m\<lparr>updateHeap := r # rs\<rparr>)"

definition flushUpdates :: "monitor \<Rightarrow> monitor" where
  "flushUpdates m = flush_loop (updateHeap m) m"

definition submitUpdate :: "row \<Rightarrow> monitor \<Rightarrow> monitor" where
  "submitUpdate update m =
     (if LocalVersion update < previousVersion m \<or> LocalVersion update = previousVersion m \<and> LocalVersion update \<noteq> 0
      then m
      else flushUpdates (m\<lparr>updateHeap := heap_Push (updateHeap m) update\<rparr>))"

definition Notify :: "row \<Rightarrow> monitor \<Rightarrow> monitor" where
  "Notify update m = submitUpdate update m"

definition DiscardIDRange :: "u64 \<Rightarrow> u64 \<Rightarrow> monitor \<Rightarrow> monitor" where
  "DiscardIDRange low high m =
     fold (\<lambda>i. submitUpdate \<lparr>row_Key = '''', LocalVersion = i, Siblings = None\<rparr>) (map of_nat [unat low..<Suc (unat high)]) m"

section \<open>Order and completeness of delivery\<close>

text \<open>
  The rows with the versions \<open>s + 1, s + 2, ...\<close> are \<open>R 0, R 1, ...\<close>. After the rows with indices in \<open>S\<close> have
  been submitted, the contiguous ones are delivered and the others wait in the heap.
\<close>

definition wanted :: "listener \<Rightarrow> row list \<Rightarrow> row list" where
  "wanted l rs = filter (\<lambda>r. row_Key r \<noteq> '''' \<and> isListeningFor l r) rs"

definition delivered :: "monitor \<Rightarrow> row list \<Rightarrow> listener list" where
  "delivered m rs = map (\<lambda>l. l\<lparr>l_ch := l_ch l @ wanted l rs\<rparr>) (listeners m)"

definition numbered :: "(nat \<Rightarrow> row) \<Rightarrow> u64 \<Rightarrow> nat \<Rightarrow> bool" where
  "numbered R s n \<longleftrightarrow> unat s + n < 2 ^ 64 \<and> (\<forall>i < n. LocalVersion (R i) = s + 1 + of_nat i)"

lemma numbered_unat:
  assumes "numbered R s n" "i < n"
  shows "unat (LocalVersion (R i)) = unat s + 1 + i"
proof -
  have "unat s + 1 + i < 2 ^ 64" using assms by (simp add: numbered_def)
  then have "unat (of_nat (unat s + 1 + i) :: u64) = unat s + 1 + i" by (rule unat_of_nat_u64)
  moreover have "(of_nat (unat s + 1 + i) :: u64) = s + 1 + of_nat i" by simp
  ultimately show ?thesis using assms by (metis numbered_def)
qed

definition progress :: "(nat \<Rightarrow> row) \<Rightarrow> u64 \<Rightarrow> monitor \<Rightarrow> nat \<Rightarrow> nat list \<Rightarrow> monitor \<Rightarrow> bool" where
  "progress R s m0 p xs m \<longleftrightarrow> unat (previousVersion m) = unat s + p \<and> sorted_wrt (<) xs
     \<and> listeners m = delivered m0 (map R [0..<p])"

lemma isListeningFor_ch [simp]: "isListeningFor (l\<lparr>l_ch := x\<rparr>) r = isListeningFor l r"
  by (simp add: isListeningFor_def)

lemma delivered_snoc:
  assumes "listeners m = delivered m0 rs"
  shows "listeners (if row_Key r = '''' then m else sendUpdate r m) = delivered m0 (rs @ [r])"
  using assms by (auto simp: delivered_def sendUpdate_def wanted_def)

lemma flush_loop_progress:
  assumes num: "numbered R s n" and pr: "progress R s m0 p xs m" and xs: "\<forall>x \<in> set xs. p \<le> x \<and> x < n"
  shows "\<exists>q ys. progress R s m0 q ys (flush_loop (map R xs) m) \<and> updateHeap (flush_loop (map R xs) m) = map R ys
    \<and> (\<forall>y \<in> set ys. q < y) \<and> {..<q} \<union> set ys = {..<p} \<union> set xs"
  using pr xs
proof (induction xs arbitrary: p m)
  case Nil
  then show ?case by (intro exI [of _ p] exI [of _ "[]"]) (simp add: progress_def)
next
  case (Cons x xs)
  have ver: "unat (LocalVersion (R x)) = unat s + 1 + x" using numbered_unat [OF num] Cons.prems by simp
  then have nz: "LocalVersion (R x) \<noteq> 0" by (metis Suc_neq_Zero add_Suc_right plus_nat.add_0 unat_0 add.assoc add.commute Suc_eq_plus1)
  have prev: "unat (previousVersion m) = unat s + p" "unat s + p + 1 < 2 ^ 64"
    using Cons.prems num by (auto simp: progress_def numbered_def)
  then have succ: "unat (previousVersion m + 1) = unat s + p + 1" using unat_add_lem [of "previousVersion m" 1] by simp
  have hit: "LocalVersion (R x) = previousVersion m + 1 \<longleftrightarrow> x = p"
    using ver succ by (simp add: word_unat_eq_iff)
  show ?case
  proof (cases "x = p")
    case True
    let ?m = "m\<lparr>previousVersion := LocalVersion (R x)\<rparr>"
    let ?m' = "if row_Key (R x) = '''' then ?m else sendUpdate (R x) ?m"
    have "progress R s m0 (Suc p) xs ?m'"
      using Cons.prems(1) ver True delivered_snoc [of ?m m0 "map R [0..<p]" "R x"]
      by (auto simp: progress_def sendUpdate_def)
    moreover have "\<forall>y \<in> set xs. Suc p \<le> y \<and> y < n" using Cons.prems True by (auto simp: progress_def)
    ultimately obtain q ys where "progress R s m0 q ys (flush_loop (map R xs) ?m')"
        "updateHeap (flush_loop (map R xs) ?m') = map R ys" "\<forall>y \<in> set ys. q < y" "{..<q} \<union> set ys = {..<Suc p} \<union> set xs"
      using Cons.IH by blast
    moreover have "flush_loop (map R (x # xs)) m = flush_loop (map R xs) ?m'" using hit True by (simp add: Let_def)
    moreover have "{..<Suc p} \<union> set xs = {..<p} \<union> set (x # xs)" using True by auto
    ultimately show ?thesis by metis
  next
    case False
    then have "flush_loop (map R (x # xs)) m = m\<lparr>updateHeap := map R (x # xs)\<rparr>" using hit nz by simp
    moreover have "\<forall>y \<in> set (x # xs). p < y" using Cons.prems False by (auto simp: progress_def)
    moreover have "progress R s m0 p (x # xs) (m\<lparr>updateHeap := map R (x # xs)\<rparr>)"
      using Cons.prems(1) by (simp add: progress_def)
    ultimately show ?thesis by (intro exI [of _ p] exI [of _ "x # xs"]) simp
  qed
qed

definition caught_up :: "(nat \<Rightarrow> row) \<Rightarrow> u64 \<Rightarrow> monitor \<Rightarrow> nat set \<Rightarrow> monitor \<Rightarrow> bool" where
  "caught_up R s m0 S m \<longleftrightarrow> (\<exists>p xs. progress R s m0 p xs m \<and> updateHeap m = map R xs \<and> (\<forall>x \<in> set xs. p < x)
     \<and> {..<p} \<union> set xs = S)"

lemma insort_versions:
  assumes num: "numbered R s n" and xs: "sorted_wrt (<) xs" "\<forall>x \<in> set xs. x < n" and j: "j < n" "j \<notin> set xs"
  shows "\<exists>ys. insort_key LocalVersion (R j) (map R xs) = map R ys \<and> sorted_wrt (<) ys \<and> set ys = insert j (set xs)"
  using xs j(2)
proof (induction xs)
  case (Cons x xs)
  have le: "LocalVersion (R j) \<le> LocalVersion (R x) \<longleftrightarrow> j \<le> x"
    using numbered_unat [OF num j(1)] numbered_unat [OF num, of x] Cons.prems(2) by (simp add: word_le_nat_alt)
  show ?case
  proof (cases "j \<le> x")
    case True
    then have "j < x" using Cons.prems(3) by auto
    then have "sorted_wrt (<) (j # x # xs)" using Cons.prems(1) by auto
    moreover have "insort_key LocalVersion (R j) (map R (x # xs)) = map R (j # x # xs)" using le True by simp
    ultimately show ?thesis by (intro exI [of _ "j # x # xs"]) simp
  next
    case False
    obtain ys where ys: "insort_key LocalVersion (R j) (map R xs) = map R ys" "sorted_wrt (<) ys" "set ys = insert j (set xs)"
      using Cons.IH Cons.prems by auto
    have "insort_key LocalVersion (R j) (map R (x # xs)) = map R (x # ys)" using le False ys(1) by simp
    moreover have "sorted_wrt (<) (x # ys)" using ys False Cons.prems(1) by auto
    ultimately show ?thesis using ys(3) by (intro exI [of _ "x # ys"]) auto
  qed
qed (auto intro: exI [of _ "[j]"])

lemma submitUpdate_caught_up:
  assumes num: "numbered R s n" and c: "caught_up R s m0 S m" "S \<subseteq> {..<n}" and j: "j < n" "j \<notin> S"
  shows "caught_up R s m0 (insert j S) (submitUpdate (R j) m)"
proof -
  obtain p xs where p: "progress R s m0 p xs m" "updateHeap m = map R xs" "\<forall>x \<in> set xs. p < x" "{..<p} \<union> set xs = S"
    using c(1) by (auto simp: caught_up_def)
  have xsn: "\<forall>x \<in> set xs. x < n" using p(4) c(2) by blast
  have jp: "p \<le> j" "j \<notin> set xs" using p(4) j(2) by (auto simp: not_le [symmetric])
  have "unat (LocalVersion (R j)) = unat s + 1 + j" by (rule numbered_unat [OF num j(1)])
  then have keep: "\<not> (LocalVersion (R j) < previousVersion m \<or> LocalVersion (R j) = previousVersion m \<and> LocalVersion (R j) \<noteq> 0)"
    using p(1) jp(1) by (auto simp: progress_def word_less_nat_alt)
  obtain ys where ys: "insort_key LocalVersion (R j) (map R xs) = map R ys" "sorted_wrt (<) ys" "set ys = insert j (set xs)"
    using insort_versions [OF num _ xsn j(1) jp(2)] p(1) by (auto simp: progress_def)
  let ?m = "m\<lparr>updateHeap := map R ys\<rparr>"
  have "progress R s m0 p ys ?m" using p(1) ys(2) by (simp add: progress_def)
  moreover have "\<forall>y \<in> set ys. p \<le> y \<and> y < n" using ys(3) p(3) xsn jp(1) j(1) by auto
  ultimately obtain q zs where "progress R s m0 q zs (flush_loop (map R ys) ?m)"
      "updateHeap (flush_loop (map R ys) ?m) = map R zs" "\<forall>y \<in> set zs. q < y" "{..<q} \<union> set zs = {..<p} \<union> set ys"
    using flush_loop_progress [OF num] by blast
  moreover have "submitUpdate (R j) m = flush_loop (map R ys) ?m"
    unfolding submitUpdate_def if_not_P [OF keep] using p(2) ys(1) by (simp add: flushUpdates_def heap_Push_def)
  moreover have "{..<p} \<union> set ys = insert j S" using p(4) ys(3) by auto
  ultimately show ?thesis unfolding caught_up_def by metis
qed

lemma submit_all_caught_up:
  assumes num: "numbered R s n" and c: "caught_up R s m0 S m" and js: "distinct js" "set js \<inter> S = {}" "S \<union> set js \<subseteq> {..<n}"
  shows "caught_up R s m0 (S \<union> set js) (fold (\<lambda>j. submitUpdate (R j)) js m)"
  using c js
proof (induction js arbitrary: S m)
  case (Cons j js)
  have "caught_up R s m0 (insert j S) (submitUpdate (R j) m)"
    using Cons.prems by (intro submitUpdate_caught_up [OF num]) auto
  moreover have "set js \<inter> insert j S = {}" "insert j S \<union> set js \<subseteq> {..<n}" using Cons.prems by auto
  ultimately show ?case using Cons.IH [of "insert j S" "submitUpdate (R j) m"] Cons.prems(2) by auto
qed simp

lemma caught_up_all:
  assumes "caught_up R s m0 {..<n} m"
  shows "updateHeap m = [] \<and> unat (previousVersion m) = unat s + n \<and> listeners m = delivered m0 (map R [0..<n])"
proof -
  obtain p xs where p: "progress R s m0 p xs m" "updateHeap m = map R xs" "\<forall>x \<in> set xs. p < x" "{..<p} \<union> set xs = {..<n}"
    using assms by (auto simp: caught_up_def)
  have "xs = []"
  proof (rule ccontr)
    assume "xs \<noteq> []"
    then have "hd xs \<in> {..<n}" "p < hd xs" using p(3,4) hd_in_set by blast+
    then have "p \<in> {..<n}" by simp
    then have "p \<in> {..<p} \<union> set xs" using p(4) by simp
    then show False using p(3) by auto
  qed
  moreover then have "p = n" using p(4) by (simp add: lessThan_eq_iff)
  ultimately show ?thesis using p(1,2) by (simp add: progress_def)
qed

end
