(* ===== verification/Store.thy ===== *)
theory Store
  imports Merkle_Database Monitor
begin

text \<open>
  \<^verbatim>\<open>bucket/store.go\<close>: one bucket, a key-value store of sibling sets over a storage driver with a Merkle tree of
  its contents. The driver is a parameter; its state, the tree, the watchers and the row counter are the state of
  the store. Each operation is atomic: the per-key and per-leaf locks of \<^verbatim>\<open>util/multilock.go\<close> make
  operations on the same keys or leaves exclusive. The clock is a parameter. An operation yields
  an error or a value and the new state; \<open>None\<close> is a panic.

  Keys of the database start with a byte that says what they are: \<open>0\<close> a Merkle leaf hash, \<open>1\<close> an entry of the
  index from leaves to keys, \<open>2\<close> a row.
\<close>

section \<open>Errors and locks\<close>

text \<open>\<open>EDriver\<close> is an error of the storage driver that is handed on as it is.\<close>

datatype db_error = EEmpty | ELength | EStorage | EOperationLocked | EMerkleRange | EInvalidKey | EInvalidLeaf | EDriver

record rw_try_lock =
  writeLocked :: bool
  readers :: nat

definition TryRLock :: "rw_try_lock \<Rightarrow> bool \<times> rw_try_lock" where
  "TryRLock lk = (if writeLocked lk then (False, lk) else (True, lk\<lparr>readers := readers lk + 1\<rparr>))"

definition RUnlock :: "rw_try_lock \<Rightarrow> rw_try_lock" where
  "RUnlock lk = lk\<lparr>readers := readers lk - 1\<rparr>"

text \<open>\<^verbatim>\<open>WLock\<close> turns readers away at once and waits for those that are in; \<open>None\<close> is waiting.\<close>

definition WLock_announce :: "rw_try_lock \<Rightarrow> rw_try_lock" where
  "WLock_announce lk = lk\<lparr>writeLocked := True\<rparr>"

definition WLock :: "rw_try_lock \<Rightarrow> rw_try_lock option" where
  "WLock lk = (if readers (WLock_announce lk) = 0 then Some ((WLock_announce lk)\<lparr>writeLocked := True\<rparr>) else None)"

definition WUnlock :: "rw_try_lock \<Rightarrow> rw_try_lock" where
  "WUnlock lk = lk\<lparr>writeLocked := False\<rparr>"

section \<open>Keys\<close>

definition MAX_SORTING_KEY_LENGTH :: nat where "MAX_SORTING_KEY_LENGTH = 255"
definition StorageFormatVersion :: string where "StorageFormatVersion = ''1''"
definition UpgradeFormatBatchSize :: nat where "UpgradeFormatBatchSize = 100"

definition MASTER_MERKLE_TREE_PREFIX :: bytes where "MASTER_MERKLE_TREE_PREFIX = [0]"
definition PARTITION_MERKLE_LEAF_PREFIX :: bytes where "PARTITION_MERKLE_LEAF_PREFIX = [1]"
definition PARTITION_DATA_PREFIX :: bytes where "PARTITION_DATA_PREFIX = [2]"
definition NODE_METADATA_PREFIX :: bytes where "NODE_METADATA_PREFIX = [3]"

lemmas prefix_defs = MASTER_MERKLE_TREE_PREFIX_def PARTITION_MERKLE_LEAF_PREFIX_def PARTITION_DATA_PREFIX_def
  NODE_METADATA_PREFIX_def

definition NanoToMilli :: "u64 \<Rightarrow> u64" where
  "NanoToMilli v = v div 1000000"

definition nodeBytes :: "u32 \<Rightarrow> bytes" where
  "nodeBytes node = put_be 4 node"

definition encodeMerkleLeafKey :: "u32 \<Rightarrow> bytes" where
  "encodeMerkleLeafKey nodeID = MASTER_MERKLE_TREE_PREFIX @ nodeBytes nodeID"

definition decodeMerkleLeafKey :: "bytes \<Rightarrow> (db_error + u32) option" where
  "decodeMerkleLeafKey k =
     (if length k < length MASTER_MERKLE_TREE_PREFIX then None
      else (let k = drop (length MASTER_MERKLE_TREE_PREFIX) k in
            Some (if length k \<noteq> 4 then Inl EInvalidKey else Inr (get_be (take 4 k)))))"

definition encodePartitionDataKey :: "bytes \<Rightarrow> bytes" where
  "encodePartitionDataKey k = PARTITION_DATA_PREFIX @ k"

text \<open>Every caller passes a key with a prefix; slicing an empty key would panic.\<close>

definition decodePartitionDataKey :: "bytes \<Rightarrow> bytes" where
  "decodePartitionDataKey k = drop (length PARTITION_DATA_PREFIX) k"

definition encodePartitionMerkleLeafKey :: "u32 \<Rightarrow> bytes \<Rightarrow> bytes" where
  "encodePartitionMerkleLeafKey nodeID k = PARTITION_MERKLE_LEAF_PREFIX @ nodeBytes nodeID @ k"

definition decodePartitionMerkleLeafKey :: "bytes \<Rightarrow> db_error + (u32 \<times> bytes)" where
  "decodePartitionMerkleLeafKey k =
     (if length k < length PARTITION_MERKLE_LEAF_PREFIX + 5 then Inl EInvalidKey
      else (let k = drop (length PARTITION_MERKLE_LEAF_PREFIX) k in Inr (get_be (take 4 k), drop 4 k)))"

text \<open>The metadata keys get the prefix of the leaf index.\<close>

definition encodeMetadataKey :: "bytes \<Rightarrow> bytes" where
  "encodeMetadataKey k = PARTITION_MERKLE_LEAF_PREFIX @ k"

section \<open>State\<close>

record 's store =
  nextRowID :: u64
  st_nodeID :: string
  storageDriver :: 's
  merkleTree :: merkle_tree
  conflictResolver :: conflict_resolver
  storageFormatVersion :: string
  st_monitor :: monitor
  writesTryLock :: rw_try_lock
  readsTryLock :: rw_try_lock
  st_alloc :: nat

type_synonym 's kv = "('s, stored) driver"

definition LockWrites :: "'s store \<Rightarrow> 's store option" where
  "LockWrites st = map_option (\<lambda>lk. st\<lparr>writesTryLock := lk\<rparr>) (WLock (writesTryLock st))"

definition UnlockWrites :: "'s store \<Rightarrow> 's store" where
  "UnlockWrites st = st\<lparr>writesTryLock := WUnlock (writesTryLock st)\<rparr>"

definition LockReads :: "'s store \<Rightarrow> 's store option" where
  "LockReads st = map_option (\<lambda>lk. st\<lparr>readsTryLock := lk\<rparr>) (WLock (readsTryLock st))"

definition UnlockReads :: "'s store \<Rightarrow> 's store" where
  "UnlockReads st = st\<lparr>readsTryLock := WUnlock (readsTryLock st)\<rparr>"

text \<open>
  The locks of an operation: its keys and the leaves they belong to, each in sorted order. \<^verbatim>\<open>updateInit\<close> prefixes the
  key slice it is given, so the unlocking of a write strips the prefix again.
\<close>

definition sortedLockKeys :: "'s store \<Rightarrow> bytes list \<Rightarrow> string list \<times> string list" where
  "sortedLockKeys st keys =
     (sort (map string_of_bytes keys),
      sort (remdups (map (\<lambda>key. string_of_bytes (nodeBytes (Tree_LeafNode (merkleTree st) key))) keys)))"

definition lock :: "'s store \<Rightarrow> bytes list \<Rightarrow> string list \<times> string list" where
  "lock st keys = sortedLockKeys st keys"

definition unlock :: "'s store \<Rightarrow> bytes list \<Rightarrow> bool \<Rightarrow> string list \<times> string list" where
  "unlock st keys keysArePrefixed =
     sortedLockKeys st (map (\<lambda>key. if keysArePrefixed then drop 1 key else key) keys)"

section \<open>Reads\<close>

fun check_keys :: "bytes list \<Rightarrow> db_error option" where
  "check_keys [] = None"
| "check_keys (key # keys) =
     (if length key = 0 then Some EEmpty
      else if length key > MAX_SORTING_KEY_LENGTH then Some ELength
      else check_keys keys)"

fun decode_values :: "string \<Rightarrow> nat \<Rightarrow> stored option list \<Rightarrow> (sibling_set option list \<times> nat) option" where
  "decode_values fmt al [] = Some ([], al)"
| "decode_values fmt al (v # vs) =
     (case v of
        None \<Rightarrow> map_option (\<lambda>(xs, al). (None # xs, al)) (decode_values fmt al vs)
      | Some v \<Rightarrow>
          Option.bind (Row_Decode al v fmt) (\<lambda>(r, al).
            map_option (\<lambda>(xs, al). (Siblings r # xs, al)) (decode_values fmt al vs)))"

definition Store_Get :: "'s kv \<Rightarrow> bytes list \<Rightarrow> 's store \<Rightarrow> (db_error + sibling_set option list) \<times> 's store" where
  "Store_Get D keys st =
     (if \<not> fst (TryRLock (readsTryLock st)) then (Inl EOperationLocked, st)
      else if length keys = 0 then (Inl EEmpty, st)
      else
        (case check_keys keys of
           Some e \<Rightarrow> (Inl e, st)
         | None \<Rightarrow>
             (case drv_Get D (storageDriver st) (map encodePartitionDataKey keys) of
                None \<Rightarrow> (Inl EStorage, st)
              | Some values \<Rightarrow>
                  (case decode_values (storageFormatVersion st) (st_alloc st) values of
                     None \<Rightarrow> (Inl EStorage, st)
                   | Some (xs, al) \<Rightarrow> (Inr xs, st\<lparr>st_alloc := al\<rparr>)))))"

text \<open>
  The sibling set iterators, as the entries they produce: prefix, key, value and local version, whether they
  end with an error, and the addresses used.
\<close>

record entry =
  en_Prefix :: bytes
  en_Key :: bytes
  en_Value :: "sibling_set option"
  en_LocalVersion :: u64

type_synonym entries = "entry list \<times> bool \<times> nat"

fun basic_entries :: "string \<Rightarrow> nat \<Rightarrow> stored items \<Rightarrow> bool \<Rightarrow> entries" where
  "basic_entries fmt al [] err = ([], err, al)"
| "basic_entries fmt al ((p, k, v) # its) err =
     (case Row_Decode al v fmt of
        None \<Rightarrow> ([], True, al)
      | Some (r, al) \<Rightarrow>
          (let (es, err, al) = basic_entries fmt al its err
           in (\<lparr>en_Prefix = decodePartitionDataKey p, en_Key = decodePartitionDataKey k, en_Value = Siblings r,
                en_LocalVersion = LocalVersion r\<rparr> # es, err, al)))"

definition NewBasicSiblingSetIterator :: "stored iterator \<Rightarrow> string \<Rightarrow> nat \<Rightarrow> entries" where
  "NewBasicSiblingSetIterator it fmt al = basic_entries fmt al (fst it) (snd it)"

definition Store_GetMatches :: "'s kv \<Rightarrow> bytes list \<Rightarrow> 's store \<Rightarrow> db_error + entries" where
  "Store_GetMatches D keys st =
     (if \<not> fst (TryRLock (readsTryLock st)) then Inl EOperationLocked
      else if length keys = 0 then Inl EEmpty
      else
        (case check_keys keys of
           Some e \<Rightarrow> Inl e
         | None \<Rightarrow>
             (case drv_GetMatches D (storageDriver st) (map encodePartitionDataKey keys) of
                None \<Rightarrow> Inl EStorage
              | Some it \<Rightarrow> Inr (NewBasicSiblingSetIterator it (storageFormatVersion st) (st_alloc st)))))"

definition GetAll :: "'s kv \<Rightarrow> 's store \<Rightarrow> db_error + entries" where
  "GetAll D st =
     (if \<not> fst (TryRLock (readsTryLock st)) then Inl EOperationLocked
      else
        (case drv_GetMatches D (storageDriver st) [encodePartitionDataKey []] of
           None \<Rightarrow> Inl EStorage
         | Some it \<Rightarrow> Inr (NewBasicSiblingSetIterator it (storageFormatVersion st) (st_alloc st))))"

text \<open>
  The iterator over a Merkle range looks up each indexed key. A bad index key and a driver error end it
  without being recorded; a value that does not decode, a missing one included, is an error.
\<close>

fun children_entries :: "'s kv \<Rightarrow> 's \<Rightarrow> string \<Rightarrow> nat \<Rightarrow> stored items \<Rightarrow> bool \<Rightarrow> entries" where
  "children_entries D s fmt al [] err = ([], err, al)"
| "children_entries D s fmt al ((p, k, v) # its) err =
     (case decodePartitionMerkleLeafKey k of
        Inl e \<Rightarrow> ([], False, al)
      | Inr (n, key) \<Rightarrow>
          (case drv_Get D s [encodePartitionDataKey key] of
             None \<Rightarrow> ([], False, al)
           | Some values \<Rightarrow>
               (case Option.bind (values ! 0) (\<lambda>v. Row_Decode al v fmt) of
                  None \<Rightarrow> ([], True, al)
                | Some (r, al) \<Rightarrow>
                    (let (es, err, al) = children_entries D s fmt al its err
                     in (\<lparr>en_Prefix = [], en_Key = key, en_Value = Siblings r, en_LocalVersion = LocalVersion r\<rparr> # es, err, al)))))"

definition GetSyncChildren :: "'s kv \<Rightarrow> u32 \<Rightarrow> 's store \<Rightarrow> db_error + entries" where
  "GetSyncChildren D nodeID st =
     (if \<not> fst (TryRLock (readsTryLock st)) then Inl EOperationLocked
      else if nodeID \<ge> NodeLimit (merkleTree st) then Inl EMerkleRange
      else
        (case drv_GetRange D (storageDriver st)
                (encodePartitionMerkleLeafKey (SubRangeMin nodeID) []) (encodePartitionMerkleLeafKey (SubRangeMax nodeID) []) of
           None \<Rightarrow> Inl EStorage
         | Some it \<Rightarrow>
             Inr (children_entries D (storageDriver st) (storageFormatVersion st) (st_alloc st) (fst it) (snd it))))"

end
