(* ===== verification/Store_Writes.thy ===== *)
theory Store_Writes
  imports Store
begin

text \<open>
  The writes of \<^verbatim>\<open>bucket/store.go\<close>: client batches, merges of replicated sibling sets, forgetting, garbage
  collection and watches. Each takes a read lock of \<^verbatim>\<open>writesTryLock\<close> where the code does and releases it at the
  end, so only its being refused shows. The clock is the reading, in nanoseconds, it gives for a key.
\<close>

type_synonym sibling_map = "(string \<times> sibling_set option) list"

text \<open>Reading a Go map of pointers: an absent key reads as nil.\<close>

definition map_read :: "sibling_map \<Rightarrow> string \<Rightarrow> sibling_set option" where
  "map_read m key = (case map_of m key of None \<Rightarrow> None | Some ss \<Rightarrow> ss)"

section \<open>Update batches\<close>

record update_batch =
  RawBatch :: "bytes batch"
  Contexts :: "(bytes \<times> dvv) list"

definition NewUpdateBatch :: update_batch where
  "NewUpdateBatch = \<lparr>RawBatch = NewBatch, Contexts = []\<rparr>"

definition UpdateBatch_Put :: "bytes \<Rightarrow> bytes option \<Rightarrow> dvv option \<Rightarrow> update_batch \<Rightarrow> db_error + update_batch" where
  "UpdateBatch_Put key val context ub =
     (if length key = 0 then Inl EEmpty
      else if length key > MAX_SORTING_KEY_LENGTH then Inl ELength
      else
        (case context of
           None \<Rightarrow> Inl EEmpty
         | Some c \<Rightarrow>
             (let val = (case val of None \<Rightarrow> [] | Some v \<Rightarrow> v) in
              Inr (ub\<lparr>RawBatch := Batch_Put key val (RawBatch ub), Contexts := AList.update key c (Contexts ub)\<rparr>))))"

definition UpdateBatch_Delete :: "bytes \<Rightarrow> dvv option \<Rightarrow> update_batch \<Rightarrow> db_error + update_batch" where
  "UpdateBatch_Delete key context ub =
     (if length key = 0 then Inl EEmpty
      else if length key > MAX_SORTING_KEY_LENGTH then Inl ELength
      else
        (case context of
           None \<Rightarrow> Inl EEmpty
         | Some c \<Rightarrow>
             Inr (ub\<lparr>RawBatch := Batch_Delete key (RawBatch ub), Contexts := AList.update key c (Contexts ub)\<rparr>)))"

text \<open>
  \<^verbatim>\<open>FromJSON\<close> on the batch the JSON text denotes: its operations are added again one by one, so that they are
  checked, with an empty context where none is given.
\<close>

fun from_json_loop :: "(bytes \<times> dvv) list \<Rightarrow> (bytes \<times> bytes op) list \<Rightarrow> update_batch \<Rightarrow> db_error + update_batch" where
  "from_json_loop contexts [] ub = Inr ub"
| "from_json_loop contexts ((k, o') # ops) ub =
     (let context = (case map_of contexts k of None \<Rightarrow> NewDVV (NewDot '''' 0) [] | Some c \<Rightarrow> c) in
      case (if IsDelete o' then UpdateBatch_Delete (Op_Key o') (Some context) ub
            else UpdateBatch_Put (Op_Key o') (Op_Value o') (Some context) ub) of
        Inl e \<Rightarrow> Inl e
      | Inr ub \<Rightarrow> from_json_loop contexts ops ub)"

definition FromJSON :: "update_batch \<Rightarrow> db_error + update_batch" where
  "FromJSON tempUpdateBatch = from_json_loop (Contexts tempUpdateBatch) (Ops (RawBatch tempUpdateBatch)) NewUpdateBatch"

section \<open>The current sibling sets of the keys of a write\<close>

text \<open>\<open>updateInit\<close> also overwrites the keys it is given with the prefixed ones, which is its first result.\<close>

fun init_map :: "string \<Rightarrow> nat \<Rightarrow> bytes list \<Rightarrow> stored option list \<Rightarrow> sibling_map \<Rightarrow> (sibling_map \<times> nat) option" where
  "init_map fmt al (key # keys) (v # vs) m =
     (let k = string_of_bytes (decodePartitionDataKey key) in
      case v of
        None \<Rightarrow> init_map fmt al keys vs (AList.update k (Some (NewSiblingSet [])) m)
      | Some v \<Rightarrow>
          Option.bind (Row_Decode al v fmt) (\<lambda>(r, al). init_map fmt al keys vs (AList.update k (Siblings r) m)))"
| "init_map fmt al _ _ m = Some (m, al)"

definition updateInit :: "'s kv \<Rightarrow> bytes list \<Rightarrow> 's store \<Rightarrow> bytes list \<times> (db_error + sibling_map \<times> nat)" where
  "updateInit D keys st =
     (let keys = map encodePartitionDataKey keys in
      (keys,
       case drv_Get D (storageDriver st) keys of
         None \<Rightarrow> Inl EStorage
       | Some values \<Rightarrow>
           (case init_map (storageFormatVersion st) (st_alloc st) keys values [] of
              None \<Rightarrow> Inl EStorage
            | Some r \<Rightarrow> Inr r)))"

section \<open>From an update to a storage batch\<close>

text \<open>
  The leaves of the object-hash map of \<open>Tree_Update\<close> and the keys filed under a leaf, in the order of the update.
\<close>

definition leaf_ids :: "object_hashes \<Rightarrow> merkle_tree \<Rightarrow> update \<Rightarrow> u32 list" where
  "leaf_ids leafNodes tree u =
     filter (\<lambda>leafID. leafNodes leafID \<noteq> None) (remdups (map (\<lambda>df. Tree_LeafNode tree (bytes_of_string (Key df))) (Update_Iter u)))"

definition leaf_keys :: "object_hashes \<Rightarrow> u32 \<Rightarrow> update \<Rightarrow> string list" where
  "leaf_keys leafNodes leafID u = filter (\<lambda>key. lookup_hash leafNodes leafID key \<noteq> None) (map Key (Update_Iter u))"

definition index_ops :: "u32 \<Rightarrow> string list \<Rightarrow> stored batch \<Rightarrow> stored batch" where
  "index_ops leafID keys b =
     foldl (\<lambda>b key. Batch_Put (encodePartitionMerkleLeafKey leafID (bytes_of_string key)) (StoredBytes []) b) b keys"

definition leaf_ops :: "merkle_tree \<Rightarrow> object_hashes \<Rightarrow> update \<Rightarrow> stored batch" where
  "leaf_ops tree leafNodes u =
     foldl (\<lambda>b leafID.
         index_ops leafID (leaf_keys leafNodes leafID u)
           (Batch_Put (encodeMerkleLeafKey leafID) (StoredBytes (Hash_Bytes (NodeHash tree leafID))) b))
       NewBatch (leaf_ids leafNodes tree u)"

fun row_ops :: "diff list \<Rightarrow> u64 \<Rightarrow> stored batch \<Rightarrow> stored batch \<times> row list" where
  "row_ops [] next b = (b, [])"
| "row_ops (df # dfs) next b =
     (let r = \<lparr>row_Key = Key df, LocalVersion = next, Siblings = NewSiblingSet_of df\<rparr>;
          (b, rows) = row_ops dfs (next + 1)
                        (Batch_Put (encodePartitionDataKey (bytes_of_string (Key df))) (Row_Encode r) b)
      in (b, r # rows))"

definition Store_batch :: "update \<Rightarrow> 's store \<Rightarrow> (stored batch \<times> row list \<times> 's store) option" where
  "Store_batch u st =
     map_option (\<lambda>(_, leafNodes, tree).
        let nextRowID' = nextRowID st + of_nat (Update_Size u);
            (b, updatedRows) = row_ops (Update_Iter u) (nextRowID' - of_nat (Update_Size u)) (leaf_ops tree leafNodes u)
        in (b, updatedRows, st\<lparr>merkleTree := tree, nextRowID := nextRowID'\<rparr>))
     (Tree_Update (merkleTree st) u)"

definition notifyWatchers :: "row list \<Rightarrow> 's store \<Rightarrow> 's store" where
  "notifyWatchers updatedRows st = st\<lparr>st_monitor := fold Notify updatedRows (st_monitor st)\<rparr>"

definition discardIDRange :: "row list \<Rightarrow> 's store \<Rightarrow> 's store" where
  "discardIDRange updatedRows st =
     (if updatedRows = [] then st
      else st\<lparr>st_monitor := DiscardIDRange (LocalVersion (hd updatedRows)) (LocalVersion (last updatedRows)) (st_monitor st)\<rparr>)"

text \<open>The part \<^verbatim>\<open>Batch\<close> and \<^verbatim>\<open>Merge\<close> share: write the update, and take it back when the driver fails.\<close>

definition write_update :: "'s kv \<Rightarrow> update \<Rightarrow> 's store \<Rightarrow> (db_error option \<times> 's store) option" where
  "write_update D u st =
     Option.bind (Store_batch u st) (\<lambda>(storageBatch, updatedRows, st).
       let (ok, s) = drv_Batch D (storageDriver st) storageBatch;
           st = st\<lparr>storageDriver := s\<rparr>
       in if ok then Some (None, notifyWatchers updatedRows st)
          else map_option (\<lambda>tree. (Some EStorage, (discardIDRange updatedRows st)\<lparr>merkleTree := tree\<rparr>))
                 (UndoUpdate (merkleTree (discardIDRange updatedRows st)) u))"

section \<open>Client writes\<close>

definition updateToSibling :: "u64 \<Rightarrow> bytes op \<Rightarrow> dvv \<Rightarrow> sibling option \<Rightarrow> sibling" where
  "updateToSibling now o' c oldestTombstone =
     (if IsDelete o' then
        (case oldestTombstone of
           None \<Rightarrow> NewSibling c None (NanoToMilli now)
         | Some t \<Rightarrow> NewSibling c None (Timestamp t))
      else NewSibling c (Op_Value o') (NanoToMilli now))"

fun batch_loop ::
  "conflict_resolver \<Rightarrow> string \<Rightarrow> (bytes \<Rightarrow> u64) \<Rightarrow> (bytes \<times> dvv) list \<Rightarrow> (bytes \<times> bytes op) list \<Rightarrow>
   sibling_map \<times> update \<times> nat \<Rightarrow> (sibling_map \<times> update \<times> nat) option" where
  "batch_loop resolver nodeID now contexts [] st = Some st"
| "batch_loop resolver nodeID now contexts ((key, o') # ops) (siblingSets, u, al) =
     (let k = string_of_bytes key in
      case map_read siblingSets k of
        None \<Rightarrow> None
      | Some siblingSet \<Rightarrow>
          if Size siblingSet = 0 \<and> IsDelete o' then
            batch_loop resolver nodeID now contexts ops (AList.delete k siblingSets, u, al)
          else
            (case map_of contexts key of
               None \<Rightarrow> None
             | Some context \<Rightarrow>
                 (let updateContext = (if length (Context context) = 0 then Join siblingSet else Context context);
                      updateClock = Event siblingSet updateContext nodeID;
                      newSibling =
                        (if IsTombstoneSet siblingSet
                         then updateToSibling (now key) o' updateClock (map_option snd (GetOldestTombstone siblingSet))
                         else updateToSibling (now key) o' updateClock None);
                      updatedSiblingSet = Sync (Discard siblingSet updateClock) (NewSiblingSet [(al, newSibling)]);
                      siblingSets = AList.update k (Some updatedSiblingSet) siblingSets;
                      updatedSiblingSet = ResolveConflicts resolver updatedSiblingSet;
                      u = AddDiff u k (Some siblingSet) (Some updatedSiblingSet)
                  in batch_loop resolver nodeID now contexts ops (siblingSets, u, Suc al))))"

definition Store_Batch ::
  "'s kv \<Rightarrow> (bytes \<Rightarrow> u64) \<Rightarrow> update_batch option \<Rightarrow> 's store \<Rightarrow> ((db_error + sibling_map) \<times> 's store) option" where
  "Store_Batch D now b st =
     (if \<not> fst (TryRLock (writesTryLock st)) then Some (Inl EOperationLocked, st)
      else
        (case b of
           None \<Rightarrow> Some (Inl EEmpty, st)
         | Some b \<Rightarrow>
             (let keys = map fst (Ops (RawBatch b)) in
              case snd (updateInit D keys st) of
                Inl e \<Rightarrow> Some (Inl e, st)
              | Inr (siblingSets, al) \<Rightarrow>
                  Option.bind (batch_loop (conflictResolver st) (st_nodeID st) now (Contexts b) (Ops (RawBatch b)) (siblingSets, NewUpdate, al))
                    (\<lambda>(siblingSets, u, al).
                       map_option (\<lambda>(err, st). (case err of Some e \<Rightarrow> Inl e | None \<Rightarrow> Inr siblingSets, st))
                         (write_update D u (st\<lparr>st_alloc := al\<rparr>))))))"

section \<open>Replicated writes\<close>

fun merge_changes ::
  "conflict_resolver \<Rightarrow> string \<Rightarrow> sibling_set \<Rightarrow> sibling_ptr list \<Rightarrow> sibling_set \<times> update \<Rightarrow> sibling_set \<times> update" where
  "merge_changes resolver key mySiblingSet [] st = st"
| "merge_changes resolver key mySiblingSet (p # ps) (updatedSiblingSet, u) =
     merge_changes resolver key mySiblingSet ps
       (if \<not> Has mySiblingSet p then
          (let updatedSiblingSet = ResolveConflicts resolver updatedSiblingSet
           in (updatedSiblingSet, AddDiff u key (Some mySiblingSet) (Some updatedSiblingSet)))
        else (updatedSiblingSet, u))"

fun merge_loop ::
  "conflict_resolver \<Rightarrow> string \<Rightarrow> sibling_map \<Rightarrow> sibling_map \<Rightarrow> bytes list \<Rightarrow> update \<times> nat \<Rightarrow> update \<times> nat" where
  "merge_loop resolver nodeID siblingSets mySiblingSets [] st = st"
| "merge_loop resolver nodeID siblingSets mySiblingSets (key # keys) (u, al) =
     (let k = string_of_bytes (decodePartitionDataKey key) in
      merge_loop resolver nodeID siblingSets mySiblingSets keys
        (case map_read siblingSets k of
           None \<Rightarrow> (u, al)
         | Some siblingSet \<Rightarrow>
             (let mySiblingSet = (case map_read mySiblingSets k of None \<Rightarrow> NewSiblingSet [] | Some ss \<Rightarrow> ss);
                  (updatedSiblingSet, al) = MergeSync al mySiblingSet siblingSet nodeID
              in (snd (merge_changes resolver k mySiblingSet updatedSiblingSet (updatedSiblingSet, u)), al))))"

definition Store_Merge :: "'s kv \<Rightarrow> sibling_map option \<Rightarrow> 's store \<Rightarrow> (db_error option \<times> 's store) option" where
  "Store_Merge D siblingSets st =
     (if \<not> fst (TryRLock (writesTryLock st)) then Some (Some EOperationLocked, st)
      else
        (case siblingSets of
           None \<Rightarrow> Some (Some EEmpty, st)
         | Some siblingSets \<Rightarrow>
             (let (keys, r) = updateInit D (map (\<lambda>(key, _). bytes_of_string key) siblingSets) st in
              case r of
                Inl e \<Rightarrow> Some (Some e, st)
              | Inr (mySiblingSets, al) \<Rightarrow>
                  (let (u, al) = merge_loop (conflictResolver st) (st_nodeID st) siblingSets mySiblingSets keys (NewUpdate, al);
                       st = st\<lparr>st_alloc := al\<rparr>
                   in if Update_Size u \<noteq> 0 then write_update D u st else Some (None, st)))))"

end
