(* ===== verification/Store_Maintenance.thy ===== *)
theory Store_Maintenance
  imports Store_Writes
begin

text \<open>
  The rest of \<^verbatim>\<open>bucket/store.go\<close>: forgetting keys, garbage collection, watches, and what \<^verbatim>\<open>Initialize\<close> does when
  a store is opened: reading its metadata, rebuilding the Merkle leaves, upgrading the storage format, restoring
  the row counter and the tree. Loops over an iterator run over the entries the iterator gives, which LevelDB
  reads from a snapshot; a write of the loop does not change them.
\<close>

section \<open>Forgetting and garbage collection\<close>

text \<open>The tree is updated before the write to the driver, and stays so when that fails.\<close>

fun Forget :: "'s kv \<Rightarrow> bytes option list \<Rightarrow> 's store \<Rightarrow> (db_error option \<times> 's store) option" where
  "Forget D [] st = Some (None, st)"
| "Forget D (None # keys) st = Forget D keys st"
| "Forget D (Some key # keys) st =
     (case Store_Get D [key] st of
        (Inl e, st) \<Rightarrow> Some (Some EStorage, st)
      | (Inr siblingSets, st) \<Rightarrow>
          (case siblingSets ! 0 of
             None \<Rightarrow> Forget D keys st
           | Some siblingSet \<Rightarrow>
               (let leafID = Tree_LeafNode (merkleTree st) key;
                    newLeafHash = Xor (NodeHash (merkleTree st) leafID) (SiblingSet_Hash (Some siblingSet) key)
                in case UpdateLeafHash (merkleTree st) leafID newLeafHash of
                     None \<Rightarrow> None
                   | Some tree \<Rightarrow>
                       (let b = Batch_Put (encodeMerkleLeafKey leafID) (StoredBytes (Hash_Bytes newLeafHash))
                                  (Batch_Delete (encodePartitionDataKey key)
                                    (Batch_Delete (encodePartitionMerkleLeafKey leafID key) NewBatch));
                            (ok, s) = drv_Batch D (storageDriver st) b;
                            st = st\<lparr>merkleTree := tree, storageDriver := s\<rparr>
                        in if ok then Forget D keys st else Some (Some EStorage, st)))))"

text \<open>
  The purge of one key under its lock. Its errors are assigned to a variable that shadows the one the caller
  tests, so they have no effect.
\<close>

definition purge_key :: "'s kv \<Rightarrow> u64 \<Rightarrow> bytes \<Rightarrow> 's store \<Rightarrow> 's store" where
  "purge_key D cutoff key st =
     (case Store_Get D [key] st of
        (Inl e, st) \<Rightarrow> st
      | (Inr siblingSets, st) \<Rightarrow>
          (case siblingSets ! 0 of
             None \<Rightarrow> st
           | Some siblingSet \<Rightarrow>
               if \<not> CanPurge siblingSet cutoff then st
               else
                 (let leafID = Tree_LeafNode (merkleTree st) key;
                      b = Batch_Delete (encodePartitionDataKey key) (Batch_Delete (encodePartitionMerkleLeafKey leafID key) NewBatch)
                  in st\<lparr>storageDriver := snd (drv_Batch D (storageDriver st) b)\<rparr>)))"

fun collect_loop :: "'s kv \<Rightarrow> u64 \<Rightarrow> entry list \<Rightarrow> 's store \<Rightarrow> 's store option" where
  "collect_loop D cutoff [] st = Some st"
| "collect_loop D cutoff (e # es) st =
     (case en_Value e of
        None \<Rightarrow> None
      | Some ssInitial \<Rightarrow>
          if \<not> CanPurge ssInitial cutoff then collect_loop D cutoff es st
          else collect_loop D cutoff es (purge_key D cutoff (en_Key e) st))"

text \<open>An entry that does not decode ends the loop; the driver's iterator, which the code asks, has no error then.\<close>

definition GarbageCollect :: "'s kv \<Rightarrow> u64 \<Rightarrow> u64 \<Rightarrow> 's store \<Rightarrow> (db_error option \<times> 's store) option" where
  "GarbageCollect D nanos tombstonePurgeAge st =
     (case drv_GetMatches D (storageDriver st) [PARTITION_DATA_PREFIX] of
        None \<Rightarrow> Some (Some EStorage, st)
      | Some (its, driver_error) \<Rightarrow>
          (let now = NanoToMilli nanos;
               (es, undecodable, al) = NewBasicSiblingSetIterator (its, False) (storageFormatVersion st) (st_alloc st);
               tombstonePurgeAge = (if tombstonePurgeAge > now then now else tombstonePurgeAge)
           in map_option (\<lambda>st. (if driver_error \<and> \<not> undecodable then Some EStorage else None, st))
                (collect_loop D (now - tombstonePurgeAge) es (st\<lparr>st_alloc := al\<rparr>))))"

section \<open>Watches\<close>

text \<open>
  What \<^verbatim>\<open>addWatcher\<close> sends before it registers the listener: the rows of the keys, then those under the prefixes,
  newer than the version the watcher has, then an empty row. The first result is the error; the channel is closed
  with it.
\<close>

fun watched_rows :: "string \<Rightarrow> u64 \<Rightarrow> nat \<Rightarrow> stored option list \<Rightarrow> row list \<times> bool \<times> nat" where
  "watched_rows fmt localVersion al [] = ([], True, al)"
| "watched_rows fmt localVersion al (None # vs) = watched_rows fmt localVersion al vs"
| "watched_rows fmt localVersion al (Some v # vs) =
     (case Row_Decode al v fmt of
        None \<Rightarrow> ([], False, al)
      | Some (r, al) \<Rightarrow>
          (let (rows, ok, al) = watched_rows fmt localVersion al vs
           in (if LocalVersion r > localVersion then r # rows else rows, ok, al)))"

definition entry_rows :: "u64 \<Rightarrow> entry list \<Rightarrow> row list" where
  "entry_rows localVersion es =
     map (\<lambda>e. \<lparr>row_Key = string_of_bytes (en_Key e), LocalVersion = en_LocalVersion e, Siblings = en_Value e\<rparr>)
       (filter (\<lambda>e. \<not> en_LocalVersion e \<le> localVersion) es)"

definition empty_row :: row where
  "empty_row = \<lparr>row_Key = '''', LocalVersion = 0, Siblings = None\<rparr>"

definition addWatcher ::
  "'s kv \<Rightarrow> bytes list \<Rightarrow> bytes list \<Rightarrow> u64 \<Rightarrow> row list \<Rightarrow> 's store \<Rightarrow> ((db_error option \<times> row list) \<times> 's store) option" where
  "addWatcher D keys pres localVersion ch st =
     (case drv_Get D (storageDriver st) (map encodePartitionDataKey keys) of
        None \<Rightarrow> Some ((Some EStorage, ch), st)
      | Some values \<Rightarrow>
          (let (rows, ok, al) = watched_rows (storageFormatVersion st) localVersion (st_alloc st) values;
               ch = ch @ rows;
               st = st\<lparr>st_alloc := al\<rparr>
           in if \<not> ok then Some ((Some EStorage, ch), st)
              else
                (case drv_GetMatches D (storageDriver st) (map encodePartitionDataKey pres) of
                   None \<Rightarrow> Some ((Some EStorage, ch), st)
                 | Some it \<Rightarrow>
                     (let (es, err, al) = NewBasicSiblingSetIterator it (storageFormatVersion st) (st_alloc st);
                          ch = ch @ entry_rows localVersion es;
                          st = st\<lparr>st_alloc := al\<rparr>
                      in if err then None
                         else
                           (let ch = ch @ [empty_row]
                            in Some ((None, ch), st\<lparr>st_monitor := AddListener keys pres ch (st_monitor st)\<rparr>))))))"

section \<open>Opening a store\<close>

text \<open>A metadata value is a byte string; \<open>None\<close> is the panic of reading the first byte of an empty one.\<close>

definition getStoreMetadata :: "'s kv \<Rightarrow> 's store \<Rightarrow> (db_error + u8 \<times> string) option" where
  "getStoreMetadata D st =
     (case drv_Get D (storageDriver st)
             [encodeMetadataKey (bytes_of_string ''merkleDepth''), encodeMetadataKey (bytes_of_string ''storageFormatVersion'')] of
        None \<Rightarrow> Some (Inl EDriver)
      | Some values \<Rightarrow>
          Option.bind (case values ! 0 of None \<Rightarrow> Some 0 | Some (StoredBytes (b # bs)) \<Rightarrow> Some b | _ \<Rightarrow> None) (\<lambda>merkleDepth.
          Option.bind (case values ! 1 of None \<Rightarrow> Some ''0'' | Some (StoredBytes bs) \<Rightarrow> Some (string_of_bytes bs) | _ \<Rightarrow> None)
            (\<lambda>storageFormatVersion. Some (Inr (merkleDepth, storageFormatVersion)))))"

definition RecordMetadata :: "'s kv \<Rightarrow> 's store \<Rightarrow> db_error option \<times> 's store" where
  "RecordMetadata D st =
     (let b = Batch_Put (encodeMetadataKey (bytes_of_string ''storageFormatVersion'')) (StoredBytes (bytes_of_string StorageFormatVersion))
                (Batch_Put (encodeMetadataKey (bytes_of_string ''merkleDepth'')) (StoredBytes [Depth (merkleTree st)]) NewBatch);
          (ok, s) = drv_Batch D (storageDriver st) b
      in (if ok then None else Some EDriver, st\<lparr>storageDriver := s\<rparr>))"

text \<open>Batches written one after the other, up to the first that fails.\<close>

fun write_batches :: "'s kv \<Rightarrow> stored batch list \<Rightarrow> 's \<Rightarrow> bool \<times> 's" where
  "write_batches D [] s = (True, s)"
| "write_batches D (b # bs) s = (let (ok, s) = drv_Batch D s b in if ok then write_batches D bs s else (False, s))"

fun rebuild_loop :: "'s kv \<Rightarrow> entry list \<Rightarrow> merkle_tree \<Rightarrow> 's \<Rightarrow> (bool \<times> merkle_tree \<times> 's) option" where
  "rebuild_loop D [] tree s = Some (True, tree, s)"
| "rebuild_loop D (e # es) tree s =
     (let u = AddDiff NewUpdate (string_of_bytes (en_Key e)) None (en_Value e) in
      case Tree_Update tree u of
        None \<Rightarrow> None
      | Some (_, leafNodes, tree) \<Rightarrow>
          (let b = foldl (\<lambda>b leafID. index_ops leafID (leaf_keys leafNodes leafID u) b) NewBatch (leaf_ids leafNodes tree u);
               (ok, s) = drv_Batch D s b
           in if ok then rebuild_loop D es tree s else Some (False, tree, s)))"

definition leaf_batches :: "merkle_tree \<Rightarrow> stored batch list" where
  "leaf_batches tree =
     map (\<lambda>leafID. Batch_Put (encodeMerkleLeafKey leafID) (StoredBytes (Hash_Bytes (NodeHash tree leafID))) NewBatch)
       (filter (\<lambda>leafID. High (NodeHash tree leafID) \<noteq> 0 \<or> Low (NodeHash tree leafID) \<noteq> 0)
         (map (\<lambda>i. of_nat (2 * i + 1)) [0..<unat (NodeLimit tree) div 2]))"

definition RebuildMerkleLeafs :: "'s kv \<Rightarrow> 's store \<Rightarrow> (db_error option \<times> 's store) option" where
  "RebuildMerkleLeafs D st =
     (case drv_GetMatches D (storageDriver st) [MASTER_MERKLE_TREE_PREFIX, PARTITION_MERKLE_LEAF_PREFIX] of
        None \<Rightarrow> Some (Some EDriver, st)
      | Some (its, err) \<Rightarrow>
          (let (ok, s) = write_batches D (map (\<lambda>(_, k, _). Batch_Delete k NewBatch) its) (storageDriver st);
               st = st\<lparr>storageDriver := s\<rparr>
           in if \<not> ok \<or> err then Some (Some EDriver, st)
              else
                (case (NewMerkleTree (Depth (merkleTree st)), drv_GetMatches D (storageDriver st) [PARTITION_DATA_PREFIX]) of
                   (_, None) \<Rightarrow> Some (Some EDriver, st)
                 | (Inl _, Some _) \<Rightarrow> None
                 | (Inr tree, Some it) \<Rightarrow>
                     (let (es, err, al) = NewBasicSiblingSetIterator it (storageFormatVersion st) (st_alloc st);
                          st = st\<lparr>st_alloc := al\<rparr>
                      in case rebuild_loop D es tree (storageDriver st) of
                           None \<Rightarrow> None
                         | Some (ok, tree, s) \<Rightarrow>
                             if \<not> ok then Some (Some EDriver, st\<lparr>storageDriver := s\<rparr>)
                             else
                               (let (ok, s) = write_batches D (leaf_batches tree) s
                                in Some (if \<not> ok then Some EDriver else if err then Some EStorage else None,
                                         st\<lparr>storageDriver := s\<rparr>))))))"

text \<open>The rewritten rows carry no key.\<close>

fun upgrade_loop :: "'s kv \<Rightarrow> entry list \<Rightarrow> stored batch \<Rightarrow> nat \<Rightarrow> 's store \<Rightarrow> bool \<times> stored batch \<times> nat \<times> 's store" where
  "upgrade_loop D [] b batchSize st = (True, b, batchSize, st)"
| "upgrade_loop D (e # es) b batchSize st =
     (let r = \<lparr>row_Key = '''', LocalVersion = nextRowID st, Siblings = en_Value e\<rparr>;
          st = st\<lparr>nextRowID := nextRowID st + 1\<rparr>;
          b = Batch_Put (encodePartitionDataKey (en_Key e)) (Row_Encode r) b;
          batchSize = batchSize + 1
      in if batchSize = UpgradeFormatBatchSize then
           (let (ok, s) = drv_Batch D (storageDriver st) b;
                st = st\<lparr>storageDriver := s\<rparr>
            in if ok then upgrade_loop D es NewBatch 0 st else (False, b, batchSize, st))
         else upgrade_loop D es b batchSize st)"

text \<open>
  When the iterator ends with an error the code logs the text of a nil error, which is a panic.
\<close>

definition UpgradeStorageFormat :: "'s kv \<Rightarrow> 's store \<Rightarrow> (db_error option \<times> 's store) option" where
  "UpgradeStorageFormat D st =
     (case GetAll D st of
        Inl e \<Rightarrow> Some (Some e, st)
      | Inr (es, err, al) \<Rightarrow>
          (let (ok, b, batchSize, st) = upgrade_loop D es NewBatch 0 (st\<lparr>nextRowID := 0, st_alloc := al\<rparr>) in
           if \<not> ok then Some (Some EDriver, st)
           else
             (let (ok, s) = (if batchSize > 0 then drv_Batch D (storageDriver st) b else (True, storageDriver st));
                  st = st\<lparr>storageDriver := s\<rparr>
              in if \<not> ok then Some (Some EDriver, st)
                 else if err then None
                 else Some (None, st\<lparr>storageFormatVersion := StorageFormatVersion\<rparr>))))"

definition next_row_id :: "entry list \<Rightarrow> u64" where
  "next_row_id es = foldl (\<lambda>next e. if en_LocalVersion e \<ge> next then en_LocalVersion e + 1 else next) 0 es"

definition calculateNextRowID :: "'s kv \<Rightarrow> 's store \<Rightarrow> db_error option \<times> 's store" where
  "calculateNextRowID D st =
     (case GetAll D st of
        Inl e \<Rightarrow> (Some e, st)
      | Inr (es, err, al) \<Rightarrow> (if err then Some EStorage else None, st\<lparr>nextRowID := next_row_id es, st_alloc := al\<rparr>))"

text \<open>\<open>None\<close> is the panic of slicing a value that is too short.\<close>

fun restore_loop :: "stored items \<Rightarrow> merkle_tree \<Rightarrow> (db_error option \<times> merkle_tree) option" where
  "restore_loop [] tree = Some (None, tree)"
| "restore_loop ((_, k, v) # its) tree =
     (case decodeMerkleLeafKey k of
        None \<Rightarrow> None
      | Some (Inl e) \<Rightarrow> Some (Some e, tree)
      | Some (Inr nodeID) \<Rightarrow>
          if \<not> IsLeaf tree nodeID then Some (Some EInvalidLeaf, tree)
          else
            (case v of
               StoredBytes bs \<Rightarrow>
                 if length bs < 16 then None
                 else Option.bind (UpdateLeafHash tree nodeID (decode_hash_bytes (take 16 bs))) (restore_loop its)
             | _ \<Rightarrow> None))"

definition initializeMerkleTree :: "'s kv \<Rightarrow> 's store \<Rightarrow> (db_error option \<times> 's store) option" where
  "initializeMerkleTree D st =
     (case drv_GetMatches D (storageDriver st) [MASTER_MERKLE_TREE_PREFIX] of
        None \<Rightarrow> Some (Some EDriver, st)
      | Some (its, err) \<Rightarrow>
          map_option (\<lambda>(e, tree). (case e of Some e \<Rightarrow> Some e | None \<Rightarrow> if err then Some EDriver else None, st\<lparr>merkleTree := tree\<rparr>))
            (restore_loop its (merkleTree st)))"

text \<open>
  \<^verbatim>\<open>Initialize\<close> of a store on a driver. A depth out of range leaves a nil tree, on which the steps that follow
  panic. The steps return early at the first error, through \<open>then_step\<close>.
\<close>

definition then_step ::
  "(db_error option \<times> 's store) option \<Rightarrow> ('s store \<Rightarrow> (db_error option \<times> 's store) option) \<Rightarrow> (db_error option \<times> 's store) option" where
  "then_step r f = Option.bind r (\<lambda>(err, st). case err of Some e \<Rightarrow> Some (Some e, st) | None \<Rightarrow> f st)"

definition bring_up_to_date :: "'s kv \<Rightarrow> u8 \<Rightarrow> u8 \<Rightarrow> 's store \<Rightarrow> (db_error option \<times> 's store) option" where
  "bring_up_to_date D dbMerkleDepth merkleDepth st =
     (let version = storageFormatVersion st in
      if dbMerkleDepth \<noteq> merkleDepth \<or> version \<noteq> StorageFormatVersion then
        then_step
          (then_step
            (if dbMerkleDepth \<noteq> merkleDepth then RebuildMerkleLeafs D st else Some (None, st))
            (\<lambda>st. if version \<noteq> StorageFormatVersion then UpgradeStorageFormat D st else Some (None, st)))
          (\<lambda>st. Some (RecordMetadata D st))
      else Some (None, st))"

definition Store_Initialize ::
  "'s kv \<Rightarrow> string \<Rightarrow> u8 \<Rightarrow> conflict_resolver option \<Rightarrow> 's store \<Rightarrow> (db_error option \<times> 's store) option" where
  "Store_Initialize D nodeID merkleDepth resolver st =
     (let st = st\<lparr>st_nodeID := nodeID, conflictResolver := (case resolver of None \<Rightarrow> MultiValue | Some r \<Rightarrow> r)\<rparr>;
          st = (case NewMerkleTree merkleDepth of Inl _ \<Rightarrow> st | Inr tree \<Rightarrow> st\<lparr>merkleTree := tree\<rparr>)
      in
      case getStoreMetadata D st of
        None \<Rightarrow> None
      | Some (Inl e) \<Rightarrow> Some (Some e, st)
      | Some (Inr (dbMerkleDepth, version)) \<Rightarrow>
          (case NewMerkleTree merkleDepth of
             Inl _ \<Rightarrow> None
           | Inr _ \<Rightarrow>
               then_step
                 (then_step
                   (then_step
                     (bring_up_to_date D dbMerkleDepth merkleDepth (st\<lparr>storageFormatVersion := version\<rparr>))
                     (\<lambda>st. Some (calculateNextRowID D st)))
                   (initializeMerkleTree D))
                 (\<lambda>st. Some (None, st\<lparr>st_monitor := NewMonitor (if nextRowID st = 0 then 0 else nextRowID st - 1)\<rparr>))))"

end
