(* ===== verification/Buckets.thy ===== *)
theory Buckets
  imports Store_Maintenance
begin

text \<open>
  The buckets of a site: the four built-in kinds of \<^verbatim>\<open>bucket/builtin\<close>, a store with a name and a replication policy, and
  the list of \<^verbatim>\<open>bucket/bucket_list.go\<close> that holds them by name.
\<close>

datatype cloud_mode = CloudMode | RelayMode

definition CloudPeerID :: string where "CloudPeerID = ''cloud''"

datatype bucket_kind = DefaultBucket | LWWBucket | CloudBucket cloud_mode | LocalBucket

record 's bucket =
  bk_kind :: bucket_kind
  bk_store :: "'s store"

definition new_bucket ::
  "'s kv \<Rightarrow> bucket_kind \<Rightarrow> string \<Rightarrow> u8 \<Rightarrow> conflict_resolver \<Rightarrow> 's store \<Rightarrow> (db_error + 's bucket) option" where
  "new_bucket D kind nodeID merkleDepth resolver st =
     map_option (\<lambda>(err, st). case err of Some e \<Rightarrow> Inl e | None \<Rightarrow> Inr \<lparr>bk_kind = kind, bk_store = st\<rparr>)
       (Store_Initialize D nodeID merkleDepth (Some resolver) st)"

text \<open>The last argument is the zero value of the embedded store, over the given driver.\<close>

definition NewDefaultBucket :: "'s kv \<Rightarrow> string \<Rightarrow> u8 \<Rightarrow> 's store \<Rightarrow> (db_error + 's bucket) option" where
  "NewDefaultBucket D nodeID merkleDepth st = new_bucket D DefaultBucket nodeID merkleDepth MultiValue st"

definition NewLWWBucket :: "'s kv \<Rightarrow> string \<Rightarrow> u8 \<Rightarrow> 's store \<Rightarrow> (db_error + 's bucket) option" where
  "NewLWWBucket D nodeID merkleDepth st = new_bucket D LWWBucket nodeID merkleDepth LastWriterWins st"

definition NewCloudBucket :: "'s kv \<Rightarrow> string \<Rightarrow> u8 \<Rightarrow> cloud_mode \<Rightarrow> 's store \<Rightarrow> (db_error + 's bucket) option" where
  "NewCloudBucket D nodeID merkleDepth mode st = new_bucket D (CloudBucket mode) nodeID merkleDepth MultiValue st"

definition NewLocalBucket :: "'s kv \<Rightarrow> string \<Rightarrow> u8 \<Rightarrow> 's store \<Rightarrow> (db_error + 's bucket) option" where
  "NewLocalBucket D nodeID merkleDepth st = new_bucket D LocalBucket nodeID merkleDepth MultiValue st"

fun kind_Name :: "bucket_kind \<Rightarrow> string" where
  "kind_Name DefaultBucket = ''default''"
| "kind_Name LWWBucket = ''lww''"
| "kind_Name (CloudBucket mode) = ''cloud''"
| "kind_Name LocalBucket = ''local''"

fun ShouldReplicateOutgoing :: "bucket_kind \<Rightarrow> string \<Rightarrow> bool" where
  "ShouldReplicateOutgoing DefaultBucket peerID = True"
| "ShouldReplicateOutgoing LWWBucket peerID = True"
| "ShouldReplicateOutgoing (CloudBucket mode) peerID = (mode = CloudMode)"
| "ShouldReplicateOutgoing LocalBucket peerID = False"

fun ShouldReplicateIncoming :: "bucket_kind \<Rightarrow> string \<Rightarrow> bool" where
  "ShouldReplicateIncoming DefaultBucket peerID = True"
| "ShouldReplicateIncoming LWWBucket peerID = True"
| "ShouldReplicateIncoming (CloudBucket mode) peerID = (mode = RelayMode \<and> peerID = CloudPeerID)"
| "ShouldReplicateIncoming LocalBucket peerID = False"

fun ShouldAcceptWrites :: "bucket_kind \<Rightarrow> string \<Rightarrow> bool" where
  "ShouldAcceptWrites (CloudBucket mode) clientID = (mode = CloudMode)"
| "ShouldAcceptWrites _ clientID = True"

definition ShouldAcceptReads :: "bucket_kind \<Rightarrow> string \<Rightarrow> bool" where
  "ShouldAcceptReads kind clientID = True"

definition Bucket_Name :: "'s bucket \<Rightarrow> string" where
  "Bucket_Name b = kind_Name (bk_kind b)"

section \<open>The bucket list\<close>

text \<open>The map of the list, in the order its iteration has.\<close>

type_synonym 's bucket_list = "(string \<times> 's bucket) list"

definition NewBucketList :: "'s bucket_list" where
  "NewBucketList = []"

definition AddBucket :: "'s bucket \<Rightarrow> 's bucket_list \<Rightarrow> 's bucket_list" where
  "AddBucket b bucketList = AList.update (Bucket_Name b) b bucketList"

definition Outgoing :: "string \<Rightarrow> 's bucket_list \<Rightarrow> 's bucket list" where
  "Outgoing peerID bucketList = filter (\<lambda>b. ShouldReplicateOutgoing (bk_kind b) peerID) (map snd bucketList)"

definition Incoming :: "string \<Rightarrow> 's bucket_list \<Rightarrow> 's bucket list" where
  "Incoming peerID bucketList = filter (\<lambda>b. ShouldReplicateIncoming (bk_kind b) peerID) (map snd bucketList)"

definition All :: "'s bucket_list \<Rightarrow> 's bucket list" where
  "All bucketList = map snd bucketList"

definition HasBucket :: "string \<Rightarrow> 's bucket_list \<Rightarrow> bool" where
  "HasBucket bucketName bucketList \<longleftrightarrow> map_of bucketList bucketName \<noteq> None"

definition Bucket_Get :: "string \<Rightarrow> 's bucket_list \<Rightarrow> 's bucket option" where
  "Bucket_Get bucketName bucketList = map_of bucketList bucketName"

end
