(* ===== verification/Sync_Proxy.thy ===== *)
theory Sync_Proxy
  imports Buckets
begin

text \<open>
  \<^verbatim>\<open>sync/merkle_proxy.go\<close> and \<^verbatim>\<open>sync/bucket_proxy.go\<close>: how a sync session reaches a bucket. The two interfaces are
  records of operations on a proxy state. A proxy for a local bucket works on its store; one for a bucket of another
  cluster node asks that node through a client, which is a parameter: the functions that answer its requests. Merging into
  a cloud bucket goes through the cluster agent, a parameter too.
\<close>

section \<open>The interfaces\<close>

record 's merkle_proxy =
  px_RootNode :: "'s \<Rightarrow> u32"
  px_Depth :: "'s \<Rightarrow> u8"
  px_NodeLimit :: "'s \<Rightarrow> u32"
  px_Level :: "'s \<Rightarrow> u32 \<Rightarrow> u8"
  px_LeftChild :: "'s \<Rightarrow> u32 \<Rightarrow> u32"
  px_RightChild :: "'s \<Rightarrow> u32 \<Rightarrow> u32"
  px_NodeHash :: "'s \<Rightarrow> u32 \<Rightarrow> hash \<times> 's"
  px_TranslateNode :: "'s \<Rightarrow> u32 \<Rightarrow> u8 \<Rightarrow> u32"
  px_Error :: "'s \<Rightarrow> bool"

text \<open>
  \<open>px_MerkleTree\<close> is the state once the tree proxy has been made; asking again gives the same proxy. The children
  come as the entries of the iterator and whether it ends with an error; no iterator is \<open>None\<close>. A merge or forget
  gives whether it succeeded; a panic is \<open>None\<close>.
\<close>

record 's bucket_proxy =
  px_Name :: "'s \<Rightarrow> string"
  px_MerkleTree :: "'s \<Rightarrow> 's"
  px_Tree :: "'s merkle_proxy"
  px_GetSyncChildren :: "'s \<Rightarrow> u32 \<Rightarrow> (entry list \<times> bool) option \<times> 's"
  px_Merge :: "'s \<Rightarrow> sibling_map \<Rightarrow> (bool \<times> 's) option"
  px_Forget :: "'s \<Rightarrow> bytes list \<Rightarrow> (bool \<times> 's) option"

section \<open>Local buckets\<close>

definition DirectMerkleTreeProxy :: "('s \<Rightarrow> merkle_tree) \<Rightarrow> 's merkle_proxy" where
  "DirectMerkleTreeProxy tree =
     \<lparr>px_RootNode = (\<lambda>s. RootNode (tree s)), px_Depth = (\<lambda>s. Depth (tree s)), px_NodeLimit = (\<lambda>s. NodeLimit (tree s)),
      px_Level = (\<lambda>s. Level (tree s)), px_LeftChild = (\<lambda>s. LeftChild), px_RightChild = (\<lambda>s. RightChild),
      px_NodeHash = (\<lambda>s node. (NodeHash (tree s) node, s)), px_TranslateNode = (\<lambda>s. TranslateNode (tree s)), px_Error = (\<lambda>s. False)\<rparr>"

definition local_children :: "'s kv \<Rightarrow> 's bucket \<Rightarrow> u32 \<Rightarrow> (entry list \<times> bool) option \<times> 's bucket" where
  "local_children D b nodeID =
     (case GetSyncChildren D nodeID (bk_store b) of
        Inl e \<Rightarrow> (None, b)
      | Inr (es, err, al) \<Rightarrow> (Some (es, err), b\<lparr>bk_store := (bk_store b)\<lparr>st_alloc := al\<rparr>\<rparr>))"

definition on_store :: "(db_error option \<times> 's store) option \<Rightarrow> 's bucket \<Rightarrow> (bool \<times> 's bucket) option" where
  "on_store r b = map_option (\<lambda>(err, st). (err = None, b\<lparr>bk_store := st\<rparr>)) r"

definition RelayBucketProxy :: "'s kv \<Rightarrow> 's bucket bucket_proxy" where
  "RelayBucketProxy D =
     \<lparr>px_Name = Bucket_Name, px_MerkleTree = (\<lambda>b. b), px_Tree = DirectMerkleTreeProxy (\<lambda>b. merkleTree (bk_store b)),
      px_GetSyncChildren = local_children D,
      px_Merge = (\<lambda>b mergedKeys. on_store (Store_Merge D (Some mergedKeys) (bk_store b)) b),
      px_Forget = (\<lambda>b keys. on_store (Forget D (map Some keys) (bk_store b)) b)\<rparr>"

text \<open>A merge of the cluster agent: site, bucket and sets to whether it succeeded, on the state of the whole cluster node.\<close>

type_synonym 'c agent_merge = "string \<Rightarrow> string \<Rightarrow> sibling_map \<Rightarrow> 'c \<Rightarrow> (bool \<times> 'c) option"

record ('c, 's) cloud_local =
  cl_node :: 'c
  cl_SiteID :: string

definition CloudLocalBucketProxy ::
  "'s kv \<Rightarrow> ('c \<Rightarrow> 's bucket) \<Rightarrow> ('s bucket \<Rightarrow> 'c \<Rightarrow> 'c) \<Rightarrow> 'c agent_merge \<Rightarrow> ('c, 's) cloud_local bucket_proxy" where
  "CloudLocalBucketProxy D bucket_of set_bucket agent =
     \<lparr>px_Name = (\<lambda>p. Bucket_Name (bucket_of (cl_node p))), px_MerkleTree = (\<lambda>p. p),
      px_Tree = DirectMerkleTreeProxy (\<lambda>p. merkleTree (bk_store (bucket_of (cl_node p)))),
      px_GetSyncChildren = (\<lambda>p nodeID.
        (let (r, b) = local_children D (bucket_of (cl_node p)) nodeID in (r, p\<lparr>cl_node := set_bucket b (cl_node p)\<rparr>))),
      px_Merge = (\<lambda>p mergedKeys.
        map_option (\<lambda>(ok, c). (ok, p\<lparr>cl_node := c\<rparr>))
          (agent (cl_SiteID p) (Bucket_Name (bucket_of (cl_node p))) mergedKeys (cl_node p))),
      px_Forget = (\<lambda>p keys. Some (True, p))\<rparr>"

section \<open>Buckets of another node\<close>

text \<open>What the client asks another node; each request may fail and may change the world it talks to.\<close>

record 'w client =
  cl_MerkleTreeStats :: "'w \<Rightarrow> string \<Rightarrow> string \<Rightarrow> string \<Rightarrow> u8 option \<times> 'w"
  cl_MerkleTreeNode :: "'w \<Rightarrow> string \<Rightarrow> string \<Rightarrow> string \<Rightarrow> u32 \<Rightarrow> hash option \<times> 'w"
  cl_MerkleTreeNodeKeys :: "'w \<Rightarrow> string \<Rightarrow> string \<Rightarrow> string \<Rightarrow> u32 \<Rightarrow> (string \<times> sibling_set option) list option \<times> 'w"

datatype tree_handle = TreeError | TreeOf merkle_tree

record 'w cloud_remote =
  cr_world :: 'w
  PeerAddress :: string
  cr_SiteID :: string
  BucketName :: string
  merkleTreeProxy :: "tree_handle option"

definition remote_tree :: "'w cloud_remote \<Rightarrow> merkle_tree option" where
  "remote_tree p = (case merkleTreeProxy p of Some (TreeOf tree) \<Rightarrow> Some tree | _ \<Rightarrow> None)"

definition unless_failed :: "'a \<Rightarrow> (merkle_tree \<Rightarrow> 'a) \<Rightarrow> 'w cloud_remote \<Rightarrow> 'a" where
  "unless_failed z f p = (case remote_tree p of None \<Rightarrow> z | Some tree \<Rightarrow> f tree)"

text \<open>The first failed request puts the proxy into the error state for good.\<close>

definition remote_NodeHash :: "'w client \<Rightarrow> 'w cloud_remote \<Rightarrow> u32 \<Rightarrow> hash \<times> 'w cloud_remote" where
  "remote_NodeHash cl p nodeID =
     (if remote_tree p = None then (zero_hash, p)
      else
        (case cl_MerkleTreeNode cl (cr_world p) (PeerAddress p) (cr_SiteID p) (BucketName p) nodeID of
           (None, w) \<Rightarrow> (zero_hash, p\<lparr>cr_world := w, merkleTreeProxy := Some TreeError\<rparr>)
         | (Some h, w) \<Rightarrow> (h, p\<lparr>cr_world := w\<rparr>)))"

definition CloudResponderMerkleTreeProxy :: "'w client \<Rightarrow> 'w cloud_remote merkle_proxy" where
  "CloudResponderMerkleTreeProxy cl =
     \<lparr>px_RootNode = unless_failed 0 RootNode, px_Depth = unless_failed 0 Depth, px_NodeLimit = unless_failed 0 NodeLimit,
      px_Level = (\<lambda>p nodeID. unless_failed 0 (\<lambda>tree. Level tree nodeID) p),
      px_LeftChild = (\<lambda>p nodeID. unless_failed 0 (\<lambda>tree. LeftChild nodeID) p),
      px_RightChild = (\<lambda>p nodeID. unless_failed 0 (\<lambda>tree. RightChild nodeID) p),
      px_NodeHash = remote_NodeHash cl,
      px_TranslateNode = (\<lambda>p nodeID depth. unless_failed 0 (\<lambda>tree. TranslateNode tree nodeID depth) p),
      px_Error = (\<lambda>p. merkleTreeProxy p = Some TreeError)\<rparr>"

definition remote_MerkleTree :: "'w client \<Rightarrow> 'w cloud_remote \<Rightarrow> 'w cloud_remote" where
  "remote_MerkleTree cl p =
     (if merkleTreeProxy p \<noteq> None then p
      else
        (case cl_MerkleTreeStats cl (cr_world p) (PeerAddress p) (cr_SiteID p) (BucketName p) of
           (None, w) \<Rightarrow> p\<lparr>cr_world := w, merkleTreeProxy := Some TreeError\<rparr>
         | (Some depth, w) \<Rightarrow>
             (case NewDummyMerkleTree depth of
                Inl e \<Rightarrow> p\<lparr>cr_world := w, merkleTreeProxy := Some TreeError\<rparr>
              | Inr dummy \<Rightarrow> p\<lparr>cr_world := w, merkleTreeProxy := Some (TreeOf dummy)\<rparr>)))"

text \<open>The entries \<^verbatim>\<open>CloudResponderMerkleNodeIterator\<close> goes through; it has no errors.\<close>

definition remote_entries :: "(string \<times> sibling_set option) list \<Rightarrow> entry list" where
  "remote_entries keys = map (\<lambda>(k, v). \<lparr>en_Prefix = [], en_Key = bytes_of_string k, en_Value = v, en_LocalVersion = 0\<rparr>) keys"

definition remote_children :: "'w client \<Rightarrow> 'w cloud_remote \<Rightarrow> u32 \<Rightarrow> (entry list \<times> bool) option \<times> 'w cloud_remote" where
  "remote_children cl p nodeID =
     (case cl_MerkleTreeNodeKeys cl (cr_world p) (PeerAddress p) (cr_SiteID p) (BucketName p) nodeID of
        (None, w) \<Rightarrow> (None, p\<lparr>cr_world := w\<rparr>)
      | (Some keys, w) \<Rightarrow> (Some (remote_entries keys, False), p\<lparr>cr_world := w\<rparr>))"

definition CloudRemoteBucketProxy :: "'w client \<Rightarrow> 'w agent_merge \<Rightarrow> 'w cloud_remote bucket_proxy" where
  "CloudRemoteBucketProxy cl agent =
     \<lparr>px_Name = BucketName, px_MerkleTree = remote_MerkleTree cl, px_Tree = CloudResponderMerkleTreeProxy cl,
      px_GetSyncChildren = remote_children cl,
      px_Merge = (\<lambda>p mergedKeys.
        map_option (\<lambda>(ok, w). (ok, p\<lparr>cr_world := w\<rparr>)) (agent (cr_SiteID p) (BucketName p) mergedKeys (cr_world p))),
      px_Forget = (\<lambda>p keys. Some (True, p))\<rparr>"

section \<open>Which buckets a peer may sync\<close>

definition bucket_names :: "'s bucket list \<Rightarrow> string list" where
  "bucket_names bs = map Bucket_Name bs"

definition Relay_IncomingBuckets :: "'s bucket_list \<Rightarrow> string \<Rightarrow> string list" where
  "Relay_IncomingBuckets buckets peerID = bucket_names (Incoming peerID buckets)"

definition Relay_OutgoingBuckets :: "'s bucket_list \<Rightarrow> string \<Rightarrow> string list" where
  "Relay_OutgoingBuckets buckets peerID = bucket_names (Outgoing peerID buckets)"

definition Relay_CreateBucketProxy :: "'s bucket_list \<Rightarrow> string \<Rightarrow> 's bucket option" where
  "Relay_CreateBucketProxy buckets bucketName = Bucket_Get bucketName buckets"

definition Cloud_IncomingBuckets :: "string \<Rightarrow> string list" where
  "Cloud_IncomingBuckets peerID = [''default'', ''lww'']"

definition Cloud_OutgoingBuckets :: "string \<Rightarrow> string list" where
  "Cloud_OutgoingBuckets peerID = [''default'', ''lww'', ''cloud'']"

end
