(* ===== verification/Sync_Session.thy ===== *)
theory Sync_Session
  imports Sync_Proxy
begin

text \<open>
  \<^verbatim>\<open>server/sync.go\<close>: the two state machines of a sync session. The initiator walks down its Merkle tree where the
  responder's hashes differ from its own, then asks for the objects of each leaf it arrived at and merges them; the
  responder answers from its tree and its bucket. A step takes the message received (\<open>None\<close> after a timeout) and gives
  the one to send. A type assertion on a message body of another type panics and is \<open>None\<close>.
\<close>

section \<open>Messages\<close>

datatype message_type = SYNC_START | SYNC_ABORT | SYNC_NODE_HASH | SYNC_OBJECT_NEXT | SYNC_PUSH_MESSAGE
  | REQUEST | RESPONSE | PUSH | SYNC_PUSH_DONE

datatype message_body =
    Start (ProtocolVersion: u64) (MerkleDepth: u8) (StartBucket: string)
  | Abort
  | MerkleNodeHash (HashNodeID: u32) (HashHigh: u64) (HashLow: u64)
  | ObjectNext (NextNodeID: u32)
  | PushMessage (PushBucket: string) (PushKey: string) (PushValue: "sibling_set option")
  | PushDone

text \<open>The direction of a new message is the number of \<open>SYNC_START\<close>, zero.\<close>

record sync_message =
  SessionID :: u64
  MessageType :: message_type
  MessageBody :: message_body
  Direction :: message_type

definition message :: "u64 \<Rightarrow> message_type \<Rightarrow> message_body \<Rightarrow> sync_message" where
  "message sessionID t body = \<lparr>SessionID = sessionID, MessageType = t, MessageBody = body, Direction = SYNC_START\<rparr>"

definition PROTOCOL_VERSION :: u64 where "PROTOCOL_VERSION = 2"

datatype sync_state = START | HANDSHAKE | ROOT_HASH_COMPARE | LEFT_HASH_COMPARE | RIGHT_HASH_COMPARE
  | HASH_COMPARE | DB_OBJECT_PUSH | END

section \<open>The initiator\<close>

record 's initiator =
  in_sessionID :: u64
  in_state :: sync_state
  maxDepth :: u8
  theirDepth :: u8
  explorationQueue :: "u32 list"
  explorationPathLimit :: u32
  in_proxy :: 's
  replicatesOutgoing :: bool
  currentNodeKeys :: "string list"

definition NewInitiatorSyncSession :: "'s bucket_proxy \<Rightarrow> u64 \<Rightarrow> 's \<Rightarrow> u32 \<Rightarrow> bool \<Rightarrow> 's initiator" where
  "NewInitiatorSyncSession P sid p pathLimit outgoing =
     (let p = px_MerkleTree P p in
      \<lparr>in_sessionID = sid, in_state = START, maxDepth = px_Depth (px_Tree P) p, theirDepth = 0, explorationQueue = [],
       explorationPathLimit = pathLimit, in_proxy = p, replicatesOutgoing = outgoing, currentNodeKeys = []\<rparr>)"

definition SetResponderDepth :: "u8 \<Rightarrow> 's initiator \<Rightarrow> 's initiator" where
  "SetResponderDepth d s = s\<lparr>maxDepth := (if d < maxDepth s then d else maxDepth s), theirDepth := d\<rparr>"

definition PushExplorationQueue :: "u32 \<Rightarrow> 's initiator \<Rightarrow> 's initiator" where
  "PushExplorationQueue n s = s\<lparr>explorationQueue := explorationQueue s @ [n]\<rparr>"

definition PeekExplorationQueue :: "'s initiator \<Rightarrow> u32" where
  "PeekExplorationQueue s = (case explorationQueue s of [] \<Rightarrow> 0 | n # ns \<Rightarrow> n)"

definition PopExplorationQueue :: "'s initiator \<Rightarrow> u32 \<times> 's initiator" where
  "PopExplorationQueue s = (PeekExplorationQueue s, s\<lparr>explorationQueue := tl (explorationQueue s)\<rparr>)"

definition ExplorationQueueSize :: "'s initiator \<Rightarrow> u32" where
  "ExplorationQueueSize s = of_nat (length (explorationQueue s))"

text \<open>Collects the keys this node has under the node to explore; the first result is false on an error.\<close>

definition getNodeKeys :: "'s bucket_proxy \<Rightarrow> 's initiator \<Rightarrow> bool \<times> 's initiator" where
  "getNodeKeys P s =
     (if replicatesOutgoing s then (True, s)
      else
        (case px_GetSyncChildren P (in_proxy s) (PeekExplorationQueue s) of
           (None, p) \<Rightarrow> (False, s\<lparr>in_proxy := p\<rparr>)
         | (Some (es, err), p) \<Rightarrow>
             (if err then (False, s\<lparr>in_proxy := p\<rparr>)
              else (True, s\<lparr>in_proxy := p, currentNodeKeys := remdups (map (\<lambda>e. string_of_bytes (en_Key e)) es)\<rparr>))))"

definition forgetNonAuthoritativeKeys :: "'s bucket_proxy \<Rightarrow> 's initiator \<Rightarrow> (bool \<times> 's initiator) option" where
  "forgetNonAuthoritativeKeys P s =
     (if replicatesOutgoing s then Some (True, s)
      else map_option (\<lambda>(ok, p). (ok, s\<lparr>in_proxy := p\<rparr>))
             (px_Forget P (in_proxy s) (map bytes_of_string (currentNodeKeys s))))"

type_synonym 's reply = "(sync_message option \<times> 's) option"

definition say :: "message_type \<Rightarrow> message_body \<Rightarrow> 's initiator \<Rightarrow> 's initiator reply" where
  "say t body s = Some (Some (message (in_sessionID s) t body), s)"

definition abort :: "'s initiator \<Rightarrow> 's initiator reply" where
  "abort s = say SYNC_ABORT Abort (s\<lparr>in_state := END\<rparr>)"

text \<open>The number of a node of this tree in the responder's.\<close>

definition their_node :: "'s bucket_proxy \<Rightarrow> 's initiator \<Rightarrow> u32 \<Rightarrow> u32" where
  "their_node P s n = px_TranslateNode (px_Tree P) (in_proxy s) n (theirDepth s)"

definition ask_hash :: "'s bucket_proxy \<Rightarrow> u32 \<Rightarrow> 's initiator \<Rightarrow> 's initiator reply" where
  "ask_hash P n s = say SYNC_NODE_HASH (MerkleNodeHash (their_node P s n) 0 0) s"

definition ask_objects :: "'s bucket_proxy \<Rightarrow> 's initiator \<Rightarrow> 's initiator reply" where
  "ask_objects P s = say SYNC_OBJECT_NEXT (ObjectNext (their_node P s (PeekExplorationQueue s))) s"

definition left_child :: "'s bucket_proxy \<Rightarrow> 's initiator \<Rightarrow> u32" where
  "left_child P s = px_LeftChild (px_Tree P) (in_proxy s) (PeekExplorationQueue s)"

definition right_child :: "'s bucket_proxy \<Rightarrow> 's initiator \<Rightarrow> u32" where
  "right_child P s = px_RightChild (px_Tree P) (in_proxy s) (PeekExplorationQueue s)"

definition at_max_depth :: "'s bucket_proxy \<Rightarrow> 's initiator \<Rightarrow> bool" where
  "at_max_depth P s \<longleftrightarrow> px_Level (px_Tree P) (in_proxy s) (PeekExplorationQueue s) = maxDepth s"

definition my_hash :: "'s bucket_proxy \<Rightarrow> u32 \<Rightarrow> 's initiator \<Rightarrow> hash \<times> 's initiator" where
  "my_hash P n s = (let (h, p) = px_NodeHash (px_Tree P) (in_proxy s) n in (h, s\<lparr>in_proxy := p\<rparr>))"

text \<open>Whether a hash message, if it is one, has this hash; a message of the right type with another body panics.\<close>

definition same_hash :: "sync_message \<Rightarrow> hash \<Rightarrow> bool option" where
  "same_hash m h =
     (case MessageBody m of MerkleNodeHash n hi lo \<Rightarrow> Some (hi = High h \<and> lo = Low h) | _ \<Rightarrow> None)"

definition initiator_start :: "'s bucket_proxy \<Rightarrow> 's initiator \<Rightarrow> 's initiator reply" where
  "initiator_start P s =
     say SYNC_START (Start PROTOCOL_VERSION (px_Depth (px_Tree P) (in_proxy s)) (px_Name P (in_proxy s))) (s\<lparr>in_state := HANDSHAKE\<rparr>)"

text \<open>The hash of the root is read once for each of its halves.\<close>

definition initiator_handshake :: "'s bucket_proxy \<Rightarrow> sync_message option \<Rightarrow> 's initiator \<Rightarrow> 's initiator reply" where
  "initiator_handshake P msg s =
     (case msg of
        None \<Rightarrow> abort s
      | Some m \<Rightarrow>
          if MessageType m \<noteq> SYNC_START then abort s
          else
            (case MessageBody m of
               Start version depth name \<Rightarrow>
                 if version \<noteq> PROTOCOL_VERSION then abort s
                 else
                   (let s = (SetResponderDepth depth s)\<lparr>in_state := ROOT_HASH_COMPARE\<rparr>;
                        s = PushExplorationQueue (px_RootNode (px_Tree P) (in_proxy s)) s;
                        node = their_node P s (PeekExplorationQueue s);
                        (high, s) = my_hash P (PeekExplorationQueue s) s;
                        (low, s) = my_hash P (PeekExplorationQueue s) s
                    in say SYNC_NODE_HASH (MerkleNodeHash node (High high) (Low low)) s)
             | _ \<Rightarrow> None))"

definition initiator_root :: "'s bucket_proxy \<Rightarrow> sync_message option \<Rightarrow> 's initiator \<Rightarrow> 's initiator reply" where
  "initiator_root P msg s =
     (let (myHash, s) = my_hash P (PeekExplorationQueue s) s in
      case msg of
        None \<Rightarrow> abort s
      | Some m \<Rightarrow>
          if MessageType m \<noteq> SYNC_NODE_HASH then abort s
          else
            Option.bind (same_hash m myHash) (\<lambda>same.
              if same then abort s
              else if \<not> at_max_depth P s then ask_hash P (left_child P s) (s\<lparr>in_state := LEFT_HASH_COMPARE\<rparr>)
              else ask_objects P (s\<lparr>in_state := DB_OBJECT_PUSH\<rparr>)))"

definition initiator_left :: "'s bucket_proxy \<Rightarrow> sync_message option \<Rightarrow> 's initiator \<Rightarrow> 's initiator reply" where
  "initiator_left P msg s =
     (let (myLeftChildHash, s) = my_hash P (left_child P s) s in
      case msg of
        None \<Rightarrow> abort s
      | Some m \<Rightarrow>
          if MessageType m \<noteq> SYNC_NODE_HASH then abort s
          else
            Option.bind (same_hash m myLeftChildHash) (\<lambda>same.
              let s = (if same then s else PushExplorationQueue (left_child P s) s);
                  s = s\<lparr>in_state := RIGHT_HASH_COMPARE\<rparr>
              in ask_hash P (right_child P s) s))"

definition initiator_right :: "'s bucket_proxy \<Rightarrow> sync_message option \<Rightarrow> 's initiator \<Rightarrow> 's initiator reply" where
  "initiator_right P msg s =
     (let (myRightChildHash, s) = my_hash P (right_child P s) s in
      case msg of
        None \<Rightarrow> abort s
      | Some m \<Rightarrow>
          if MessageType m \<noteq> SYNC_NODE_HASH then abort s
          else
            Option.bind (same_hash m myRightChildHash) (\<lambda>same.
              let s = (if \<not> same \<and> ExplorationQueueSize s \<le> explorationPathLimit s
                       then PushExplorationQueue (right_child P s) s else s);
                  s = snd (PopExplorationQueue s)
              in if ExplorationQueueSize s = 0 then abort s
                 else if at_max_depth P s then
                   (let (ok, s) = getNodeKeys P s
                    in if \<not> ok then abort s else ask_objects P (s\<lparr>in_state := DB_OBJECT_PUSH\<rparr>))
                 else ask_hash P (left_child P s) (s\<lparr>in_state := LEFT_HASH_COMPARE\<rparr>)))"

definition initiator_push :: "'s bucket_proxy \<Rightarrow> sync_message option \<Rightarrow> 's initiator \<Rightarrow> 's initiator reply" where
  "initiator_push P msg s =
     (case msg of
        None \<Rightarrow> abort s
      | Some m \<Rightarrow>
          if MessageType m \<noteq> SYNC_PUSH_MESSAGE \<and> MessageType m \<noteq> SYNC_PUSH_DONE then abort s
          else if MessageType m = SYNC_PUSH_DONE then
            (let s = snd (PopExplorationQueue s) in
             Option.bind (forgetNonAuthoritativeKeys P s) (\<lambda>(ok, s).
               if \<not> ok \<or> ExplorationQueueSize s = 0 then abort s
               else
                 (let (ok, s) = getNodeKeys P s
                  in if \<not> ok then abort s else ask_objects P s)))
          else
            (case MessageBody m of
               PushMessage bucket key siblingSet \<Rightarrow>
                 (let s = s\<lparr>currentNodeKeys := removeAll key (currentNodeKeys s)\<rparr> in
                  Option.bind (px_Merge P (in_proxy s) [(key, siblingSet)]) (\<lambda>(ok, p).
                    let s = s\<lparr>in_proxy := p\<rparr>
                    in if \<not> ok then abort s else ask_objects P s))
             | _ \<Rightarrow> None))"

text \<open>After every step but those of a finished session an error of the tree proxy ends the session.\<close>

definition check_tree :: "'s bucket_proxy \<Rightarrow> 's initiator reply \<Rightarrow> 's initiator reply" where
  "check_tree P r =
     Option.bind r (\<lambda>(m, s). if px_Error (px_Tree P) (in_proxy s) then abort s else Some (m, s))"

definition NextState :: "'s bucket_proxy \<Rightarrow> sync_message option \<Rightarrow> 's initiator \<Rightarrow> 's initiator reply" where
  "NextState P msg s =
     (case in_state s of
        START \<Rightarrow> check_tree P (initiator_start P s)
      | HANDSHAKE \<Rightarrow> check_tree P (initiator_handshake P msg s)
      | ROOT_HASH_COMPARE \<Rightarrow> check_tree P (initiator_root P msg s)
      | LEFT_HASH_COMPARE \<Rightarrow> check_tree P (initiator_left P msg s)
      | RIGHT_HASH_COMPARE \<Rightarrow> check_tree P (initiator_right P msg s)
      | DB_OBJECT_PUSH \<Rightarrow> check_tree P (initiator_push P msg s)
      | END \<Rightarrow> Some (None, s)
      | HASH_COMPARE \<Rightarrow> check_tree P (Some (None, s)))"

section \<open>The responder\<close>

text \<open>The iterator of the node being sent: the entries left and whether it ends with an error.\<close>

record 's responder =
  re_sessionID :: u64
  re_state :: sync_state
  re_node :: u32
  re_maxDepth :: u8
  re_theirDepth :: u8
  re_proxy :: 's
  iter :: "(entry list \<times> bool) option"
  currentIterationNode :: u32

definition NewResponderSyncSession :: "'s bucket_proxy \<Rightarrow> 's \<Rightarrow> 's responder" where
  "NewResponderSyncSession P p =
     (let p = px_MerkleTree P p in
      \<lparr>re_sessionID = 0, re_state = START, re_node = px_RootNode (px_Tree P) p, re_maxDepth = px_Depth (px_Tree P) p,
       re_theirDepth = 0, re_proxy = p, iter = None, currentIterationNode = 0\<rparr>)"

definition re_say :: "message_type \<Rightarrow> message_body \<Rightarrow> 's responder \<Rightarrow> 's responder reply" where
  "re_say t body s = Some (Some (message (re_sessionID s) t body), s)"

definition re_abort :: "'s responder \<Rightarrow> 's responder reply" where
  "re_abort s = re_say SYNC_ABORT Abort (s\<lparr>re_state := END\<rparr>)"

definition responder_start :: "'s bucket_proxy \<Rightarrow> sync_message option \<Rightarrow> 's responder \<Rightarrow> 's responder reply" where
  "responder_start P msg s =
     (case msg of
        None \<Rightarrow> re_abort s
      | Some m \<Rightarrow>
          (let s = s\<lparr>re_sessionID := SessionID m\<rparr> in
           if MessageType m \<noteq> SYNC_START then re_abort s
           else
             (case MessageBody m of
                Start version depth name \<Rightarrow>
                  if version \<noteq> PROTOCOL_VERSION then re_abort s
                  else
                    re_say SYNC_START (Start PROTOCOL_VERSION (px_Depth (px_Tree P) (re_proxy s)) (px_Name P (re_proxy s)))
                      (s\<lparr>re_theirDepth := depth, re_state := HASH_COMPARE\<rparr>)
              | _ \<Rightarrow> None)))"

definition push_entry :: "entry \<Rightarrow> 's responder \<Rightarrow> 's responder reply" where
  "push_entry e s = re_say SYNC_PUSH_MESSAGE (PushMessage '''' (string_of_bytes (en_Key e)) (en_Value e)) s"

definition responder_hash :: "'s bucket_proxy \<Rightarrow> u32 \<Rightarrow> 's responder \<Rightarrow> 's responder reply" where
  "responder_hash P nodeID s =
     (if nodeID \<ge> px_NodeLimit (px_Tree P) (re_proxy s) \<or> nodeID = 0 then re_abort s
      else
        (let (nodeHash, p) = px_NodeHash (px_Tree P) (re_proxy s) nodeID;
             s = s\<lparr>re_proxy := p\<rparr>
         in re_say SYNC_NODE_HASH
              (MerkleNodeHash (px_TranslateNode (px_Tree P) (re_proxy s) nodeID (re_theirDepth s)) (High nodeHash) (Low nodeHash)) s))"

text \<open>When the first node asked for has no entries, no iterator is kept.\<close>

definition responder_first :: "'s bucket_proxy \<Rightarrow> u32 \<Rightarrow> 's responder \<Rightarrow> 's responder reply" where
  "responder_first P nodeID s =
     (let s = s\<lparr>currentIterationNode := nodeID\<rparr>;
          (it, p) = px_GetSyncChildren P (re_proxy s) nodeID;
          s = s\<lparr>re_proxy := p\<rparr>
      in case it of
           None \<Rightarrow> re_abort s
         | Some ([], err) \<Rightarrow>
             if \<not> err then re_say SYNC_PUSH_DONE PushDone (s\<lparr>re_state := DB_OBJECT_PUSH\<rparr>) else re_abort s
         | Some (e # es, err) \<Rightarrow> push_entry e (s\<lparr>iter := Some (es, err), re_state := DB_OBJECT_PUSH\<rparr>))"

definition responder_compare :: "'s bucket_proxy \<Rightarrow> sync_message option \<Rightarrow> 's responder \<Rightarrow> 's responder reply" where
  "responder_compare P msg s =
     (case msg of
        None \<Rightarrow> re_abort s
      | Some m \<Rightarrow>
          if MessageType m \<noteq> SYNC_NODE_HASH \<and> MessageType m \<noteq> SYNC_OBJECT_NEXT then re_abort s
          else if MessageType m = SYNC_NODE_HASH then
            (case MessageBody m of MerkleNodeHash nodeID hi lo \<Rightarrow> responder_hash P nodeID s | _ \<Rightarrow> None)
          else
            (case MessageBody m of ObjectNext nodeID \<Rightarrow> responder_first P nodeID s | _ \<Rightarrow> None))"

definition responder_next :: "'s responder \<Rightarrow> 's responder reply" where
  "responder_next s =
     (case iter s of
        Some (e # es, err) \<Rightarrow> push_entry e (s\<lparr>iter := Some (es, err)\<rparr>)
      | Some ([], False) \<Rightarrow> re_say SYNC_PUSH_DONE PushDone s
      | _ \<Rightarrow> re_abort s)"

definition responder_push :: "'s bucket_proxy \<Rightarrow> sync_message option \<Rightarrow> 's responder \<Rightarrow> 's responder reply" where
  "responder_push P msg s =
     (case msg of
        None \<Rightarrow> re_abort s
      | Some m \<Rightarrow>
          if MessageType m \<noteq> SYNC_OBJECT_NEXT then re_abort s
          else if iter s = None then re_abort s
          else
            (case MessageBody m of
               ObjectNext nodeID \<Rightarrow>
                 if currentIterationNode s \<noteq> nodeID then
                   (let (it, p) = px_GetSyncChildren P (re_proxy s) nodeID;
                        s = s\<lparr>currentIterationNode := nodeID, re_proxy := p\<rparr>
                    in case it of None \<Rightarrow> re_abort s | Some x \<Rightarrow> responder_next (s\<lparr>iter := Some x\<rparr>))
                 else responder_next s
             | _ \<Rightarrow> None))"

definition re_check_tree :: "'s bucket_proxy \<Rightarrow> 's responder reply \<Rightarrow> 's responder reply" where
  "re_check_tree P r =
     Option.bind r (\<lambda>(m, s). if px_Error (px_Tree P) (re_proxy s) then re_abort s else Some (m, s))"

definition Responder_NextState :: "'s bucket_proxy \<Rightarrow> sync_message option \<Rightarrow> 's responder \<Rightarrow> 's responder reply" where
  "Responder_NextState P msg s =
     (case re_state s of
        START \<Rightarrow> re_check_tree P (responder_start P msg s)
      | HASH_COMPARE \<Rightarrow> re_check_tree P (responder_compare P msg s)
      | DB_OBJECT_PUSH \<Rightarrow> re_check_tree P (responder_push P msg s)
      | END \<Rightarrow> Some (None, s)
      | _ \<Rightarrow> re_check_tree P (Some (None, s)))"

text \<open>
  A session between two nodes over channels that deliver: each message of one side is the next one the other side
  receives. The session is over when either side is in its final state.
\<close>

fun session :: "'a bucket_proxy \<Rightarrow> 'b bucket_proxy \<Rightarrow> nat \<Rightarrow> sync_message option \<Rightarrow> 'a initiator \<Rightarrow> 'b responder
    \<Rightarrow> ('a initiator \<times> 'b responder) option" where
  "session P Q 0 msg i r = None"
| "session P Q (Suc fuel) msg i r =
     (case NextState P msg i of
        None \<Rightarrow> None
      | Some (m, i) \<Rightarrow>
          if in_state i = END then Some (i, r)
          else
            (case Responder_NextState Q m r of
               None \<Rightarrow> None
             | Some (m', r) \<Rightarrow> session P Q fuel m' i r))"

end
