(* ===== verification/Merkle_Paths.thy ===== *)
theory Merkle_Paths
  imports Merkle_Properties
begin

text \<open>
  The nodes of a Merkle tree numbered from the root: \<open>pnode d (k, j)\<close> is the \<open>k\<close>-th node of the \<open>j\<close>-th level below the
  root in a tree of depth \<open>d\<close>. Two trees of different depths share this numbering, which is what \<^verbatim>\<open>TranslateNode\<close>
  computes.
\<close>

definition pnode :: "nat \<Rightarrow> nat \<times> nat \<Rightarrow> u32" where
  "pnode d c = word_node (fst c, d - 1 - snd c)"

definition on_path :: "nat \<Rightarrow> nat \<times> nat \<Rightarrow> bool" where
  "on_path d c \<longleftrightarrow> snd c < d \<and> fst c < 2 ^ snd c"

lemma on_path_valid: "on_path d c \<Longrightarrow> valid_node d (fst c, d - 1 - snd c)"
  by (simp add: on_path_def valid_node_iff)

lemma on_path_root [simp]: "0 < d \<Longrightarrow> on_path d (0, 0)"
  by (simp add: on_path_def)

lemma on_path_children:
  "on_path d (k, j) \<Longrightarrow> Suc j < d \<Longrightarrow> on_path d (2 * k, Suc j) \<and> on_path d (Suc (2 * k), Suc j)"
  by (auto simp: on_path_def)

lemma depth_bounds: "tree_ok t \<Longrightarrow> 1 \<le> td t" "tree_ok t \<Longrightarrow> td t \<le> 28"
  by (simp_all add: tree_ok_def)

lemma path_bound: "tree_ok t \<Longrightarrow> on_path (td t) c \<Longrightarrow> node_no (fst c) (td t - 1 - snd c) < 2 ^ 32"
  using node_bound [of t "fst c" "td t - 1 - snd c"] on_path_valid [of "td t" c] by blast

lemma RootNode_path: "tree_ok t \<Longrightarrow> RootNode t = pnode (td t) (0, 0)"
  using RootNode_node [of t] by (simp add: pnode_def)

lemma LeftChild_path:
  assumes t: "tree_ok t" and c: "on_path (td t) (k, j)" and j: "Suc j < td t"
  shows "LeftChild (pnode (td t) (k, j)) = pnode (td t) (2 * k, Suc j)"
proof -
  obtain l where l: "td t - 1 - j = Suc l" "td t - 1 - Suc j = l" using j by (cases "td t - 1 - j") auto
  have b: "node_no k (Suc l) < 2 ^ 32" using path_bound [OF t c] unfolding fst_conv snd_conv l .
  then have "word_node (k, Suc l) AND 1 = 0" using node_parity by simp
  then show ?thesis using left_node [OF b] unfolding pnode_def fst_conv snd_conv l by (simp add: LeftChild_def)
qed

lemma RightChild_path:
  assumes t: "tree_ok t" and c: "on_path (td t) (k, j)" and j: "Suc j < td t"
  shows "RightChild (pnode (td t) (k, j)) = pnode (td t) (Suc (2 * k), Suc j)"
proof -
  obtain l where l: "td t - 1 - j = Suc l" "td t - 1 - Suc j = l" using j by (cases "td t - 1 - j") auto
  have b: "node_no k (Suc l) < 2 ^ 32" using path_bound [OF t c] unfolding fst_conv snd_conv l .
  then have "word_node (k, Suc l) AND 1 = 0" using node_parity by simp
  then show ?thesis using right_node [OF b] unfolding pnode_def fst_conv snd_conv l by (simp add: RightChild_def)
qed

lemma Level_path: "tree_ok t \<Longrightarrow> on_path (td t) (k, j) \<Longrightarrow> unat (Level t (pnode (td t) (k, j))) = Suc j"
proof -
  assume t: "tree_ok t" and c: "on_path (td t) (k, j)"
  let ?l = "td t - 1 - j"
  have l: "?l < 28" using depth_bounds [OF t] c by (auto simp: on_path_def)
  have "CountTrailingZeros (pnode (td t) (k, j)) = of_nat ?l"
    using CountTrailingZeros_node path_bound [OF t c] by (simp add: pnode_def)
  moreover have "unat (ucast (of_nat ?l :: u32) :: u8) = ?l"
    using l by (simp add: unsigned_ucast_eq unat_of_nat take_bit_nat_eq_self_iff)
  moreover have "td t - ?l = Suc j" using c by (auto simp: on_path_def)
  moreover have "ucast (of_nat ?l :: u32) \<le> mt_depth t" using calculation(2) by (simp add: word_le_nat_alt)
  ultimately show ?thesis by (simp add: Level_def Depth_def unat_sub)
qed

lemma path_in_tree:
  assumes t: "tree_ok t" and c: "on_path (td t) c"
  shows "pnode (td t) c < NodeLimit t \<and> pnode (td t) c \<noteq> 0"
proof -
  have "unat (pnode (td t) c) = node_no (fst c) (td t - 1 - snd c)"
    unfolding pnode_def by (rule unat_word_node [OF path_bound [OF t c]])
  moreover have "node_no (fst c) (td t - 1 - snd c) < 2 ^ td t" using on_path_valid [OF c] by (simp add: valid_node_def)
  moreover have "0 < node_no (fst c) (td t - 1 - snd c)" by simp
  ultimately show ?thesis using conjunct1 [OF node_limit [OF t]]
    unfolding word_less_nat_alt by (metis less_numeral_extra(3) unat_0)
qed

lemma TranslateNode_path:
  assumes t: "tree_ok t" and c: "on_path (td t) (k, j)" and d: "1 \<le> unat d" "unat d \<le> 28" "on_path (unat d) (k, j)"
  shows "TranslateNode t (pnode (td t) (k, j)) d = pnode (unat d) (k, j)"
proof -
  have b: "node_no k (td t - 1 - j) < 2 ^ 32" "node_no k (unat d - 1 - j) < 2 ^ 32"
    using path_bound [OF t c] d(2) valid_node_word [OF on_path_valid [OF d(3)]] by simp_all
  have j: "j < td t" "j < unat d" using c d(3) by (simp_all add: on_path_def)
  show ?thesis
  proof (cases "mt_depth t < d")
    case True
    let ?s = "unat d - td t"
    have s: "unat (d - mt_depth t) = ?s" using True by (simp add: unat_sub word_less_nat_alt word_le_nat_alt)
    then have s': "unat (ucast (d - mt_depth t) :: u32) = ?s" "?s < 32" using d(2) by (simp_all add: unsigned_ucast_eq take_bit_nat_eq_self_iff)
    have td: "td t \<le> unat d" using True by (simp add: word_less_nat_alt)
    have "unat d - 1 - j = (td t - 1 - j) + ?s" using j td by simp
    then have "node_no k (unat d - 1 - j) = node_no k (td t - 1 - j) * 2 ^ ?s" by (simp only: node_no_def power_add mult.assoc)
    then have "pnode (unat d) (k, j) = pnode (td t) (k, j) * of_nat (2 ^ ?s)" by (simp add: pnode_def word_node_def)
    then show ?thesis using True s' by (simp add: TranslateNode_def Depth_def go_shl_def push_bit_eq_mult)
  next
    case False
    let ?s = "td t - unat d"
    have s: "unat (mt_depth t - d) = ?s" using False by (simp add: unat_sub not_less)
    then have s': "unat (ucast (mt_depth t - d) :: u32) = ?s" "?s < 32"
      using depth_bounds [OF t] by (simp_all add: unsigned_ucast_eq take_bit_nat_eq_self_iff)
    have td: "unat d \<le> td t" using False by (simp add: not_less word_le_nat_alt)
    have "td t - 1 - j = (unat d - 1 - j) + ?s" using j td by simp
    then have "node_no k (td t - 1 - j) = node_no k (unat d - 1 - j) * 2 ^ ?s" by (simp only: node_no_def power_add mult.assoc)
    then have "unat (drop_bit ?s (pnode (td t) (k, j))) = node_no k (unat d - 1 - j)"
      unfolding unat_drop_bit_eq pnode_def using unat_word_node [OF b(1)] by (simp add: drop_bit_eq_div [where 'a = nat])
    moreover have "unat (pnode (unat d) (k, j)) = node_no k (unat d - 1 - j)" using unat_word_node [OF b(2)] by (simp add: pnode_def)
    ultimately have "drop_bit ?s (pnode (td t) (k, j)) = pnode (unat d) (k, j)" by (simp add: word_unat_eq_iff)
    then show ?thesis using False s' by (simp add: TranslateNode_def Depth_def go_shr_def)
  qed
qed

lemma pnode_inject:
  assumes "tree_ok t" "on_path (td t) c" "on_path (td t) c'"
  shows "pnode (td t) c = pnode (td t) c' \<longleftrightarrow> c = c'"
proof -
  have "pnode (td t) c = pnode (td t) c' \<longleftrightarrow> (fst c, td t - 1 - snd c) = (fst c', td t - 1 - snd c')"
    unfolding pnode_def using on_path_valid [OF assms(2)] on_path_valid [OF assms(3)] depth_bounds [OF assms(1)]
    by (intro word_node_eq [of "td t"]) simp_all
  then show ?thesis using assms by (auto simp: on_path_def prod_eq_iff)
qed

end
