(* ===== verification/Sync_Laws.thy ===== *)
theory Sync_Laws
  imports Sync_Session Merkle_Paths
begin

text \<open>
  The first half of a sync session between two nodes: while the trees do not change, the initiator goes down from the
  root, level by level, to the nodes of the deepest common level on whose path all hashes differ.
\<close>

section \<open>Runs of a session\<close>

text \<open>The runs of a session that end, without the fuel: the message the initiator receives next, and the final state.\<close>

inductive run ::
  "'a bucket_proxy \<Rightarrow> 'b bucket_proxy \<Rightarrow> sync_message option \<Rightarrow> 'a initiator \<Rightarrow> 'b responder \<Rightarrow> 'a initiator \<times> 'b responder \<Rightarrow> bool"
  for P :: "'a bucket_proxy" and Q :: "'b bucket_proxy" where
  run_end: "NextState P msg i = Some (m, i') \<Longrightarrow> in_state i' = END \<Longrightarrow> run P Q msg i r (i', r)"
| run_step: "NextState P msg i = Some (m, i') \<Longrightarrow> in_state i' \<noteq> END \<Longrightarrow> Responder_NextState Q m r = Some (m', r') \<Longrightarrow>
    run P Q m' i' r' res \<Longrightarrow> run P Q msg i r res"

lemma session_of_run: "run P Q msg i r res \<Longrightarrow> \<exists>n. \<forall>fuel \<ge> n. session P Q fuel msg i r = Some res"
proof (induction rule: run.induct)
  case (run_end msg i m i' r)
  have "session P Q fuel msg i r = Some (i', r)" if "fuel \<ge> 1" for fuel
    using that run_end by (cases fuel) simp_all
  then show ?case by blast
next
  case (run_step msg i m i' r m' r' res)
  then obtain n where n: "\<forall>fuel \<ge> n. session P Q fuel m' i' r' = Some res" by blast
  have "session P Q fuel msg i r = Some res" if "fuel \<ge> Suc n" for fuel
    using that n run_step.hyps by (cases fuel) simp_all
  then show ?case by blast
qed

text \<open>The run from a message of the initiator on ends in a state with the property.\<close>

definition answers ::
  "'a bucket_proxy \<Rightarrow> 'b bucket_proxy \<Rightarrow> sync_message \<Rightarrow> 'a initiator \<Rightarrow> 'b responder \<Rightarrow> ('a initiator \<Rightarrow> 'b responder \<Rightarrow> bool) \<Rightarrow> bool" where
  "answers P Q m i r Post \<longleftrightarrow>
     (\<exists>m' r' res. Responder_NextState Q (Some m) r = Some (m', r') \<and> run P Q m' i r' res \<and> Post (fst res) (snd res))"

lemma answers_end:
  assumes "Responder_NextState Q (Some m) r = Some (m', r')" "NextState P m' i = Some (x, i')" "in_state i' = END" "Post i' r'"
  shows "answers P Q m i r Post"
  unfolding answers_def using assms run_end [OF assms(2,3), of Q r'] by (metis fst_conv snd_conv)

lemma answers_step:
  assumes "Responder_NextState Q (Some m) r = Some (m', r')" "NextState P m' i = Some (Some m2, i')" "in_state i' \<noteq> END"
    "answers P Q m2 i' r' Post"
  shows "answers P Q m i r Post"
  using assms run_step [OF assms(2,3)] unfolding answers_def by blast

section \<open>The nodes where two trees differ\<close>

definition differ :: "merkle_tree \<Rightarrow> merkle_tree \<Rightarrow> nat \<times> nat \<Rightarrow> bool" where
  "differ t t' c \<longleftrightarrow> NodeHash t (pnode (td t) c) \<noteq> NodeHash t' (pnode (td t') c)"

definition children :: "nat \<times> nat \<Rightarrow> (nat \<times> nat) list" where
  "children c = [(2 * fst c, Suc (snd c)), (Suc (2 * fst c), Suc (snd c))]"

text \<open>The nodes of a level with only differing nodes on the way to them, from left to right.\<close>

fun frontier :: "merkle_tree \<Rightarrow> merkle_tree \<Rightarrow> nat \<Rightarrow> (nat \<times> nat) list" where
  "frontier t t' 0 = filter (differ t t') [(0, 0)]"
| "frontier t t' (Suc j) = concat (map (\<lambda>c. filter (differ t t') (children c)) (frontier t t' j))"

lemma children_parent: "c' \<in> set (children c) \<Longrightarrow> fst c' div 2 = fst c \<and> snd c' = Suc (snd c)"
  by (auto simp: children_def)

lemma frontier_level: "c \<in> set (frontier t t' j) \<Longrightarrow> snd c = j \<and> fst c < 2 ^ j"
proof (induction j arbitrary: c)
  case (Suc j)
  then obtain c0 where "c0 \<in> set (frontier t t' j)" "c \<in> set (children c0)" by auto
  with Suc.IH [of c0] children_parent [of c c0] show ?case by auto
qed (auto split: if_splits)

lemma length_frontier: "length (frontier t t' j) \<le> 2 ^ j"
proof (induction j)
  case (Suc j)
  have "length (concat (map (\<lambda>c. filter (differ t t') (children c)) cs)) \<le> 2 * length cs" for cs
    by (induction cs) (auto simp: children_def)
  from this [of "frontier t t' j"] Suc show ?case by simp
qed simp

lemma distinct_children: "distinct cs \<Longrightarrow> distinct (concat (map (\<lambda>c. filter Q (children c)) cs))"
proof (induction cs)
  case (Cons c cs)
  have "c' \<notin> set (concat (map (\<lambda>c. filter Q (children c)) cs))" if "c' \<in> set (children c)" for c'
  proof
    assume "c' \<in> set (concat (map (\<lambda>c. filter Q (children c)) cs))"
    then obtain c0 where "c0 \<in> set cs" "c' \<in> set (children c0)" by auto
    with children_parent [of c' c0] children_parent [OF that] have "c0 = c" by (simp add: prod_eq_iff)
    with Cons.prems \<open>c0 \<in> set cs\<close> show False by simp
  qed
  moreover have "distinct (filter Q (children c))" by (simp add: children_def)
  ultimately show ?case using Cons by auto
qed simp

lemma distinct_frontier: "distinct (frontier t t' j)"
  by (induction j) (simp_all add: distinct_children)

section \<open>The exploration\<close>

lemma hash_halves: "High h' = High h \<and> Low h' = Low h \<longleftrightarrow> h = h'"
  by (cases h, cases h') (auto simp: High_def Low_def)

lemma on_path_mono: "on_path d c \<Longrightarrow> d \<le> d' \<Longrightarrow> on_path d' c"
  by (simp add: on_path_def)

text \<open>Two sessions whose trees are \<open>t\<close> and \<open>t'\<close> while the initiator explores, and the states they pass through.\<close>

definition common :: "merkle_tree \<Rightarrow> merkle_tree \<Rightarrow> nat" where
  "common t t' = min (td t) (td t')"

lemma common_le: "common t t' \<le> td t" "common t t' \<le> td t'"
  by (simp_all add: common_def)

definition exploring :: "merkle_tree \<Rightarrow> merkle_tree \<Rightarrow> 'a initiator \<Rightarrow> 'b responder \<Rightarrow> bool" where
  "exploring t t' i r \<longleftrightarrow> tree_ok t \<and> tree_ok t' \<and> theirDepth i = mt_depth t' \<and> unat (maxDepth i) = common t t'
     \<and> replicatesOutgoing i \<and> 2 ^ common t t' \<le> unat (explorationPathLimit i) \<and> re_theirDepth r = mt_depth t \<and> re_state r = HASH_COMPARE"

definition at :: "'a initiator \<Rightarrow> merkle_tree \<Rightarrow> sync_state \<Rightarrow> (nat \<times> nat) list \<Rightarrow> 'a initiator" where
  "at i t st q = i\<lparr>in_state := st, explorationQueue := map (pnode (td t)) q\<rparr>"

definition hash_question :: "'a initiator \<Rightarrow> merkle_tree \<Rightarrow> nat \<times> nat \<Rightarrow> sync_message" where
  "hash_question i t' c = message (in_sessionID i) SYNC_NODE_HASH (MerkleNodeHash (pnode (td t') c) 0 0)"

definition hash_answer :: "'b responder \<Rightarrow> merkle_tree \<Rightarrow> merkle_tree \<Rightarrow> nat \<times> nat \<Rightarrow> sync_message" where
  "hash_answer r t t' c = message (re_sessionID r) SYNC_NODE_HASH
     (MerkleNodeHash (TranslateNode t' (pnode (td t') c) (mt_depth t)) (High (NodeHash t' (pnode (td t') c))) (Low (NodeHash t' (pnode (td t') c))))"

definition object_question :: "'a initiator \<Rightarrow> merkle_tree \<Rightarrow> nat \<times> nat \<Rightarrow> sync_message" where
  "object_question i t' c = message (in_sessionID i) SYNC_OBJECT_NEXT (ObjectNext (pnode (td t') c))"

lemma at_simps [simp]:
  "in_state (at i t st q) = st" "explorationQueue (at i t st q) = map (pnode (td t)) q" "in_proxy (at i t st q) = in_proxy i"
  "theirDepth (at i t st q) = theirDepth i" "maxDepth (at i t st q) = maxDepth i" "replicatesOutgoing (at i t st q) = replicatesOutgoing i"
  "explorationPathLimit (at i t st q) = explorationPathLimit i" "in_sessionID (at i t st q) = in_sessionID i"
  "(at i t st q)\<lparr>in_state := st'\<rparr> = at i t st' q" "PushExplorationQueue (pnode (td t) c) (at i t st q) = at i t st (q @ [c])"
  "snd (PopExplorationQueue (at i t st (c # q))) = at i t st q" "PeekExplorationQueue (at i t st (c # q)) = pnode (td t) c"
  "ExplorationQueueSize (at i t st q) = of_nat (length q)"
  by (simp_all add: at_def PushExplorationQueue_def PopExplorationQueue_def PeekExplorationQueue_def ExplorationQueueSize_def)

lemma same_hash_answer: "same_hash (hash_answer r t t' c) (NodeHash t (pnode (td t) c)) = Some (\<not> differ t t' c)"
  using hash_halves [of "NodeHash t' (pnode (td t') c)" "NodeHash t (pnode (td t) c)"]
  by (simp add: same_hash_def hash_answer_def message_def differ_def)

locale two_trees =
  fixes P :: "'a bucket_proxy" and f :: "'a \<Rightarrow> merkle_tree" and Q :: "'b bucket_proxy" and g :: "'b \<Rightarrow> merkle_tree"
  assumes trees: "px_Tree P = DirectMerkleTreeProxy f" "px_Tree Q = DirectMerkleTreeProxy g"
begin

lemmas direct = trees DirectMerkleTreeProxy_def

lemma my_hash_direct [simp]: "my_hash P n s = (NodeHash (f (in_proxy s)) n, s)"
  by (simp add: my_hash_def direct)

lemma responder_hash_direct:
  assumes "nodeID < NodeLimit (g (re_proxy r))" "nodeID \<noteq> 0"
  shows "responder_hash Q nodeID r = re_say SYNC_NODE_HASH (MerkleNodeHash (TranslateNode (g (re_proxy r)) nodeID (re_theirDepth r))
    (High (NodeHash (g (re_proxy r)) nodeID)) (Low (NodeHash (g (re_proxy r)) nodeID))) r"
  using assms by (auto simp: responder_hash_def direct not_le [symmetric])

lemma no_tree_error [simp]: "px_Error (px_Tree P) s = False" "px_Error (px_Tree Q) s' = False"
  by (simp_all add: direct)

lemma checked [simp]: "check_tree P x = x" "re_check_tree Q y = y"
  by (simp_all add: check_tree_def re_check_tree_def split: option.split Option.bind_split)

end

context two_trees
begin

lemma responder_answers:
  assumes "exploring t t' i r" "t' = g (re_proxy r)" "on_path (common t t') c"
  shows "Responder_NextState Q (Some (hash_question i t' c)) r = Some (Some (hash_answer r t t' c), r)"
proof -
  have "tree_ok t'" "on_path (td t') c" using assms(1,3) on_path_mono [of "common t t'" c "td t'"] common_le [of t t'] by (auto simp: exploring_def)
  from path_in_tree [OF this] show ?thesis
    using assms(1,2) by (simp add: Responder_NextState_def responder_compare_def hash_question_def hash_answer_def message_def
        responder_hash_direct re_say_def exploring_def)
qed

text \<open>A node of the initiator's queue in the responder's tree.\<close>

lemma their_node_path:
  assumes "exploring t t' i r" "t = f (in_proxy i)" "on_path (common t t') c"
  shows "their_node P (at i t st q) (pnode (td t) c) = pnode (td t') c"
proof -
  obtain k j where c: "c = (k, j)" by fastforce
  have "tree_ok t" "tree_ok t'" "on_path (td t) c" "on_path (td t') c" "theirDepth i = mt_depth t'"
    using assms(1,3) on_path_mono [of "common t t'" c] common_le [of t t'] by (auto simp: exploring_def)
  then show ?thesis using TranslateNode_path [of t k j "mt_depth t'"] depth_bounds [of t'] assms(2)
    by (simp add: their_node_def direct c)
qed

lemma child_nodes:
  assumes "tree_ok t" "t = f (in_proxy i)" "on_path (td t) (k, j)" "Suc j < td t"
  shows "left_child P (at i t st ((k, j) # q)) = pnode (td t) (2 * k, Suc j)"
    "right_child P (at i t st ((k, j) # q)) = pnode (td t) (Suc (2 * k), Suc j)"
  using LeftChild_path [OF assms(1,3,4)] RightChild_path [OF assms(1,3,4)] by (simp_all add: left_child_def right_child_def direct)

lemma at_max_depth_path:
  assumes "exploring t t' i r" "t = f (in_proxy i)" "on_path (common t t') c"
  shows "at_max_depth P (at i t st (c # q)) \<longleftrightarrow> Suc (snd c) = common t t'"
proof -
  have "tree_ok t" "on_path (td t) (fst c, snd c)" "unat (maxDepth i) = common t t'"
    using assms(1,3) on_path_mono [of "common t t'" c] common_le [of t t'] by (auto simp: exploring_def)
  then show ?thesis using Level_path [of t "fst c" "snd c"] assms(2)
    by (simp add: at_max_depth_def direct word_unat_eq_iff)
qed

lemma ask_hash_at:
  assumes "exploring t t' i r" "t = f (in_proxy i)" "on_path (common t t') c"
  shows "ask_hash P (pnode (td t) c) (at i t st q) = Some (Some (hash_question i t' c), at i t st q)"
  using their_node_path [OF assms] by (simp add: ask_hash_def say_def hash_question_def)

lemma ask_objects_at:
  assumes "exploring t t' i r" "t = f (in_proxy i)" "on_path (common t t') c"
  shows "ask_objects P (at i t st (c # q)) = Some (Some (object_question i t' c), at i t st (c # q))"
  using their_node_path [OF assms] by (simp add: ask_objects_def say_def object_question_def)

lemma left_step:
  assumes ex: "exploring t t' i r" "t = f (in_proxy i)" and c: "on_path (common t t') (k, j)" "Suc j < common t t'"
  shows "NextState P (Some (hash_answer r t t' (2 * k, Suc j))) (at i t LEFT_HASH_COMPARE ((k, j) # q))
    = Some (Some (hash_question i t' (Suc (2 * k), Suc j)),
            at i t RIGHT_HASH_COMPARE ((k, j) # q @ filter (differ t t') [(2 * k, Suc j)]))"
proof -
  have t: "tree_ok t" "on_path (td t) (k, j)" "Suc j < td t"
    using ex(1) c on_path_mono [of "common t t'" "(k, j)" "td t"] common_le [of t t'] by (auto simp: exploring_def)
  have kids: "on_path (common t t') (2 * k, Suc j)" "on_path (common t t') (Suc (2 * k), Suc j)" using on_path_children [OF c] by auto
  note child = child_nodes [OF t(1) ex(2) t(2,3)]
  have h: "same_hash (hash_answer r t t' (2 * k, Suc j)) (NodeHash (f (in_proxy i)) (pnode (td t) (2 * k, Suc j)))
      = Some (\<not> differ t t' (2 * k, Suc j))" using same_hash_answer ex(2) by metis
  have msg: "MessageType (hash_answer r t t' c) = SYNC_NODE_HASH" for c by (simp add: hash_answer_def message_def)
  show ?thesis
    using ask_hash_at [OF ex kids(2)] by (simp add: NextState_def initiator_left_def child h msg)
qed

lemma right_step:
  assumes ex: "exploring t t' i r" "t = f (in_proxy i)" and c: "on_path (common t t') (k, j)" "Suc j < common t t'"
    and room: "Suc (length q) \<le> 2 ^ common t t'"
    and q': "q' = q @ filter (differ t t') [(Suc (2 * k), Suc j)]" and paths: "\<forall>c \<in> set q'. on_path (common t t') c"
  shows "NextState P (Some (hash_answer r t t' (Suc (2 * k), Suc j))) (at i t RIGHT_HASH_COMPARE ((k, j) # q))
    = (case q' of
         [] \<Rightarrow> abort (at i t RIGHT_HASH_COMPARE [])
       | c # cs \<Rightarrow>
           if Suc (snd c) = common t t' then Some (Some (object_question i t' c), at i t DB_OBJECT_PUSH q')
           else Some (Some (hash_question i t' (2 * fst c, Suc (snd c))), at i t LEFT_HASH_COMPARE q'))"
proof -
  have t: "tree_ok t" "on_path (td t) (k, j)" "Suc j < td t" "common t t' \<le> 28" "replicatesOutgoing i"
      "2 ^ common t t' \<le> unat (explorationPathLimit i)"
    using ex(1) c on_path_mono [of "common t t'" "(k, j)" "td t"] depth_bounds [of t] common_le [of t t'] by (auto simp: exploring_def)
  have kid: "on_path (common t t') (Suc (2 * k), Suc j)" using on_path_children [OF c] by auto
  note child = child_nodes [OF t(1) ex(2) t(2,3)]
  have h: "same_hash (hash_answer r t t' (Suc (2 * k), Suc j)) (NodeHash (f (in_proxy i)) (pnode (td t) (Suc (2 * k), Suc j)))
      = Some (\<not> differ t t' (Suc (2 * k), Suc j))" using same_hash_answer ex(2) by metis
  have msg: "MessageType (hash_answer r t t' c) = SYNC_NODE_HASH" for c by (simp add: hash_answer_def message_def)
  have "(2 :: nat) ^ common t t' \<le> 2 ^ 28" using t(4) by (intro power_increasing) auto
  then have small: "Suc (length q) \<le> 2 ^ 28" using room by linarith
  have n: "unat (of_nat (Suc (length q)) :: u32) = Suc (length q)"
    by (rule unat_of_nat_u32, rule le_less_trans [OF small]) simp
  have le: "(of_nat (Suc (length q)) :: u32) \<le> explorationPathLimit i"
    using room t(6) unfolding word_le_nat_alt n by linarith
  have len: "length q' \<le> Suc (length q)" by (simp add: q')
  then have size: "(of_nat (length q') :: u32) = 0 \<longleftrightarrow> q' = []"
    using small unat_of_nat_u32 [of "length q'"] by (simp add: unat_eq_0 [symmetric])
  have "NextState P (Some (hash_answer r t t' (Suc (2 * k), Suc j))) (at i t RIGHT_HASH_COMPARE ((k, j) # q))
      = (if q' = [] then abort (at i t RIGHT_HASH_COMPARE q')
         else if at_max_depth P (at i t RIGHT_HASH_COMPARE q') then ask_objects P (at i t DB_OBJECT_PUSH q')
         else ask_hash P (left_child P (at i t RIGHT_HASH_COMPARE q')) (at i t LEFT_HASH_COMPARE q'))"
  proof (cases "differ t t' (Suc (2 * k), Suc j)")
    case True
    then have q2: "q' = q @ [(Suc (2 * k), Suc j)]" by (simp add: q')
    then have "(1 + of_nat (length q) :: u32) \<noteq> 0" using size by simp
    then show ?thesis using le t(5) True by (simp add: NextState_def initiator_right_def child h msg q2 getNodeKeys_def Let_def)
  next
    case False
    then have q2: "q' = q" by (simp add: q')
    then show ?thesis using size t(5) False by (simp add: NextState_def initiator_right_def child h msg getNodeKeys_def Let_def)
  qed
  then show ?thesis
  proof (cases q')
    case (Cons c cs)
    have cp: "on_path (common t t') c" using paths Cons by simp
    show ?thesis
    proof (cases "Suc (snd c) = common t t'")
      case True
      then show ?thesis
        using Cons \<open>NextState P _ _ = _\<close> at_max_depth_path [OF ex cp] ask_objects_at [OF ex cp] by simp
    next
      case False
      then have lt: "Suc (snd c) < common t t'" using cp by (simp add: on_path_def)
      obtain k' j' where c': "c = (k', j')" by fastforce
      have "on_path (td t) c" "Suc (snd c) < td t" using on_path_mono [OF cp common_le(1)] lt common_le(1) [of t t'] by auto
      then have "left_child P (at i t RIGHT_HASH_COMPARE (c # cs)) = pnode (td t) (2 * fst c, Suc (snd c))"
        using child_nodes(1) [OF t(1) ex(2), of k' j'] by (simp add: c')
      moreover have "on_path (common t t') (2 * fst c, Suc (snd c))" using on_path_children [of "common t t'" k' j'] cp lt by (simp add: c')
      ultimately show ?thesis
        using Cons False \<open>NextState P _ _ = _\<close> at_max_depth_path [OF ex cp] ask_hash_at [OF ex] by simp
    qed
  qed simp
qed

text \<open>What is to be shown of the rest of the run when the queue is \<open>q\<close>.\<close>

definition after :: "merkle_tree \<Rightarrow> merkle_tree \<Rightarrow> 'a initiator \<Rightarrow> 'b responder \<Rightarrow> ('a initiator \<Rightarrow> 'b responder \<Rightarrow> bool) \<Rightarrow> (nat \<times> nat) list \<Rightarrow> bool" where
  "after t t' i r Post q \<longleftrightarrow>
     (case q of
        [] \<Rightarrow> Post (at i t END []) r
      | c # cs \<Rightarrow>
          if Suc (snd c) = common t t' then answers P Q (object_question i t' c) (at i t DB_OBJECT_PUSH q) r Post
          else answers P Q (hash_question i t' (2 * fst c, Suc (snd c))) (at i t LEFT_HASH_COMPARE q) r Post)"

lemma round:
  assumes ex: "exploring t t' i r" "t = f (in_proxy i)" "t' = g (re_proxy r)" and c: "on_path (common t t') c" "Suc (snd c) < common t t'"
    and room: "Suc (Suc (length q)) \<le> 2 ^ common t t'" and paths: "\<forall>c \<in> set q. on_path (common t t') c"
    and rest: "after t t' i r Post (q @ filter (differ t t') (children c))"
  shows "answers P Q (hash_question i t' (2 * fst c, Suc (snd c))) (at i t LEFT_HASH_COMPARE (c # q)) r Post"
proof -
  obtain k j where kj: "c = (k, j)" by fastforce
  have kids: "on_path (common t t') (2 * k, Suc j)" "on_path (common t t') (Suc (2 * k), Suc j)"
    using on_path_children c by (auto simp: kj)
  let ?q1 = "q @ filter (differ t t') [(2 * k, Suc j)]" and ?q2 = "q @ filter (differ t t') (children c)"
  have q2: "?q2 = ?q1 @ filter (differ t t') [(Suc (2 * k), Suc j)]" by (simp add: children_def kj)
  have p2: "\<forall>c \<in> set ?q2. on_path (common t t') c" using paths kids by (auto simp: children_def kj)
  have left: "NextState P (Some (hash_answer r t t' (2 * k, Suc j))) (at i t LEFT_HASH_COMPARE ((k, j) # q))
    = Some (Some (hash_question i t' (Suc (2 * k), Suc j)), at i t RIGHT_HASH_COMPARE ((k, j) # ?q1))"
    using left_step [OF ex(1,2)] c by (simp add: kj)
  have "Suc (length ?q1) \<le> 2 ^ common t t'" using room by simp
  note right = right_step [OF ex(1,2) c [unfolded kj snd_conv] this q2 p2]
  have "answers P Q (hash_question i t' (Suc (2 * k), Suc j)) (at i t RIGHT_HASH_COMPARE ((k, j) # ?q1)) r Post"
  proof (cases ?q2)
    case Nil
    then have "NextState P (Some (hash_answer r t t' (Suc (2 * k), Suc j))) (at i t RIGHT_HASH_COMPARE ((k, j) # ?q1))
        = Some (Some (message (in_sessionID i) SYNC_ABORT Abort), at i t END [])" using right by (simp add: abort_def say_def)
    from answers_end [OF responder_answers [OF ex(1,3) kids(2)] this] rest Nil show ?thesis by (simp add: after_def)
  next
    case (Cons c' cs)
    let ?m = "if Suc (snd c') = common t t' then object_question i t' c' else hash_question i t' (2 * fst c', Suc (snd c'))"
      and ?st = "if Suc (snd c') = common t t' then DB_OBJECT_PUSH else LEFT_HASH_COMPARE"
    have "NextState P (Some (hash_answer r t t' (Suc (2 * k), Suc j))) (at i t RIGHT_HASH_COMPARE ((k, j) # ?q1)) = Some (Some ?m, at i t ?st ?q2)"
      using right Cons by simp
    moreover have "in_state (at i t ?st ?q2) \<noteq> END" by simp
    moreover have "answers P Q ?m (at i t ?st ?q2) r Post" using rest Cons by (simp add: after_def split: if_splits)
    ultimately show ?thesis by (rule answers_step [OF responder_answers [OF ex(1,3) kids(2)]])
  qed
  then show ?thesis using answers_step [OF responder_answers [OF ex(1,3) kids(1)] left] by (simp add: kj)
qed

text \<open>A whole level, with the nodes of the next one that are already in the queue behind it.\<close>

lemma level:
  assumes ex: "exploring t t' i r" "t = f (in_proxy i)" "t' = g (re_proxy r)" and j: "Suc j < common t t'"
    and cs: "cs \<noteq> []" "\<forall>c \<in> set cs. snd c = j \<and> on_path (common t t') c" "\<forall>c \<in> set acc. snd c = Suc j \<and> on_path (common t t') c"
    and room: "2 * length cs + length acc \<le> 2 ^ common t t'"
    and rest: "after t t' i r Post (acc @ concat (map (\<lambda>c. filter (differ t t') (children c)) cs))"
  shows "after t t' i r Post (cs @ acc)"
  using cs room rest
proof (induction cs arbitrary: acc)
  case (Cons c cs)
  let ?ds = "filter (differ t t') (children c)"
  have cj: "snd c = j" and c: "on_path (common t t') c" using bspec [OF Cons.prems(2), of c] by simp_all
  then have c: "on_path (common t t') c" "Suc (snd c) < common t t'" "Suc (snd c) \<noteq> common t t'"
    using j less_imp_neq [OF j] unfolding cj by blast+
  have kids: "\<forall>c' \<in> set ?ds. snd c' = Suc j \<and> on_path (common t t') c'"
    using on_path_children [of "common t t'" "fst c" "snd c", unfolded prod.collapse, OF c(1,2)] cj by (auto simp: children_def)
  have ds: "length ?ds \<le> 2" by (simp add: children_def)
  have "after t t' i r Post (cs @ acc @ ?ds)"
  proof (cases "cs = []")
    case True
    then show ?thesis using Cons.prems(5) by simp
  next
    case False
    show ?thesis
    proof (rule Cons.IH [OF False])
      show "\<forall>c \<in> set cs. snd c = j \<and> on_path (common t t') c" using Cons.prems(2) by simp
      show "\<forall>c \<in> set (acc @ ?ds). snd c = Suc j \<and> on_path (common t t') c" using Cons.prems(3) kids by fastforce
      show "2 * length cs + length (acc @ ?ds) \<le> 2 ^ common t t'" using Cons.prems(4) ds unfolding length_append by simp
      show "after t t' i r Post ((acc @ ?ds) @ concat (map (\<lambda>c. filter (differ t t') (children c)) cs))" using Cons.prems(5) by simp
    qed
  qed
  then have "answers P Q (hash_question i t' (2 * fst c, Suc (snd c))) (at i t LEFT_HASH_COMPARE (c # (cs @ acc))) r Post"
  proof (intro round [OF ex c(1,2)])
    show "Suc (Suc (length (cs @ acc))) \<le> 2 ^ common t t'" using Cons.prems(4) by simp
    show "\<forall>c \<in> set (cs @ acc). on_path (common t t') c" using Cons.prems(2,3) by auto
  qed simp
  then show ?case using c(3) by (simp add: after_def)
qed simp

lemma levels:
  assumes ex: "exploring t t' i r" "t = f (in_proxy i)" "t' = g (re_proxy r)"
    and rest: "after t t' i r Post (frontier t t' (common t t' - 1))"
  shows "j < common t t' \<Longrightarrow> after t t' i r Post (frontier t t' j)"
proof (induction "common t t' - 1 - j" arbitrary: j)
  case 0
  then have "j = common t t' - 1" by linarith
  with rest show ?case by simp
next
  case (Suc n)
  then have j: "Suc j < common t t'" by linarith
  have next': "after t t' i r Post (frontier t t' (Suc j))" using Suc.hyps(2) j by (intro Suc.hyps(1)) linarith+
  have lv: "\<forall>c \<in> set (frontier t t' j). snd c = j \<and> on_path (common t t') c"
    using frontier_level j by (fastforce simp: on_path_def)
  show ?case
  proof (cases "frontier t t' j = []")
    case True
    then show ?thesis using next' by simp
  next
    case False
    have "2 * length (frontier t t' j) \<le> 2 ^ Suc j" using length_frontier [of t t' j] by simp
    also have "\<dots> \<le> 2 ^ common t t'" using j by (intro power_increasing) auto
    finally show ?thesis using level [OF ex j False lv, of "[]" Post] next' by simp
  qed
qed

text \<open>The two sides once they have shaken hands.\<close>

definition entered :: "u64 \<Rightarrow> u32 \<Rightarrow> 'a \<Rightarrow> merkle_tree \<Rightarrow> 'a initiator" where
  "entered sid limit a t' = SetResponderDepth (mt_depth t') (NewInitiatorSyncSession P sid a limit True)"

definition entered' :: "u64 \<Rightarrow> 'b \<Rightarrow> merkle_tree \<Rightarrow> 'b responder" where
  "entered' sid b t = (NewResponderSyncSession Q b)\<lparr>re_sessionID := sid, re_theirDepth := mt_depth t, re_state := HASH_COMPARE\<rparr>"

lemma session_start:
  assumes same: "px_MerkleTree P a = a" "px_MerkleTree Q b = b" and t: "tree_ok (f a)" "tree_ok (g b)"
    and limit: "2 ^ common (f a) (g b) \<le> unat limit"
    and equal: "\<not> differ (f a) (g b) (0, 0) \<Longrightarrow> Post (at (entered sid limit a (g b)) (f a) END [(0, 0)]) (entered' sid b (f a))"
    and rest: "differ (f a) (g b) (0, 0) \<Longrightarrow> after (f a) (g b) (entered sid limit a (g b)) (entered' sid b (f a)) Post [(0, 0)]"
  shows "\<exists>res. run P Q None (NewInitiatorSyncSession P sid a limit True) (NewResponderSyncSession Q b) res \<and> Post (fst res) (snd res)"
proof -
  let ?t = "f a" and ?t' = "g b"
  let ?i = "entered sid limit a ?t'" and ?r = "entered' sid b ?t"
  have ex: "exploring ?t ?t' ?i ?r" "?t = f (in_proxy ?i)" "?t' = g (re_proxy ?r)"
    using same t limit by (auto simp: exploring_def entered_def entered'_def SetResponderDepth_def NewInitiatorSyncSession_def
        NewResponderSyncSession_def Let_def direct Depth_def common_def min_def word_less_nat_alt)
  have pos: "0 < common ?t ?t'" using depth_bounds [OF t(1)] depth_bounds [OF t(2)] by (auto simp: common_def)
  have root: "on_path (common ?t ?t') (0, 0)" using pos by simp
  let ?i1 = "(NewInitiatorSyncSession P sid a limit True)\<lparr>in_state := HANDSHAKE\<rparr>"
    and ?hello = "message sid SYNC_START (Start PROTOCOL_VERSION (mt_depth ?t) (px_Name P a))"
    and ?hello' = "message sid SYNC_START (Start PROTOCOL_VERSION (mt_depth ?t') (px_Name Q b))"
    and ?question = "message sid SYNC_NODE_HASH (MerkleNodeHash (pnode (td ?t') (0, 0)) (High (NodeHash ?t (pnode (td ?t) (0, 0)))) (Low (NodeHash ?t (pnode (td ?t) (0, 0)))))"
  have s1: "NextState P None (NewInitiatorSyncSession P sid a limit True) = Some (Some ?hello, ?i1)"
    using same(1) by (simp add: NextState_def initiator_start_def say_def NewInitiatorSyncSession_def Let_def direct Depth_def)
  have r1: "Responder_NextState Q (Some ?hello) (NewResponderSyncSession Q b) = Some (Some ?hello', ?r)"
    using same(2) by (simp add: Responder_NextState_def responder_start_def NewResponderSyncSession_def Let_def re_say_def message_def
        entered'_def direct Depth_def)
  have s2: "NextState P (Some ?hello') ?i1 = Some (Some ?question, at ?i ?t ROOT_HASH_COMPARE [(0, 0)])"
  proof -
    define i1 where "i1 = ?i1"
    have hs: "in_state i1 = HANDSHAKE" "in_proxy (SetResponderDepth d i1) = a" for d
      using same(1) by (simp_all add: i1_def SetResponderDepth_def NewInitiatorSyncSession_def Let_def)
    have enter: "PushExplorationQueue (RootNode ?t) ((SetResponderDepth (mt_depth ?t') i1)\<lparr>in_state := ROOT_HASH_COMPARE\<rparr>)
        = at ?i ?t ROOT_HASH_COMPARE [(0, 0)]"
      using RootNode_path [OF t(1)]
      by (simp add: i1_def at_def entered_def SetResponderDepth_def PushExplorationQueue_def NewInitiatorSyncSession_def Let_def)
    have sid: "in_sessionID ?i = sid" and ip: "in_proxy ?i = a"
      using same(1) by (simp_all add: entered_def SetResponderDepth_def NewInitiatorSyncSession_def Let_def)
    have hello: "MessageType ?hello' = SYNC_START" "MessageBody ?hello' = Start PROTOCOL_VERSION (mt_depth ?t') (px_Name Q b)"
      by (simp_all add: message_def)
    have root_node: "px_RootNode (px_Tree P) a = RootNode ?t" by (simp add: direct)
    have "NextState P (Some ?hello') i1 = initiator_handshake P (Some ?hello') i1" by (simp add: NextState_def hs)
    also have "\<dots> = Some (Some ?question, at ?i ?t ROOT_HASH_COMPARE [(0, 0)])"
      using their_node_path [OF ex(1,2) root, of ROOT_HASH_COMPARE "[(0, 0)]"]
      by (simp add: initiator_handshake_def hello hs root_node enter Let_def say_def sid ip)
    finally show ?thesis by (simp add: i1_def)
  qed
  have r2: "Responder_NextState Q (Some ?question) ?r = Some (Some (hash_answer ?r ?t ?t' (0, 0)), ?r)"
  proof -
    have "on_path (td ?t') (0, 0)" using depth_bounds [OF t(2)] by simp
    moreover have "re_proxy ?r = b" using same(2) by (simp add: entered'_def NewResponderSyncSession_def Let_def)
    ultimately show ?thesis
      using path_in_tree [OF t(2)] ex(1) by (simp add: Responder_NextState_def responder_compare_def hash_answer_def message_def responder_hash_direct re_say_def exploring_def)
  qed
  have s3: "NextState P (Some (hash_answer ?r ?t ?t' (0, 0))) (at ?i ?t ROOT_HASH_COMPARE [(0, 0)])
      = (if \<not> differ ?t ?t' (0, 0) then abort (at ?i ?t ROOT_HASH_COMPARE [(0, 0)])
         else if \<not> at_max_depth P (at ?i ?t ROOT_HASH_COMPARE [(0, 0)])
           then ask_hash P (left_child P (at ?i ?t ROOT_HASH_COMPARE [(0, 0)])) (at ?i ?t LEFT_HASH_COMPARE [(0, 0)])
         else ask_objects P (at ?i ?t DB_OBJECT_PUSH [(0, 0)]))"
  proof -
    have "same_hash (hash_answer ?r ?t ?t' (0, 0)) (NodeHash (f (in_proxy ?i)) (pnode (td ?t) (0, 0))) = Some (\<not> differ ?t ?t' (0, 0))"
      using same_hash_answer ex(2) by metis
    moreover have "MessageType (hash_answer ?r ?t ?t' (0, 0)) = SYNC_NODE_HASH" by (simp add: hash_answer_def message_def)
    ultimately show ?thesis by (simp add: NextState_def initiator_root_def)
  qed
  have "answers P Q ?question (at ?i ?t ROOT_HASH_COMPARE [(0, 0)]) ?r Post"
  proof (cases "differ ?t ?t' (0, 0)")
    case False
    then have "NextState P (Some (hash_answer ?r ?t ?t' (0, 0))) (at ?i ?t ROOT_HASH_COMPARE [(0, 0)])
        = Some (Some (message (in_sessionID ?i) SYNC_ABORT Abort), at ?i ?t END [(0, 0)])" using s3 by (simp add: abort_def say_def)
    from answers_end [OF r2 this] equal [OF False] show ?thesis by simp
  next
    case True
    note rest = rest [OF True]
    show ?thesis
    proof (cases "Suc 0 = common ?t ?t'")
      case deep: True
      then have "NextState P (Some (hash_answer ?r ?t ?t' (0, 0))) (at ?i ?t ROOT_HASH_COMPARE [(0, 0)])
          = Some (Some (object_question ?i ?t' (0, 0)), at ?i ?t DB_OBJECT_PUSH [(0, 0)])"
        using s3 True at_max_depth_path [OF ex(1,2) root] ask_objects_at [OF ex(1,2) root] by simp
      from answers_step [OF r2 this] rest deep show ?thesis by (simp add: after_def)
    next
      case False
      then have lt: "Suc 0 < common ?t ?t'" using pos by simp
      have "left_child P (at ?i ?t ROOT_HASH_COMPARE [(0, 0)]) = pnode (td ?t) (0, Suc 0)"
        using child_nodes(1) [OF t(1) ex(2), of 0 0] lt common_le(1) [of ?t ?t'] by simp
      moreover have "on_path (common ?t ?t') (0, Suc 0)" using lt by (simp add: on_path_def)
      ultimately have "NextState P (Some (hash_answer ?r ?t ?t' (0, 0))) (at ?i ?t ROOT_HASH_COMPARE [(0, 0)])
          = Some (Some (hash_question ?i ?t' (0, Suc 0)), at ?i ?t LEFT_HASH_COMPARE [(0, 0)])"
        using s3 True False at_max_depth_path [OF ex(1,2) root] ask_hash_at [OF ex(1,2)] by simp
      from answers_step [OF r2 this] rest False show ?thesis by (simp add: after_def)
    qed
  qed
  then obtain m' r' res where res: "Responder_NextState Q (Some ?question) ?r = Some (m', r')"
      "run P Q m' (at ?i ?t ROOT_HASH_COMPARE [(0, 0)]) r' res" "Post (fst res) (snd res)" unfolding answers_def by blast
  have "run P Q (Some ?hello') ?i1 ?r res" by (rule run_step [OF s2 _ res(1,2)]) simp
  then have "run P Q None (NewInitiatorSyncSession P sid a limit True) (NewResponderSyncSession Q b) res"
    by (rule run_step [OF s1 _ r1, rotated]) simp
  with res(3) show ?thesis by blast
qed

end

text \<open>The bucket proxies of a relay.\<close>

interpretation relay: two_trees "RelayBucketProxy DA" "\<lambda>b. merkleTree (bk_store b)" "RelayBucketProxy DB" "\<lambda>b. merkleTree (bk_store b)"
  for DA :: "'a kv" and DB :: "'b kv"
  by unfold_locales (simp_all add: RelayBucketProxy_def)

end
