(* ===== verification/Store_Laws.thy ===== *)
theory Store_Laws
  imports Store_Maintenance Merkle_Properties
begin

text \<open>
  The database a store represents, the invariant that ties the storage, the Merkle tree and the row counter
  together, and the contents of the batches the store writes.
\<close>

section \<open>Keys\<close>

lemma nodeBytes_inject [simp]: "nodeBytes m = nodeBytes n \<longleftrightarrow> m = n"
  unfolding nodeBytes_def by (metis get_put_be32)

lemma length_nodeBytes [simp]: "length (nodeBytes n) = 4"
  by (simp add: nodeBytes_def)

lemma nodeBytes_append [simp]: "nodeBytes m @ k = nodeBytes n @ l \<longleftrightarrow> m = n \<and> k = l"
  by (subst append_eq_append_conv) auto

lemma encode_simps:
  "encodePartitionDataKey k = 2 # k"
  "encodeMerkleLeafKey n = 0 # nodeBytes n"
  "encodePartitionMerkleLeafKey n k = 1 # nodeBytes n @ k"
  by (simp_all add: encodePartitionDataKey_def encodeMerkleLeafKey_def encodePartitionMerkleLeafKey_def prefix_defs)

lemma encode_inject [simp]:
  "encodePartitionDataKey k = encodePartitionDataKey l \<longleftrightarrow> k = l"
  "encodeMerkleLeafKey m = encodeMerkleLeafKey n \<longleftrightarrow> m = n"
  "encodePartitionMerkleLeafKey m k = encodePartitionMerkleLeafKey n l \<longleftrightarrow> m = n \<and> k = l"
  by (simp_all add: encode_simps)

lemma encode_disjoint [simp]:
  "encodePartitionDataKey k \<noteq> encodeMerkleLeafKey n"
  "encodeMerkleLeafKey n \<noteq> encodePartitionDataKey k"
  "encodePartitionDataKey k \<noteq> encodePartitionMerkleLeafKey n l"
  "encodePartitionMerkleLeafKey n l \<noteq> encodePartitionDataKey k"
  "encodeMerkleLeafKey m \<noteq> encodePartitionMerkleLeafKey n l"
  "encodePartitionMerkleLeafKey n l \<noteq> encodeMerkleLeafKey m"
  by (simp_all add: encode_simps)

lemma encode_short [simp]:
  "1 # r \<noteq> encodePartitionDataKey k" "encodePartitionDataKey k \<noteq> 1 # r" "1 # r \<noteq> encodeMerkleLeafKey n" "encodeMerkleLeafKey n \<noteq> 1 # r"
  "length r < 4 \<Longrightarrow> 1 # r \<noteq> encodePartitionMerkleLeafKey n k" "length r < 4 \<Longrightarrow> encodePartitionMerkleLeafKey n k \<noteq> 1 # r"
  by (auto simp: encode_simps nodeBytes_def)

lemma decode_encode [simp]:
  "decodePartitionDataKey (encodePartitionDataKey k) = k"
  "decodeMerkleLeafKey (encodeMerkleLeafKey n) = Some (Inr n)"
  "k \<noteq> [] \<Longrightarrow> decodePartitionMerkleLeafKey (encodePartitionMerkleLeafKey n k) = Inr (n, k)"
  by (simp_all add: encode_simps decodePartitionDataKey_def decodeMerkleLeafKey_def decodePartitionMerkleLeafKey_def
      prefix_defs nodeBytes_def Suc_le_eq)

section \<open>Batches as lists of puts\<close>

definition put_all :: "(bytes \<times> 'v) list \<Rightarrow> 'v batch \<Rightarrow> 'v batch" where
  "put_all kvs b = foldl (\<lambda>b (k, v). Batch_Put k v b) b kvs"

lemma put_all_simps [simp]:
  "put_all [] b = b"
  "put_all ((k, v) # kvs) b = put_all kvs (Batch_Put k v b)"
  "put_all (xs @ ys) b = put_all ys (put_all xs b)"
  by (simp_all add: put_all_def)

lemma wf_put_all [simp]: "wf_batch b \<Longrightarrow> wf_batch (put_all kvs b)"
  by (induction kvs arbitrary: b) auto

lemma apply_put_all: "apply_batch (put_all kvs b) m = apply_batch b m ++ map_of (rev kvs)"
  by (induction kvs arbitrary: b) (auto simp: map_add_def fun_eq_iff split: option.split)

lemma apply_put_all_other: "x \<notin> fst ` set kvs \<Longrightarrow> apply_batch (put_all kvs b) m x = apply_batch b m x"
  by (simp add: apply_put_all map_add_def map_of_eq_None_iff [THEN iffD2] split: option.split)

lemma apply_put_all_at:
  assumes "(x, v) \<in> set kvs" "\<And>w. (x, w) \<in> set kvs \<Longrightarrow> w = v"
  shows "apply_batch (put_all kvs b) m x = Some v"
proof -
  obtain w where w: "map_of (rev kvs) x = Some w"
    using assms(1) by (metis map_of_eq_None_iff not_Some_eq image_eqI fst_conv set_rev)
  then have "(x, w) \<in> set kvs" by (auto dest: map_of_SomeD)
  then show ?thesis using assms(2) w by (simp add: apply_put_all)
qed

definition index_puts :: "u32 \<Rightarrow> string list \<Rightarrow> (bytes \<times> stored) list" where
  "index_puts leafID keys = map (\<lambda>key. (encodePartitionMerkleLeafKey leafID (bytes_of_string key), StoredBytes [])) keys"

lemma index_ops_puts: "index_ops leafID keys b = put_all (index_puts leafID keys) b"
  by (induction keys arbitrary: b) (auto simp: index_ops_def index_puts_def)

definition leaf_puts :: "merkle_tree \<Rightarrow> object_hashes \<Rightarrow> update \<Rightarrow> (bytes \<times> stored) list" where
  "leaf_puts tree oh u = concat (map (\<lambda>leafID.
     (encodeMerkleLeafKey leafID, StoredBytes (Hash_Bytes (NodeHash tree leafID))) # index_puts leafID (leaf_keys oh leafID u))
     (leaf_ids oh tree u))"

lemma leaf_ops_puts: "leaf_ops tree oh u = put_all (leaf_puts tree oh u) NewBatch"
proof -
  have "foldl (\<lambda>b leafID. index_ops leafID (ks leafID) (Batch_Put (encodeMerkleLeafKey leafID) (v leafID) b)) b ids
      = put_all (concat (map (\<lambda>leafID. (encodeMerkleLeafKey leafID, v leafID) # index_puts leafID (ks leafID)) ids)) b" for ks v b ids
    by (induction ids arbitrary: b) (simp_all add: index_ops_puts)
  then show ?thesis by (simp add: leaf_ops_def leaf_puts_def)
qed

definition diff_row :: "diff \<Rightarrow> u64 \<Rightarrow> row" where
  "diff_row df n = \<lparr>row_Key = Key df, LocalVersion = n, Siblings = NewSiblingSet_of df\<rparr>"

fun numbered_rows :: "diff list \<Rightarrow> u64 \<Rightarrow> row list" where
  "numbered_rows [] n = []"
| "numbered_rows (df # dfs) n = diff_row df n # numbered_rows dfs (n + 1)"

definition row_puts :: "row list \<Rightarrow> (bytes \<times> stored) list" where
  "row_puts rows = map (\<lambda>r. (encodePartitionDataKey (bytes_of_string (row_Key r)), Row_Encode r)) rows"

lemma row_ops_puts: "row_ops dfs n b = (put_all (row_puts (numbered_rows dfs n)) b, numbered_rows dfs n)"
  by (induction dfs n b rule: row_ops.induct) (simp_all add: Let_def row_puts_def diff_row_def)

lemma numbered_rows_nth: "i < length dfs \<Longrightarrow> numbered_rows dfs n ! i = diff_row (dfs ! i) (n + of_nat i)"
proof (induction dfs arbitrary: n i)
  case (Cons df dfs)
  then show ?case by (cases i) (simp_all add: add.assoc)
qed simp

lemma length_numbered_rows [simp]: "length (numbered_rows dfs n) = length dfs"
  by (induction dfs arbitrary: n) auto

lemma numbered_rows_keys: "map row_Key (numbered_rows dfs n) = map Key dfs"
  by (induction dfs arbitrary: n) (auto simp: diff_row_def)

lemma Store_batch_eq:
  "Store_batch u st = map_option (\<lambda>(_, oh, tree).
     (put_all (leaf_puts tree oh u @ row_puts (numbered_rows (Update_Iter u) (nextRowID st))) NewBatch,
      numbered_rows (Update_Iter u) (nextRowID st), st\<lparr>merkleTree := tree, nextRowID := nextRowID st + of_nat (Update_Size u)\<rparr>))
     (Tree_Update (merkleTree st) u)"
  by (simp add: Store_batch_def row_ops_puts leaf_ops_puts Let_def split_def)

section \<open>The leaves and index entries of an update\<close>

lemma Tree_LeafNode_key: "Tree_LeafNode t (bytes_of_string key) = key_leaf (mt_depth t) key"
  by (simp add: Tree_LeafNode_def key_leaf_def)

lemma put_object_hash_None: "put_object_hash oh n key h n' = None \<longleftrightarrow> oh n' = None \<and> n' \<noteq> n"
  by (auto simp: put_object_hash_def Let_def)

lemma noted_leaves:
  "fold (note_hash d) dfs oh n = None \<longleftrightarrow> oh n = None \<and> n \<notin> (\<lambda>df. key_leaf d (diff_key df)) ` set dfs"
  by (induction dfs arbitrary: oh) (auto simp: note_hash_def put_object_hash_None)

lemma noted_keys:
  "lookup_hash (fold (note_hash d) dfs oh) n key \<noteq> None \<longleftrightarrow>
     lookup_hash oh n key \<noteq> None \<or> (key \<in> diff_key ` set dfs \<and> n = key_leaf d key)"
proof (induction dfs arbitrary: oh)
  case (Cons df dfs)
  have "lookup_hash (note_hash d df oh) n key \<noteq> None \<longleftrightarrow>
      lookup_hash oh n key \<noteq> None \<or> (key = diff_key df \<and> n = key_leaf d key)"
    by (auto simp: note_hash_def lookup_put)
  with Cons.IH [of "note_hash d df oh"] show ?case by auto
qed simp

abbreviation update_hashes :: "merkle_tree \<Rightarrow> update \<Rightarrow> object_hashes" where
  "update_hashes t u \<equiv> fold (note_hash (mt_depth t)) (Update_Iter u) Map.empty"

lemma set_leaf_ids: "set (leaf_ids (update_hashes t u) t u) = (\<lambda>df. key_leaf (mt_depth t) (diff_key df)) ` set (Update_Iter u)"
  using noted_leaves [of "mt_depth t" "Update_Iter u" Map.empty] by (auto simp: leaf_ids_def Tree_LeafNode_key Key_def)

lemma lookup_empty [simp]: "lookup_hash Map.empty n key = None"
  by (simp add: lookup_hash_def)

lemma set_leaf_keys:
  "set (leaf_keys (update_hashes t u) n u) = {key \<in> diff_key ` set (Update_Iter u). n = key_leaf (mt_depth t) key}"
proof -
  have "lookup_hash (update_hashes t u) n key \<noteq> None \<longleftrightarrow> key \<in> diff_key ` set (Update_Iter u) \<and> n = key_leaf (mt_depth t) key" for key
    unfolding noted_keys by simp
  then show ?thesis unfolding leaf_keys_def by (auto simp: Key_def)
qed

lemma set_leaf_puts:
  assumes "mt_depth t' = mt_depth t"
  shows "set (leaf_puts t' (update_hashes t u) u) =
    (\<lambda>n. (encodeMerkleLeafKey n, StoredBytes (Hash_Bytes (NodeHash t' n)))) ` (\<lambda>df. key_leaf (mt_depth t) (diff_key df)) ` set (Update_Iter u)
    \<union> (\<lambda>df. (encodePartitionMerkleLeafKey (key_leaf (mt_depth t) (diff_key df)) (bytes_of_string (diff_key df)), StoredBytes [])) ` set (Update_Iter u)"
proof -
  have oh: "update_hashes t' u = update_hashes t u" using assms by simp
  have ids: "set (leaf_ids (update_hashes t u) t' u) = (\<lambda>df. key_leaf (mt_depth t) (diff_key df)) ` set (Update_Iter u)"
    using set_leaf_ids [of t' u] assms by simp
  show ?thesis unfolding leaf_puts_def index_puts_def
    by (auto simp: ids set_leaf_keys image_iff)
qed

lemma set_row_puts: "set (row_puts rows) = (\<lambda>r. (encodePartitionDataKey (bytes_of_string (row_Key r)), Row_Encode r)) ` set rows"
  by (simp add: row_puts_def)

section \<open>The database of a store and its invariant\<close>

text \<open>
  The sibling lists the rows of a driver's contents denote, and the same as a database of sibling sets, for the
  Merkle tree. The addresses of the siblings do not matter to object hashes.
\<close>

definition data_of :: "stored contents \<Rightarrow> string \<Rightarrow> sibling list option" where
  "data_of c key =
     (case c (encodePartitionDataKey (bytes_of_string key)) of Some (StoredRow k ver sso) \<Rightarrow> sso | _ \<Rightarrow> None)"

definition db_of :: "stored contents \<Rightarrow> database" where
  "db_of c key = map_option (\<lambda>ss. fst (UnmarshalJSON 0 ss)) (data_of c key)"

definition rows_ok :: "stored contents \<Rightarrow> u64 \<Rightarrow> bool" where
  "rows_ok c n \<longleftrightarrow> (\<forall>k v. c (encodePartitionDataKey k) = Some v \<longrightarrow>
     k \<noteq> [] \<and> (\<exists>key ver ss. v = StoredRow key ver (Some ss) \<and> ver < n))"

definition index_ok :: "merkle_tree \<Rightarrow> stored contents \<Rightarrow> bool" where
  "index_ok t c \<longleftrightarrow> (\<forall>n k. n < NodeLimit t \<longrightarrow>
     (c (encodePartitionMerkleLeafKey n k) \<noteq> None \<longleftrightarrow> n = Tree_LeafNode t k \<and> c (encodePartitionDataKey k) \<noteq> None))
     \<and> (\<forall>r. length r < 4 \<longrightarrow> c (1 # r) = None)"

definition leaves_ok :: "merkle_tree \<Rightarrow> stored contents \<Rightarrow> bool" where
  "leaves_ok t c \<longleftrightarrow>
     (\<forall>n. IsLeaf t n \<longrightarrow> c (encodeMerkleLeafKey n) = Some (StoredBytes (Hash_Bytes (NodeHash t n)))
        \<or> c (encodeMerkleLeafKey n) = None \<and> NodeHash t n = zero_hash)
     \<and> (\<forall>k. c (0 # k) \<noteq> None \<longrightarrow> (\<exists>n. IsLeaf t n \<and> k = nodeBytes n))"

definition store_ok :: "('s \<Rightarrow> stored contents) \<Rightarrow> 's store \<Rightarrow> bool" where
  "store_ok C st \<longleftrightarrow> storageFormatVersion st = StorageFormatVersion
     \<and> represents (merkleTree st) (db_of (C (storageDriver st)))
     \<and> rows_ok (C (storageDriver st)) (nextRowID st)
     \<and> index_ok (merkleTree st) (C (storageDriver st))
     \<and> leaves_ok (merkleTree st) (C (storageDriver st))"

lemma dom_db_of: "dom (db_of c) = dom (data_of c)"
  by (auto simp: db_of_def)

lemma hash_of_list: "SiblingSet_Hash (Some ss) key = SiblingSet_Hash (Some ss') key" if "map snd ss = map snd ss'"
proof -
  let ?f = "\<lambda>xs. foldl (\<lambda>h s. Xor h (Sibling_Hash (Some s))) zero_hash xs"
  have "foldl (\<lambda>h p. Xor h (Sibling_Hash (Some (snd p)))) zero_hash xs = ?f (map snd xs)" for xs :: sibling_set
    by (rule foldl_map [symmetric])
  then show ?thesis unfolding SiblingSet_Hash_def option.case using that by metis
qed

lemma SiblingSet_Hash_marshal:
  assumes "map_option MarshalJSON a = map_option MarshalJSON b"
  shows "SiblingSet_Hash a key = SiblingSet_Hash b key"
  using assms by (cases a; cases b) (auto simp: MarshalJSON_def intro: hash_of_list)

lemma SiblingSet_Hash_empty [simp]: "SiblingSet_Hash (Some []) key = zero_hash"
  by (rule SiblingSet_Hash_tombstones) simp

text \<open>Only the object hashes of a database matter to the tree.\<close>

lemma represents_cong:
  assumes rep: "represents t D" and fin: "finite (dom D')" and eq: "\<And>key. obj_hash D' key = obj_hash D key"
  shows "represents t D'"
proof -
  have finD: "finite (dom D)" using rep by (simp add: represents_def)
  have "hxs.F (obj_hash D') {key \<in> dom D'. P key} = hxs.F (obj_hash D) {key \<in> dom D. P key}" for P
  proof -
    let ?B = "{key \<in> dom D \<union> dom D'. P key}"
    have "hxs.F (obj_hash D') {key \<in> dom D'. P key} = hxs.F (obj_hash D') ?B"
      using fin finD by (intro obj_hash_superset) auto
    also have "\<dots> = hxs.F (obj_hash D) ?B" by (simp add: eq)
    also have "\<dots> = hxs.F (obj_hash D) {key \<in> dom D. P key}"
      using fin finD by (intro obj_hash_superset [symmetric]) auto
    finally show ?thesis .
  qed
  with rep fin show ?thesis by (simp add: represents_def)
qed

lemma IsLeaf_iff:
  assumes "tree_ok t"
  shows "IsLeaf t n \<longleftrightarrow> odd (unat n) \<and> unat n < 2 ^ td t"
proof -
  have "go_shl 1 (ucast (mt_depth t)) = (of_nat (2 ^ td t) :: u32)"
    using assms by (simp add: go_shl_def tree_ok_def push_bit_eq_mult)
  moreover have "unat (of_nat (2 ^ td t) :: u32) = 2 ^ td t"
    using node_limit [OF assms] assms unfolding tree_ok_def by metis
  moreover have "n AND 1 = 1 \<longleftrightarrow> unat (n mod 2) = 1"
    by (simp add: and_one_eq word_unat_eq_iff)
  moreover have "unat (n mod 2) = 1 \<longleftrightarrow> odd (unat n)"
    unfolding unat_mod by (simp add: odd_iff_mod_2_eq_one)
  ultimately show ?thesis by (simp add: IsLeaf_def Depth_def word_less_nat_alt)
qed

lemma IsLeaf_coord: "tree_ok t \<Longrightarrow> IsLeaf t n \<Longrightarrow> \<exists>k. n = word_node (k, 0) \<and> valid_node (td t) (k, 0)"
  by (intro odd_is_leaf) (simp_all add: IsLeaf_iff)

lemma IsLeaf_key_leaf [simp]: "tree_ok t \<Longrightarrow> IsLeaf t (key_leaf (mt_depth t) key)"
  using LeafNode_nat [of "mt_depth t" "NewHash (bytes_of_string key)"] by (simp add: IsLeaf_iff tree_ok_def key_leaf_def)

lemma IsLeaf_depth: "mt_depth t' = mt_depth t \<Longrightarrow> IsLeaf t' n = IsLeaf t n"
  by (simp add: IsLeaf_def Depth_def)

lemma Tree_LeafNode_depth: "mt_depth t' = mt_depth t \<Longrightarrow> Tree_LeafNode t' k = Tree_LeafNode t k"
  by (simp add: Tree_LeafNode_def)

lemma NodeLimit_depth: "tree_ok t \<Longrightarrow> tree_ok t' \<Longrightarrow> mt_depth t' = mt_depth t \<Longrightarrow> NodeLimit t' = NodeLimit t"
  by (simp add: node_limit tree_ok_def)

lemma untouched_leaf:
  assumes t: "tree_ok t" and t': "tree_ok t'" and n: "IsLeaf t n"
    and rep: "repaired (set (leaf_coords (mt_depth t) dfs)) (t\<lparr>mt_nodes := fold (add_leaf (mt_depth t)) dfs (mt_nodes t)\<rparr>) t'"
    and no: "n \<notin> (\<lambda>df. key_leaf (mt_depth t) (diff_key df)) ` set dfs"
  shows "NodeHash t' n = NodeHash t n"
proof -
  obtain j where j: "n = word_node (j, 0)" "valid_node (td t) (j, 0)" using IsLeaf_coord [OF t n] by blast
  have d: "mt_depth t' = mt_depth t" using repaired_simps(1) [OF rep] by simp
  have "(j, 0) \<notin> set (leaf_coords (mt_depth t) dfs)"
  proof
    assume "(j, 0) \<in> set (leaf_coords (mt_depth t) dfs)"
    then obtain df where "df \<in> set dfs" "j = leaf_idx (mt_depth t) (diff_key df)" by (auto simp: leaf_coords_def)
    then have "n = key_leaf (mt_depth t) (diff_key df)" using j(1) leaf_idx [OF t, of "diff_key df"] by simp
    with \<open>df \<in> set dfs\<close> no show False by blast
  qed
  then have "node_at (fold (add_leaf (mt_depth t)) dfs (mt_nodes t)) (j, 0) = node_at (mt_nodes t) (j, 0)"
    by (rule unvisited_leaf_unchanged [OF t j(2)])
  moreover have "node_at (mt_nodes t') (j, 0) = node_at (fold (add_leaf (mt_depth t)) dfs (mt_nodes t)) (j, 0)"
    using repaired_simps(3) [OF rep, of j] by simp
  ultimately show ?thesis using NodeHash_node [OF t j(2)] NodeHash_node [OF t', of "(j, 0)"] j d by simp
qed

section \<open>The effect of writing an update\<close>

text \<open>
  An update a store may write: no empty key, a new sibling set for every key, and old ones that hash as the
  stored ones do (an absent key may be given as the empty set).
\<close>

definition usable_update :: "stored contents \<Rightarrow> update \<Rightarrow> bool" where
  "usable_update c u \<longleftrightarrow> wf_update u \<and> length u < 2 ^ 31 \<and> (\<forall>(key, df) \<in> set u. key \<noteq> '''' \<and> diff_new df \<noteq> None
     \<and> SiblingSet_Hash (diff_old df) (bytes_of_string key) = obj_hash (db_of c) key)"

definition data_update :: "update \<Rightarrow> (string \<Rightarrow> sibling list option) \<Rightarrow> string \<Rightarrow> sibling list option" where
  "data_update u d key = (case map_of u key of None \<Rightarrow> d key | Some df \<Rightarrow> map_option MarshalJSON (diff_new df))"

lemma obj_hash_db_of:
  assumes "data_of c key = map_option MarshalJSON sso"
  shows "obj_hash (db_of c) key = SiblingSet_Hash sso (bytes_of_string key)"
  unfolding obj_hash_def using assms
  by (intro SiblingSet_Hash_marshal) (simp add: db_of_def option.map_comp comp_def)

lemma finite_data_update: "finite (dom d) \<Longrightarrow> finite (dom (data_update u d))"
proof (rule finite_subset)
  show "dom (data_update u d) \<subseteq> dom d \<union> dom (map_of u)" by (auto simp: data_update_def split: option.splits)
qed (simp add: finite_dom_map_of)

lemma tree_after_update:
  assumes rep: "represents t (db_of c)" and u: "usable_update c u" and c': "data_of c' = data_update u (data_of c)"
  shows "\<exists>m t'. Tree_Update t u = Some (m, update_hashes t u, t') \<and> represents t' (db_of c')
    \<and> repaired (set (leaf_coords (mt_depth t) (Update_Iter u))) (t\<lparr>mt_nodes := fold (add_leaf (mt_depth t)) (Update_Iter u) (mt_nodes t)\<rparr>) t'"
proof -
  define D where "D key = (case map_of u key of None \<Rightarrow> db_of c key | Some df \<Rightarrow> diff_old df)" for key
  have wf: "wf_update u" and len: "length u < 2 ^ 31" using u by (auto simp: usable_update_def)
  have at: "map_of u key = Some df \<longleftrightarrow> (key, df) \<in> set u" for key df
    using wf by (simp add: wf_update_def)
  have old: "obj_hash D key = obj_hash (db_of c) key" for key
    using u at by (fastforce simp: D_def obj_hash_def usable_update_def split: option.split)
  have "dom D \<subseteq> dom (db_of c) \<union> dom (map_of u)" by (auto simp: D_def split: option.splits)
  then have "finite (dom D)" using rep by (rule_tac finite_subset) (auto simp: represents_def finite_dom_map_of)
  then have rD: "represents t D" by (rule represents_cong [OF rep]) (rule old)
  have "update_of D u" unfolding update_of_def
  proof (intro conjI ballI)
    fix x assume "x \<in> set u"
    moreover obtain key df where "x = (key, df)" by fastforce
    ultimately show "case x of (key, df) \<Rightarrow> diff_old df = D key" using at [of key df] by (simp add: D_def)
  qed (use wf len in auto)
  obtain t' where t': "Tree_Update t u = Some (\<lambda>n. if n \<in> word_node ` ancestors_of (td t) (set (leaf_coords (mt_depth t) (Update_Iter u))) then Some True else None,
            update_hashes t u, t')"
      "repaired (set (leaf_coords (mt_depth t) (Update_Iter u))) (t\<lparr>mt_nodes := fold (add_leaf (mt_depth t)) (Update_Iter u) (mt_nodes t)\<rparr>) t'"
    using Tree_Update_returns [of t u] rD len by (auto simp: represents_def)
  have rD': "represents t' (apply_update D u)" by (rule represents_Update [OF rD \<open>update_of D u\<close> t'(2)])
  have hash: "obj_hash (db_of c') key = obj_hash (apply_update D u) key" for key
  proof (cases "map_of u key")
    case None
    then show ?thesis by (simp add: c' db_of_def data_update_def obj_hash_def apply_update_def D_def)
  next
    case (Some df)
    then have "data_of c' key = map_option MarshalJSON (diff_new df)" by (simp add: c' data_update_def)
    then show ?thesis using Some by (simp add: obj_hash_db_of) (simp add: obj_hash_def apply_update_def)
  qed
  have "finite (dom (db_of c'))"
    using rep unfolding dom_db_of c' by (intro finite_data_update) (simp add: represents_def dom_db_of)
  then have "represents t' (db_of c')" by (rule represents_cong [OF rD']) (rule hash)
  with t' show ?thesis by blast
qed

definition written :: "merkle_tree \<Rightarrow> object_hashes \<Rightarrow> update \<Rightarrow> u64 \<Rightarrow> stored contents \<Rightarrow> stored contents" where
  "written t oh u n c = apply_batch (put_all (leaf_puts t oh u @ row_puts (numbered_rows (Update_Iter u) n)) NewBatch) c"

lemma fst_row_puts: "fst ` set (row_puts (numbered_rows dfs n)) = (\<lambda>df. encodePartitionDataKey (bytes_of_string (Key df))) ` set dfs"
proof -
  have "fst ` set (row_puts (numbered_rows dfs n)) = (\<lambda>k. encodePartitionDataKey (bytes_of_string k)) ` set (map row_Key (numbered_rows dfs n))"
    by (auto simp: row_puts_def image_image)
  then show ?thesis by (simp add: numbered_rows_keys image_image)
qed

lemma written_leaf_side:
  assumes "\<And>k. x \<noteq> encodePartitionDataKey k"
  shows "written t oh u n c x = apply_batch (put_all (leaf_puts t oh u) NewBatch) c x"
proof -
  have "x \<notin> fst ` set (row_puts (numbered_rows (Update_Iter u) n))" using assms by (auto simp: fst_row_puts)
  then show ?thesis by (simp add: written_def apply_put_all_other)
qed

lemma written_row:
  assumes "wf_update u" "map_of u key = Some df"
  shows "\<exists>i < length u. written t oh u n c (encodePartitionDataKey (bytes_of_string key)) = Some (Row_Encode (diff_row df (n + of_nat i)))"
proof -
  let ?rows = "numbered_rows (Update_Iter u) n"
  have df: "df \<in> set (Update_Iter u)" "Key df = key"
    using assms map_of_SomeD [OF assms(2)] by (force simp: Update_Iter_def Key_def wf_update_def)+
  then obtain i where i: "i < length u" "Update_Iter u ! i = df" by (auto simp: in_set_conv_nth Update_Iter_def)
  then have r: "?rows ! i = diff_row df (n + of_nat i)" "i < length ?rows"
    by (simp_all add: numbered_rows_nth Update_Iter_def)
  have dist: "distinct (map row_Key ?rows)"
    using distinct_Iter_keys [OF assms(1)] unfolding numbered_rows_keys Key_def [abs_def] .
  have "w = Row_Encode (?rows ! i)" if w: "(encodePartitionDataKey (bytes_of_string key), w) \<in> set (row_puts ?rows)" for w
  proof -
    obtain r' where "r' \<in> set ?rows" "row_Key r' = key" "w = Row_Encode r'" using w by (auto simp: set_row_puts)
    moreover have "?rows ! i \<in> set ?rows" using r(2) by (rule nth_mem)
    moreover have "row_Key (?rows ! i) = key" using r(1) df(2) by (simp add: diff_row_def)
    ultimately show ?thesis using dist by (metis distinct_map inj_onD)
  qed
  moreover have "(encodePartitionDataKey (bytes_of_string key), Row_Encode (?rows ! i)) \<in> set (row_puts ?rows)"
  proof -
    have "diff_row df (n + of_nat i) \<in> set ?rows" using nth_mem [OF r(2)] unfolding r(1) .
    moreover have "key = row_Key (diff_row df (n + of_nat i))" using df(2) by (simp add: diff_row_def)
    ultimately show ?thesis unfolding set_row_puts r(1) by blast
  qed
  ultimately have "apply_batch (put_all (row_puts ?rows) (put_all (leaf_puts t oh u) NewBatch)) c (encodePartitionDataKey (bytes_of_string key)) = Some (Row_Encode (?rows ! i))"
    by (rule_tac apply_put_all_at)
  with i(1) r(1) show ?thesis by (auto simp: written_def)
qed

lemma written_other_row:
  assumes "wf_update u" "map_of u key = None"
  shows "written t (update_hashes t0 u) u n c (encodePartitionDataKey (bytes_of_string key)) = c (encodePartitionDataKey (bytes_of_string key))"
proof -
  have "key \<notin> Key ` set (Update_Iter u)"
    using assms keys_of_Iter [OF assms(1)] by (simp add: Key_def [abs_def] map_of_eq_None_iff)
  then have "encodePartitionDataKey (bytes_of_string key) \<notin> fst ` set (row_puts (numbered_rows (Update_Iter u) n))"
    by (auto simp: fst_row_puts)
  moreover have "encodePartitionDataKey (bytes_of_string key) \<notin> fst ` set (leaf_puts t oh u)" for oh
    by (auto simp: leaf_puts_def index_puts_def)
  ultimately show ?thesis by (simp add: written_def apply_put_all_other)
qed

end
