(* ===== verification/Store_Steps.thy ===== *)
theory Store_Steps
  imports Store_Laws
begin

text \<open>
  Every write keeps the invariant of a store and has the intended effect on its database, over any storage driver
  that satisfies the driver contract; when the driver fails the database and the tree are as before.
\<close>

section \<open>The contents after a write\<close>

lemma data_of_written:
  assumes "usable_update c u"
  shows "data_of (written t (update_hashes t0 u) u n c) = data_update u (data_of c)"
proof
  fix key
  have wf: "wf_update u" using assms by (simp add: usable_update_def)
  show "data_of (written t (update_hashes t0 u) u n c) key = data_update u (data_of c) key"
  proof (cases "map_of u key")
    case None
    then show ?thesis using written_other_row [OF wf None] by (simp add: data_of_def data_update_def)
  next
    case (Some df)
    then show ?thesis using written_row [OF wf Some, of t "update_hashes t0 u" n c]
      by (auto simp: data_of_def data_update_def Row_Encode_def diff_row_def NewSiblingSet_of_def)
  qed
qed

lemma rows_ok_written:
  assumes u: "usable_update c u" and rows: "rows_ok c n" and fits: "unat n + length u < 2 ^ 64"
  shows "rows_ok (written t (update_hashes t0 u) u n c) (n + of_nat (length u))"
  unfolding rows_ok_def
proof (intro allI impI)
  fix k v assume v: "written t (update_hashes t0 u) u n c (encodePartitionDataKey k) = Some v"
  let ?key = "string_of_bytes k"
  have wf: "wf_update u" using u by (simp add: usable_update_def)
  have nxt: "unat (n + of_nat i) = unat n + i" if "i \<le> length u" for i
    using that fits by (intro unat_plus_of_nat_u64) simp
  show "k \<noteq> [] \<and> (\<exists>key ver ss. v = StoredRow key ver (Some ss) \<and> ver < n + of_nat (length u))"
  proof (cases "map_of u ?key")
    case None
    then have "c (encodePartitionDataKey k) = Some v"
      using v written_other_row [OF wf None, of t t0 n c] by simp
    moreover have "n \<le> n + of_nat (length u)" using nxt [of "length u"] by (simp add: word_le_nat_alt)
    ultimately show ?thesis using rows unfolding rows_ok_def by (metis order_less_le_trans)
  next
    case (Some df)
    then have "(?key, df) \<in> set u" by (rule map_of_SomeD)
    with u have df: "?key \<noteq> ''''" "diff_new df \<noteq> None" by (auto simp: usable_update_def)
    then obtain ss where ss: "diff_new df = Some ss" by blast
    obtain i where i: "i < length u" "v = Row_Encode (diff_row df (n + of_nat i))"
      using written_row [OF wf Some, of t "update_hashes t0 u" n c] v by auto
    have "n + of_nat i < n + of_nat (length u)"
      using nxt [of i] nxt [of "length u"] i(1) by (simp add: word_less_nat_alt)
    moreover have "k \<noteq> []" using df(1) by (auto simp: string_of_bytes_def)
    ultimately show ?thesis using i(2) by (simp add: Row_Encode_def diff_row_def NewSiblingSet_of_def ss)
  qed
qed

lemma written_index:
  assumes "wf_update u" "mt_depth t' = mt_depth t"
  shows "written t' (update_hashes t u) u n c (encodePartitionMerkleLeafKey m k) \<noteq> None \<longleftrightarrow>
    c (encodePartitionMerkleLeafKey m k) \<noteq> None
    \<or> string_of_bytes k \<in> fst ` set u \<and> m = Tree_LeafNode t k"
proof -
  let ?puts = "leaf_puts t' (update_hashes t u) u" and ?x = "encodePartitionMerkleLeafKey m k"
  have side: "written t' (update_hashes t u) u n c ?x = apply_batch (put_all ?puts NewBatch) c ?x"
    by (rule written_leaf_side) simp
  have "?x \<in> fst ` set ?puts \<longleftrightarrow> (\<exists>df \<in> set (Update_Iter u). m = key_leaf (mt_depth t) (diff_key df) \<and> k = bytes_of_string (diff_key df))"
    unfolding set_leaf_puts [OF assms(2)] by (auto simp: image_Un image_image)
  also have "\<dots> \<longleftrightarrow> string_of_bytes k \<in> diff_key ` set (Update_Iter u) \<and> m = Tree_LeafNode t k"
    using Tree_LeafNode_key [of t "string_of_bytes k"] unfolding bytes_string_iff by (auto simp: image_iff)
  also have "\<dots> \<longleftrightarrow> string_of_bytes k \<in> fst ` set u \<and> m = Tree_LeafNode t k" by (simp add: keys_of_Iter [OF assms(1)])
  finally have mem: "?x \<in> fst ` set ?puts \<longleftrightarrow> string_of_bytes k \<in> fst ` set u \<and> m = Tree_LeafNode t k" .
  show ?thesis
  proof (cases "?x \<in> fst ` set ?puts")
    case True
    then obtain v where "(?x, v) \<in> set ?puts" by auto
    then have "map_of (rev ?puts) ?x \<noteq> None" by (metis map_of_eq_None_iff set_rev image_eqI fst_conv)
    then show ?thesis using True mem side by (auto simp: apply_put_all map_add_def)
  next
    case False
    then have "written t' (update_hashes t u) u n c ?x = c ?x" using side by (simp add: apply_put_all_other)
    then show ?thesis using mem False by argo
  qed
qed

lemma written_data:
  assumes "wf_update u"
  shows "written t' (update_hashes t u) u n c (encodePartitionDataKey k) \<noteq> None \<longleftrightarrow>
    c (encodePartitionDataKey k) \<noteq> None \<or> string_of_bytes k \<in> fst ` set u"
proof (cases "map_of u (string_of_bytes k)")
  case None
  then show ?thesis using written_other_row [OF assms None, of t' t n c] by (simp add: map_of_eq_None_iff)
next
  case (Some df)
  then have "string_of_bytes k \<in> fst ` set u" by (force dest: map_of_SomeD)
  then show ?thesis using written_row [OF assms Some, of t' "update_hashes t u" n c] by auto
qed

lemma index_ok_written:
  assumes "usable_update c u" "index_ok t c" "tree_ok t" "tree_ok t'" "mt_depth t' = mt_depth t"
  shows "index_ok t' (written t' (update_hashes t u) u n c)"
proof -
  have wf: "wf_update u" using assms(1) by (simp add: usable_update_def)
  have "written t' (update_hashes t u) u n c (encodePartitionMerkleLeafKey m k) \<noteq> None \<longleftrightarrow>
      m = Tree_LeafNode t' k \<and> written t' (update_hashes t u) u n c (encodePartitionDataKey k) \<noteq> None"
    if "m < NodeLimit t'" for m k
  proof -
    have "c (encodePartitionMerkleLeafKey m k) \<noteq> None \<longleftrightarrow> m = Tree_LeafNode t k \<and> c (encodePartitionDataKey k) \<noteq> None"
      using assms(2) that NodeLimit_depth [OF assms(3-5)] unfolding index_ok_def by auto
    then show ?thesis
      unfolding written_index [OF wf assms(5)] written_data [OF wf] Tree_LeafNode_depth [OF assms(5)] by blast
  qed
  moreover have "written t' (update_hashes t u) u n c (1 # r) = None" if r: "length r < 4" for r
  proof -
    have "written t' (update_hashes t u) u n c (1 # r) = apply_batch (put_all (leaf_puts t' (update_hashes t u) u) NewBatch) c (1 # r)"
      by (rule written_leaf_side) simp
    moreover have "1 # r \<notin> fst ` set (leaf_puts t' (update_hashes t u) u)"
      using r unfolding set_leaf_puts [OF assms(5)] by auto
    ultimately show ?thesis using assms(2) r by (simp add: apply_put_all_other index_ok_def)
  qed
  ultimately show ?thesis unfolding index_ok_def by blast
qed

lemma leaves_ok_written:
  assumes "wf_update u" "leaves_ok t c" "tree_ok t" "tree_ok t'"
    and rep: "repaired (set (leaf_coords (mt_depth t) (Update_Iter u))) (t\<lparr>mt_nodes := fold (add_leaf (mt_depth t)) (Update_Iter u) (mt_nodes t)\<rparr>) t'"
  shows "leaves_ok t' (written t' (update_hashes t u) u n c)"
proof -
  let ?puts = "leaf_puts t' (update_hashes t u) u" and ?c = "written t' (update_hashes t u) u n c"
  let ?L = "(\<lambda>df. key_leaf (mt_depth t) (diff_key df)) ` set (Update_Iter u)"
  have d: "mt_depth t' = mt_depth t" using repaired_simps(1) [OF rep] by simp
  have side: "?c (0 # k) = apply_batch (put_all ?puts NewBatch) c (0 # k)" for k
    by (rule written_leaf_side) (simp add: encode_simps)
  have at: "?c (encodeMerkleLeafKey m) = Some (StoredBytes (Hash_Bytes (NodeHash t' m)))" if "m \<in> ?L" for m
  proof -
    have "(encodeMerkleLeafKey m, StoredBytes (Hash_Bytes (NodeHash t' m))) \<in> set ?puts"
      using that unfolding set_leaf_puts [OF d] by blast
    moreover have "w = StoredBytes (Hash_Bytes (NodeHash t' m))" if "(encodeMerkleLeafKey m, w) \<in> set ?puts" for w
      using that unfolding set_leaf_puts [OF d] by auto
    ultimately have "apply_batch (put_all ?puts NewBatch) c (encodeMerkleLeafKey m) = Some (StoredBytes (Hash_Bytes (NodeHash t' m)))"
      by (rule apply_put_all_at)
    then show ?thesis using side [of "nodeBytes m"] by (simp add: encode_simps)
  qed
  have other: "?c (0 # k) = c (0 # k)" if "\<And>m. m \<in> ?L \<Longrightarrow> k \<noteq> nodeBytes m" for k
  proof -
    have "0 # k \<notin> fst ` set ?puts" using that unfolding set_leaf_puts [OF d] by (auto simp: encode_simps)
    then show ?thesis using side by (simp add: apply_put_all_other)
  qed
  have "?c (encodeMerkleLeafKey m) = Some (StoredBytes (Hash_Bytes (NodeHash t' m)))
      \<or> ?c (encodeMerkleLeafKey m) = None \<and> NodeHash t' m = zero_hash" if m: "IsLeaf t' m" for m
  proof (cases "m \<in> ?L")
    case False
    have "IsLeaf t m" using m IsLeaf_depth [OF d] by simp
    then have "NodeHash t' m = NodeHash t m" using untouched_leaf [OF assms(3,4) _ rep] False by simp
    moreover have "?c (encodeMerkleLeafKey m) = c (encodeMerkleLeafKey m)"
      using other [of "nodeBytes m"] False unfolding encode_simps by fastforce
    ultimately show ?thesis using assms(2) \<open>IsLeaf t m\<close> by (simp add: leaves_ok_def)
  qed (use at in blast)
  moreover have "\<exists>m. IsLeaf t' m \<and> k = nodeBytes m" if k: "?c (0 # k) \<noteq> None" for k
  proof (cases "\<exists>m \<in> ?L. k = nodeBytes m")
    case True
    then show ?thesis using IsLeaf_key_leaf [OF assms(3)] IsLeaf_depth [OF d] by auto
  next
    case False
    then have "?c (0 # k) = c (0 # k)" by (intro other) blast
    then have "c (0 # k) \<noteq> None" using k by simp
    then show ?thesis using assms(2) IsLeaf_depth [OF d] by (auto simp: leaves_ok_def)
  qed
  ultimately show ?thesis unfolding leaves_ok_def by blast
qed

lemma rows_ok_mono: "rows_ok c n \<Longrightarrow> n \<le> n' \<Longrightarrow> rows_ok c n'"
  unfolding rows_ok_def by (metis order_less_le_trans)

section \<open>Writing an update\<close>

text \<open>The parts of a store no write touches.\<close>

definition same_frame :: "'s store \<Rightarrow> 's store \<Rightarrow> bool" where
  "same_frame st st' \<longleftrightarrow> st_nodeID st' = st_nodeID st \<and> conflictResolver st' = conflictResolver st
     \<and> storageFormatVersion st' = storageFormatVersion st \<and> writesTryLock st' = writesTryLock st
     \<and> readsTryLock st' = readsTryLock st \<and> mt_depth (merkleTree st') = mt_depth (merkleTree st)"

text \<open>How a write of at most \<open>n\<close> rows used the driver and the row counter.\<close>

definition write_ran :: "'s kv \<Rightarrow> nat \<Rightarrow> 's store \<Rightarrow> db_error option \<Rightarrow> 's store \<Rightarrow> bool" where
  "write_ran D n st err st' \<longleftrightarrow> unat (nextRowID st') \<le> unat (nextRowID st) + n
     \<and> (err = None \<and> storageDriver st' = storageDriver st
         \<or> (\<exists>b. drv_Batch D (storageDriver st) b = (err = None, storageDriver st'))
         \<or> storageDriver st' = storageDriver st \<and> (\<exists>ks. drv_Get D (storageDriver st) ks = None))"

lemma write_ran_mono: "write_ran D m (st\<lparr>st_alloc := al\<rparr>) err st' \<Longrightarrow> m \<le> n \<Longrightarrow> write_ran D n st err st'"
  unfolding write_ran_def by simp

locale bucket_driver = kv_driver D contents
  for D :: "('s, stored) driver" and contents :: "'s \<Rightarrow> stored contents"
begin

lemma Store_batch_ok:
  assumes ok: "store_ok contents st" and u: "usable_update (contents (storageDriver st)) u"
    and fits: "unat (nextRowID st) + length u < 2 ^ 64"
  shows "\<exists>b t'. Store_batch u st = Some (b, numbered_rows (Update_Iter u) (nextRowID st),
        st\<lparr>merkleTree := t', nextRowID := nextRowID st + of_nat (length u)\<rparr>)
    \<and> wf_batch b \<and> UndoUpdate t' u = Some (merkleTree st) \<and> mt_depth t' = mt_depth (merkleTree st)
    \<and> (\<forall>st'. contents (storageDriver st') = apply_batch b (contents (storageDriver st)) \<longrightarrow> merkleTree st' = t' \<longrightarrow>
         nextRowID st' = nextRowID st + of_nat (length u) \<longrightarrow> storageFormatVersion st' = StorageFormatVersion \<longrightarrow>
         store_ok contents st' \<and> data_of (contents (storageDriver st')) = data_update u (data_of (contents (storageDriver st))))"
proof -
  let ?c = "contents (storageDriver st)" and ?t = "merkleTree st" and ?n = "nextRowID st"
  have rep: "represents ?t (db_of ?c)" and t: "merkle_ok ?t" using ok by (auto simp: store_ok_def represents_def)
  have wf: "wf_update u" "length u < 2 ^ 31" using u by (auto simp: usable_update_def)
  obtain m t' where t': "Tree_Update ?t u = Some (m, update_hashes ?t u, t')"
      "repaired (set (leaf_coords (mt_depth ?t) (Update_Iter u))) (?t\<lparr>mt_nodes := fold (add_leaf (mt_depth ?t)) (Update_Iter u) (mt_nodes ?t)\<rparr>) t'"
    using Tree_Update_returns [OF t wf(2)] by blast
  let ?c' = "written t' (update_hashes ?t u) u ?n ?c"
  have data: "data_of ?c' = data_update u (data_of ?c)" by (rule data_of_written [OF u])
  have rep': "represents t' (db_of ?c')" using tree_after_update [OF rep u data] t'(1) by auto
  have d: "mt_depth t' = mt_depth ?t" and tok: "tree_ok ?t" "tree_ok t'"
    using repaired_simps(1,2) [OF t'(2)] t by simp_all
  have undo: "UndoUpdate t' u = Some ?t" using UndoUpdate_restores [OF t wf(2)] t'(1) by auto
  have inv: "rows_ok ?c' (?n + of_nat (length u))" "index_ok t' ?c'" "leaves_ok t' ?c'"
    using ok rows_ok_written [OF u _ fits] index_ok_written [OF u _ tok d] leaves_ok_written [OF wf(1) _ tok t'(2)]
    by (simp_all add: store_ok_def)
  show ?thesis
    unfolding Store_batch_eq t'(1)
    using rep' inv data undo d by (auto simp: written_def store_ok_def Update_Size_def)
qed

lemma write_update_ok:
  assumes ok: "store_ok contents st" and u: "usable_update (contents (storageDriver st)) u"
    and fits: "unat (nextRowID st) + length u < 2 ^ 64"
  shows "\<exists>err st'. write_update D u st = Some (err, st') \<and> store_ok contents st' \<and> same_frame st st'
    \<and> write_ran D (length u) st err st'
    \<and> (err = None \<and> data_of (contents (storageDriver st')) = data_update u (data_of (contents (storageDriver st)))
         \<and> st_monitor st' = fold Notify (numbered_rows (Update_Iter u) (nextRowID st)) (st_monitor st)
       \<or> err = Some EStorage \<and> contents (storageDriver st') = contents (storageDriver st) \<and> merkleTree st' = merkleTree st)"
proof -
  let ?n = "nextRowID st + of_nat (length u)"
  obtain b t' where b: "Store_batch u st = Some (b, numbered_rows (Update_Iter u) (nextRowID st), st\<lparr>merkleTree := t', nextRowID := ?n\<rparr>)"
      "wf_batch b" "UndoUpdate t' u = Some (merkleTree st)" "mt_depth t' = mt_depth (merkleTree st)"
    and post: "\<And>st'. contents (storageDriver st') = apply_batch b (contents (storageDriver st)) \<Longrightarrow> merkleTree st' = t' \<Longrightarrow>
         nextRowID st' = ?n \<Longrightarrow> storageFormatVersion st' = StorageFormatVersion \<Longrightarrow>
         store_ok contents st' \<and> data_of (contents (storageDriver st')) = data_update u (data_of (contents (storageDriver st)))"
    using Store_batch_ok [OF assms] by blast
  obtain ok' s where dr: "drv_Batch D (storageDriver st) b = (ok', s)" by fastforce
  have fmt: "storageFormatVersion st = StorageFormatVersion" using ok by (simp add: store_ok_def)
  have n: "unat ?n \<le> unat (nextRowID st) + length u" using unat_plus_of_nat_u64 [OF fits] by simp
  have ran: "write_ran D (length u) st err st'"
    if "nextRowID st' = ?n" "storageDriver st' = s" "ok' = (err = None)" for err and st' :: "'s store"
    using n dr that unfolding write_ran_def by auto
  show ?thesis
  proof (cases ok')
    case True
    let ?st = "notifyWatchers (numbered_rows (Update_Iter u) (nextRowID st)) (st\<lparr>merkleTree := t', nextRowID := ?n, storageDriver := s\<rparr>)"
    have "contents s = apply_batch b (contents (storageDriver st))" using batch_law dr b(2) True by simp
    then have "store_ok contents ?st \<and> data_of (contents (storageDriver ?st)) = data_update u (data_of (contents (storageDriver st)))"
      by (intro post) (simp_all add: notifyWatchers_def fmt)
    moreover have "write_update D u st = Some (None, ?st)" using True by (simp add: write_update_def b(1) dr)
    moreover have "write_ran D (length u) st None ?st" by (rule ran) (simp_all add: notifyWatchers_def True)
    ultimately show ?thesis by (simp add: same_frame_def notifyWatchers_def b(4))
  next
    case False
    let ?rows = "numbered_rows (Update_Iter u) (nextRowID st)"
    let ?st = "(discardIDRange ?rows (st\<lparr>merkleTree := t', nextRowID := ?n, storageDriver := s\<rparr>))\<lparr>merkleTree := merkleTree st\<rparr>"
    have c: "contents s = contents (storageDriver st)" using batch_failed dr False by simp
    have le: "nextRowID st \<le> ?n" using unat_plus_of_nat_u64 [OF fits] by (simp add: word_le_nat_alt)
    have "write_update D u st = Some (Some EStorage, ?st)"
      using False b(3) by (simp add: write_update_def b(1) dr discardIDRange_def)
    moreover have "rows_ok (contents (storageDriver st)) ?n"
      using ok rows_ok_mono [OF _ le] by (simp add: store_ok_def)
    then have "store_ok contents ?st" using ok c by (simp add: store_ok_def discardIDRange_def)
    moreover have "write_ran D (length u) st (Some EStorage) ?st" by (rule ran) (simp_all add: discardIDRange_def False)
    ultimately show ?thesis using c by (simp add: same_frame_def discardIDRange_def)
  qed
qed

end

end
