(* ===== verification/Store_Ops.thy ===== *)
theory Store_Ops
  imports Store_Steps
begin

text \<open>What client batches and replicated merges do to the database of a store.\<close>

section \<open>Loading sibling sets\<close>

text \<open>A sibling set as a store loads it for a key: the empty one when the key is absent.\<close>

definition loads :: "stored contents \<Rightarrow> string \<Rightarrow> nat \<Rightarrow> nat \<Rightarrow> sibling_set \<Rightarrow> bool" where
  "loads c key lo hi ss \<longleftrightarrow> MarshalJSON ss = (case data_of c key of None \<Rightarrow> [] | Some l \<Rightarrow> l)
     \<and> distinct (map fst ss) \<and> fst ` set ss \<subseteq> {lo..<hi}"

lemma loads_mono: "loads c key lo hi ss \<Longrightarrow> lo' \<le> lo \<Longrightarrow> hi \<le> hi' \<Longrightarrow> loads c key lo' hi' ss"
  by (auto simp: loads_def)

lemma loads_distinct: "loads c key lo hi ss \<Longrightarrow> distinct ss"
  by (auto simp: loads_def distinct_map)

lemma format_not_0 [simp]: "StorageFormatVersion \<noteq> ''0''"
  by (simp add: StorageFormatVersion_def)

lemma Row_Decode_row:
  "Row_Decode al (StoredRow k ver (Some ss)) StorageFormatVersion =
     Some (\<lparr>row_Key = k, LocalVersion = ver, Siblings = Some (zip [al..<al + length ss] ss)\<rparr>, al + length ss)"
  by (simp add: Row_Decode_def unmarshal_row_def UnmarshalJSON_def)

lemma loads_decoded:
  assumes "c (encodePartitionDataKey (bytes_of_string key)) = Some (StoredRow k ver (Some ss))"
  shows "loads c key al (al + length ss) (zip [al..<al + length ss] ss)"
  using assms by (auto simp: loads_def MarshalJSON_def data_of_def map_snd_zip map_fst_zip dest: set_zip_leftD)

lemma loads_absent: "c (encodePartitionDataKey (bytes_of_string key)) = None \<Longrightarrow> loads c key al al []"
  by (simp add: loads_def MarshalJSON_def data_of_def)

lemma rows_okD: "rows_ok c n \<Longrightarrow> c (encodePartitionDataKey k) = Some v \<Longrightarrow> \<exists>key ver ss. v = StoredRow key ver (Some ss) \<and> ver < n"
  unfolding rows_ok_def by blast

lemma init_map_loads:
  assumes rows: "rows_ok c n"
  shows "\<exists>m' al'. init_map StorageFormatVersion al (map encodePartitionDataKey keys) (map (c \<circ> encodePartitionDataKey) keys) m = Some (m', al')
    \<and> al \<le> al' \<and> (\<forall>k. k \<notin> string_of_bytes ` set keys \<longrightarrow> map_of m' k = map_of m k)
    \<and> (\<forall>k \<in> string_of_bytes ` set keys. \<exists>ss. map_of m' k = Some (Some ss) \<and> loads c k al al' ss)"
proof (induction keys arbitrary: al m)
  case (Cons key keys)
  let ?k = "string_of_bytes key"
  have "\<exists>ss al1. loads c ?k al al1 ss \<and> al \<le> al1 \<and>
      init_map StorageFormatVersion al (map encodePartitionDataKey (key # keys)) (map (c \<circ> encodePartitionDataKey) (key # keys)) m
      = init_map StorageFormatVersion al1 (map encodePartitionDataKey keys) (map (c \<circ> encodePartitionDataKey) keys) (AList.update ?k (Some ss) m)"
  proof (cases "c (encodePartitionDataKey key)")
    case None
    have "loads c ?k al al []" by (rule loads_absent) (simp add: None)
    then show ?thesis using None by (intro exI [of _ "[]"] exI [of _ al]) (simp add: NewSiblingSet_def)
  next
    case (Some v)
    then obtain k ver ss where v: "v = StoredRow k ver (Some ss)" using rows_okD [OF rows Some] by blast
    have "loads c ?k al (al + length ss) (zip [al..<al + length ss] ss)"
      by (rule loads_decoded [where k = k and ver = ver]) (simp add: Some v)
    then show ?thesis
      using Some v by (intro exI [of _ "zip [al..<al + length ss] ss"] exI [of _ "al + length ss"]) (simp add: Row_Decode_row)
  qed
  then obtain ss al1 where step: "loads c ?k al al1 ss" "al \<le> al1"
      "init_map StorageFormatVersion al (map encodePartitionDataKey (key # keys)) (map (c \<circ> encodePartitionDataKey) (key # keys)) m
      = init_map StorageFormatVersion al1 (map encodePartitionDataKey keys) (map (c \<circ> encodePartitionDataKey) keys) (AList.update ?k (Some ss) m)"
    by blast
  obtain m' al' where rest: "init_map StorageFormatVersion al1 (map encodePartitionDataKey keys) (map (c \<circ> encodePartitionDataKey) keys) (AList.update ?k (Some ss) m) = Some (m', al')"
      "al1 \<le> al'" "\<forall>k. k \<notin> string_of_bytes ` set keys \<longrightarrow> map_of m' k = map_of (AList.update ?k (Some ss) m) k"
      "\<forall>k \<in> string_of_bytes ` set keys. \<exists>ss. map_of m' k = Some (Some ss) \<and> loads c k al1 al' ss"
    using Cons.IH by blast
  have "\<exists>ss. map_of m' k = Some (Some ss) \<and> loads c k al al' ss" if k: "k \<in> string_of_bytes ` set (key # keys)" for k
  proof (cases "k \<in> string_of_bytes ` set keys")
    case True
    then obtain ss where "map_of m' k = Some (Some ss)" "loads c k al1 al' ss" using rest(4) by blast
    then show ?thesis using loads_mono [of c k al1 al' ss al al'] step(2) by blast
  next
    case False
    then have "k = ?k" "map_of m' k = Some (Some ss)" using k rest(3) by (auto simp: update_conv')
    then show ?thesis using loads_mono [OF step(1), of al al'] rest(2) by auto
  qed
  moreover have "map_of m' k = map_of m k" if "k \<notin> string_of_bytes ` set (key # keys)" for k
    using that rest(3) by (simp add: update_conv')
  moreover have "al \<le> al'" using step(2) rest(2) by simp
  ultimately show ?case unfolding step(3) rest(1) by blast
qed simp

lemma obj_hash_loads:
  assumes "loads c key lo hi ss"
  shows "SiblingSet_Hash (Some ss) (bytes_of_string key) = obj_hash (db_of c) key"
proof (cases "data_of c key")
  case None
  then have "ss = []" using assms by (simp add: loads_def MarshalJSON_def)
  moreover have "obj_hash (db_of c) key = zero_hash" using None by (intro obj_hash_None) (simp add: db_of_def)
  ultimately show ?thesis by simp
next
  case (Some l)
  then have "data_of c key = map_option MarshalJSON (Some ss)" using assms by (simp add: loads_def)
  then show ?thesis by (rule obj_hash_db_of [symmetric])
qed

section \<open>Client batches\<close>

text \<open>The sibling set a client's operation turns a key's set into.\<close>

definition client_clock :: "string \<Rightarrow> dvv \<Rightarrow> sibling_set \<Rightarrow> dvv" where
  "client_clock nodeID context ss = Event ss (if length (Context context) = 0 then Join ss else Context context) nodeID"

definition client_sibling :: "string \<Rightarrow> u64 \<Rightarrow> dvv \<Rightarrow> bytes op \<Rightarrow> sibling_set \<Rightarrow> sibling" where
  "client_sibling nodeID now context o' ss =
     updateToSibling now o' (client_clock nodeID context ss)
       (if IsTombstoneSet ss then map_option snd (GetOldestTombstone ss) else None)"

definition client_set :: "string \<Rightarrow> u64 \<Rightarrow> dvv \<Rightarrow> bytes op \<Rightarrow> sibling_set \<Rightarrow> nat \<Rightarrow> sibling_set" where
  "client_set nodeID now context o' ss al =
     Sync (Discard ss (client_clock nodeID context ss)) [(al, client_sibling nodeID now context o' ss)]"

definition no_op :: "bytes op \<Rightarrow> sibling_set \<Rightarrow> bool" where
  "no_op o' ss \<longleftrightarrow> ss = [] \<and> IsDelete o'"

lemma batch_loop_Cons:
  assumes "map_read sets (string_of_bytes key) = Some ss" "map_of contexts key = Some ctx"
  shows "batch_loop r nodeID now contexts ((key, o') # ops) (sets, u, al) =
    (if no_op o' ss then batch_loop r nodeID now contexts ops (AList.delete (string_of_bytes key) sets, u, al)
     else batch_loop r nodeID now contexts ops
       (AList.update (string_of_bytes key) (Some (client_set nodeID (now key) ctx o' ss al)) sets,
        AddDiff u (string_of_bytes key) (Some ss) (Some (ResolveConflicts r (client_set nodeID (now key) ctx o' ss al))), Suc al))"
  using assms by (auto simp: Let_def no_op_def Size_def client_set_def client_sibling_def client_clock_def NewSiblingSet_def)

lemma length_AList_update: "length (AList.update k v xs) \<le> Suc (length xs)"
  by (induction xs) auto

definition outcome ::
  "conflict_resolver \<Rightarrow> string \<Rightarrow> u64 \<Rightarrow> dvv \<Rightarrow> bytes op \<Rightarrow> sibling_set \<Rightarrow> nat \<Rightarrow> string \<Rightarrow>
   diff option \<Rightarrow> diff option \<Rightarrow> sibling_set option option \<Rightarrow> bool" where
  "outcome r nodeID now ctx o' ss al k before df result \<longleftrightarrow>
     (if no_op o' ss then df = before \<and> result = None
      else \<exists>al0 \<ge> al. df = Some \<lparr>diff_key = k, diff_old = Some ss, diff_new = Some (ResolveConflicts r (client_set nodeID now ctx o' ss al0))\<rparr>
        \<and> result = Some (Some (client_set nodeID now ctx o' ss al0)))"

lemma outcome_later: "outcome r nodeID now ctx o' ss al1 k before df result \<Longrightarrow> al \<le> al1 \<Longrightarrow> outcome r nodeID now ctx o' ss al k before df result"
  unfolding outcome_def by (meson order_trans)

lemma batch_loop_spec:
  assumes "distinct (map fst ops)" "\<And>key o'. (key, o') \<in> set ops \<Longrightarrow> map_of contexts key \<noteq> None"
    "\<And>key o'. (key, o') \<in> set ops \<Longrightarrow> map_read sets (string_of_bytes key) = Some (old key)" "wf_update u"
  shows "\<exists>sets' u' al'. batch_loop r nodeID now contexts ops (sets, u, al) = Some (sets', u', al')
    \<and> wf_update u' \<and> length u' \<le> length u + length ops \<and> al \<le> al'
    \<and> (\<forall>k. k \<notin> string_of_bytes ` fst ` set ops \<longrightarrow> map_of u' k = map_of u k \<and> map_of sets' k = map_of sets k)
    \<and> (\<forall>key o'. (key, o') \<in> set ops \<longrightarrow>
         outcome r nodeID (now key) (the (map_of contexts key)) o' (old key) al (string_of_bytes key)
           (map_of u (string_of_bytes key)) (map_of u' (string_of_bytes key)) (map_of sets' (string_of_bytes key)))"
  using assms
proof (induction ops arbitrary: sets u al)
  case (Cons x ops)
  obtain key o' where x: "x = (key, o')" by fastforce
  let ?k = "string_of_bytes key"
  obtain ctx where ctx: "map_of contexts key = Some ctx" using Cons.prems(2) [of key o'] by (auto simp: x)
  have read: "map_read sets ?k = Some (old key)" using Cons.prems(3) [of key o'] by (simp add: x)
  have inj: "string_of_bytes key' \<noteq> ?k" if "key' \<in> fst ` set ops" for key'
    using that Cons.prems(1) by (auto simp: x) (metis bytes_of_string_of_bytes fst_conv image_eqI)
  define new where "new = client_set nodeID (now key) ctx o' (old key) al"
  define skip where "skip = no_op o' (old key)"
  define sets1 where "sets1 = (if skip then AList.delete ?k sets else AList.update ?k (Some new) sets)"
  define u1 where "u1 = (if skip then u else AddDiff u ?k (Some (old key)) (Some (ResolveConflicts r new)))"
  define al1 where "al1 = (if skip then al else Suc al)"
  have step: "batch_loop r nodeID now contexts (x # ops) (sets, u, al) = batch_loop r nodeID now contexts ops (sets1, u1, al1)"
    unfolding x batch_loop_Cons [OF read ctx] by (simp add: sets1_def u1_def al1_def new_def skip_def)
  have u1: "wf_update u1" "length u1 \<le> Suc (length u)" "al \<le> al1"
    using Cons.prems(4) wf_AddDiff length_AList_update by (auto simp: u1_def al1_def AddDiff_def)
  have out: "map_of u1 k = map_of u k \<and> map_of sets1 k = map_of sets k" if "k \<noteq> ?k" for k
    using that by (simp add: u1_def sets1_def map_of_AddDiff update_conv' delete_conv')
  have "map_read sets1 (string_of_bytes key') = Some (old key')" if "(key', o'') \<in> set ops" for key' o''
  proof -
    have "string_of_bytes key' \<noteq> ?k" using that by (intro inj) force
    then show ?thesis using Cons.prems(3) [of key' o''] that out by (simp add: map_read_def x)
  qed
  moreover have "distinct (map fst ops)" "\<And>key o'. (key, o') \<in> set ops \<Longrightarrow> map_of contexts key \<noteq> None"
    using Cons.prems(1,2) by (auto simp: x)
  ultimately obtain sets' u' al' where rest: "batch_loop r nodeID now contexts ops (sets1, u1, al1) = Some (sets', u', al')"
      "wf_update u'" "length u' \<le> length u1 + length ops" "al1 \<le> al'"
    and away: "\<forall>k. k \<notin> string_of_bytes ` fst ` set ops \<longrightarrow> map_of u' k = map_of u1 k \<and> map_of sets' k = map_of sets1 k"
    and settled: "\<forall>key o'. (key, o') \<in> set ops \<longrightarrow>
         outcome r nodeID (now key) (the (map_of contexts key)) o' (old key) al1 (string_of_bytes key)
           (map_of u1 (string_of_bytes key)) (map_of u' (string_of_bytes key)) (map_of sets' (string_of_bytes key))"
    using Cons.IH [of sets1 u1 al1] u1(1) by blast
  have "?k \<notin> string_of_bytes ` fst ` set ops" using inj by (metis imageE)
  then have here: "map_of u' ?k = map_of u1 ?k" "map_of sets' ?k = map_of sets1 ?k" using away by auto
  have A: "\<forall>key' o''. (key', o'') \<in> set (x # ops) \<longrightarrow>
      outcome r nodeID (now key') (the (map_of contexts key')) o'' (old key') al (string_of_bytes key')
         (map_of u (string_of_bytes key')) (map_of u' (string_of_bytes key')) (map_of sets' (string_of_bytes key'))"
  proof (intro allI impI)
    fix key' o'' assume that: "(key', o'') \<in> set (x # ops)"
    show "outcome r nodeID (now key') (the (map_of contexts key')) o'' (old key') al (string_of_bytes key')
         (map_of u (string_of_bytes key')) (map_of u' (string_of_bytes key')) (map_of sets' (string_of_bytes key'))"
    proof (cases "(key', o'') \<in> set ops")
      case True
      then have "string_of_bytes key' \<noteq> ?k" by (intro inj) force
      then show ?thesis using settled True out [of "string_of_bytes key'"] outcome_later u1(3) by metis
    next
      case False
      then have "key' = key" "o'' = o'" using that by (auto simp: x)
      then show ?thesis using here ctx
        by (auto simp: outcome_def sets1_def u1_def skip_def delete_conv' update_conv' map_of_AddDiff new_def)
    qed
  qed
  have B: "\<forall>k. k \<notin> string_of_bytes ` fst ` set (x # ops) \<longrightarrow> map_of u' k = map_of u k \<and> map_of sets' k = map_of sets k"
    using away out by (simp add: x)
  have len: "length u' \<le> length u + length (x # ops)" "al \<le> al'" using rest(3,4) u1(2,3) by simp_all
  show ?case
    by (intro exI [of _ sets'] exI [of _ u'] exI [of _ al'] conjI) (rule step [unfolded rest(1)] rest(2) len A B)+
qed simp

abbreviation current :: "stored contents \<Rightarrow> string \<Rightarrow> sibling list" where
  "current c key \<equiv> (case data_of c key of None \<Rightarrow> [] | Some l \<Rightarrow> l)"

text \<open>What a batch does to the database, and the sets it answers with.\<close>

definition batch_effect ::
  "conflict_resolver \<Rightarrow> string \<Rightarrow> (bytes \<Rightarrow> u64) \<Rightarrow> update_batch \<Rightarrow> stored contents \<Rightarrow> stored contents \<Rightarrow> sibling_map \<Rightarrow> bool" where
  "batch_effect r nodeID now b c c' m \<longleftrightarrow>
     (\<forall>k. k \<notin> string_of_bytes ` fst ` set (RawBatch b) \<longrightarrow> data_of c' k = data_of c k \<and> map_of m k = None)
   \<and> (\<forall>key o'. (key, o') \<in> set (RawBatch b) \<longrightarrow>
        (\<exists>ss al. MarshalJSON ss = current c (string_of_bytes key) \<and> distinct (map fst ss) \<and> al \<notin> fst ` set ss
          \<and> (if no_op o' ss then data_of c' (string_of_bytes key) = data_of c (string_of_bytes key) \<and> map_of m (string_of_bytes key) = None
             else data_of c' (string_of_bytes key)
                    = Some (MarshalJSON (ResolveConflicts r (client_set nodeID (now key) (the (map_of (Contexts b) key)) o' ss al)))
               \<and> map_of m (string_of_bytes key) = Some (Some (client_set nodeID (now key) (the (map_of (Contexts b) key)) o' ss al)))))"

section \<open>Replicated merges\<close>

lemma AddDiff_again [simp]: "AddDiff (AddDiff u key a b) key a b = AddDiff u key a b"
proof -
  have "AList.update k v (AList.update k v xs) = AList.update k v xs" for k and v :: diff and xs
    by (induction xs) auto
  then show ?thesis by (simp add: AddDiff_def)
qed

lemma merge_changes_spec:
  "merge_changes r key mine ps (upd, u) =
     (if set ps \<subseteq> set mine then (upd, u)
      else (ResolveConflicts r upd, AddDiff u key (Some mine) (Some (ResolveConflicts r upd))))"
proof (induction ps arbitrary: upd u)
  case (Cons p ps)
  then show ?case by (auto simp: Has_def Let_def)
qed simp

definition merge_effect ::
  "conflict_resolver \<Rightarrow> string \<Rightarrow> nat \<Rightarrow> sibling_map \<Rightarrow> stored contents \<Rightarrow> stored contents \<Rightarrow> bool" where
  "merge_effect r nodeID lo sets c c' \<longleftrightarrow>
     (\<forall>k. map_read sets k = None \<longrightarrow> data_of c' k = data_of c k)
   \<and> (\<forall>k theirs. map_read sets k = Some theirs \<longrightarrow>
        (\<exists>ss al. MarshalJSON ss = current c k \<and> distinct (map fst ss) \<and> fst ` set ss \<subseteq> {lo..<al}
          \<and> (let merged = fst (MergeSync al ss theirs nodeID) in
             data_of c' k = (if set merged \<subseteq> set ss then data_of c k else Some (MarshalJSON (ResolveConflicts r merged))))))"

definition merge_outcome ::
  "conflict_resolver \<Rightarrow> string \<Rightarrow> nat \<Rightarrow> sibling_set option \<Rightarrow> sibling_set \<Rightarrow> string \<Rightarrow> diff option \<Rightarrow> diff option \<Rightarrow> bool" where
  "merge_outcome r nodeID al theirs mine k before df \<longleftrightarrow>
     (case theirs of
        None \<Rightarrow> df = before
      | Some theirs \<Rightarrow>
          (\<exists>al0 \<ge> al. let merged = fst (MergeSync al0 mine theirs nodeID) in
             df = (if set merged \<subseteq> set mine then before
                   else Some \<lparr>diff_key = k, diff_old = Some mine, diff_new = Some (ResolveConflicts r merged)\<rparr>)))"

lemma merge_outcome_later:
  "merge_outcome r nodeID al1 theirs mine k before df \<Longrightarrow> al \<le> al1 \<Longrightarrow> merge_outcome r nodeID al theirs mine k before df"
  unfolding merge_outcome_def by (auto split: option.splits) (meson order_trans)

lemma merge_inner_alloc: "snd (snd (merge_inner r my other (new, mx, al))) \<ge> al"
proof (induction other arbitrary: new mx al)
  case (Cons q other)
  show ?case using Cons.IH [of "Suc al"] Cons.IH [of al] by (auto intro: Suc_leD)
qed simp

lemma merge_outer_alloc: "snd (snd (merge_outer r forgot other ss (new, mx, al))) \<ge> al"
proof (induction ss arbitrary: new mx al)
  case (Cons p ss)
  obtain new' mx' al' where st: "(if forgot then merge_inner r p other (Add new p, mx, al) else (Add new p, mx, al)) = (new', mx', al')"
    using prod_cases3 by blast
  then have "al \<le> al'" using merge_inner_alloc [of al r p other "Add new p" mx] by (auto split: if_splits)
  moreover have "merge_outer r forgot other (p # ss) (new, mx, al) = merge_outer r forgot other ss (new', mx', al')"
    by (simp only: merge_outer.simps st)
  ultimately show ?case using Cons.IH [of al' new' mx'] by simp
qed simp

lemma MergeSync_alloc: "al \<le> snd (MergeSync al ss other r)"
  using merge_outer_alloc [of al r "JoinOne ss r < JoinOne other r" other ss "NewSiblingSet []" "JoinOne other r"]
  by (auto simp: MergeSync_def Let_def split: prod.split)

lemma merge_loop_spec:
  assumes "distinct ks" "\<And>k. k \<in> set ks \<Longrightarrow> map_read mine k = Some (old k)" "wf_update u"
  shows "\<exists>u' al'. merge_loop r nodeID sets mine (map (encodePartitionDataKey \<circ> bytes_of_string) ks) (u, al) = (u', al')
    \<and> wf_update u' \<and> length u' \<le> length u + length ks \<and> al \<le> al'
    \<and> (\<forall>k. k \<notin> set ks \<longrightarrow> map_of u' k = map_of u k)
    \<and> (\<forall>k \<in> set ks. merge_outcome r nodeID al (map_read sets k) (old k) k (map_of u k) (map_of u' k))"
  using assms
proof (induction ks arbitrary: u al)
  case (Cons k ks)
  obtain u1 al1 where step: "merge_loop r nodeID sets mine (map (encodePartitionDataKey \<circ> bytes_of_string) (k # ks)) (u, al)
        = merge_loop r nodeID sets mine (map (encodePartitionDataKey \<circ> bytes_of_string) ks) (u1, al1)"
      "wf_update u1" "length u1 \<le> Suc (length u)" "al \<le> al1" "\<forall>k'. k' \<noteq> k \<longrightarrow> map_of u1 k' = map_of u k'"
      "merge_outcome r nodeID al (map_read sets k) (old k) k (map_of u k) (map_of u1 k)"
  proof (cases "map_read sets k")
    case None
    then show ?thesis using Cons.prems by (intro that [of u al]) (simp_all add: merge_outcome_def)
  next
    case (Some theirs)
    have mine: "map_read mine k = Some (old k)" using Cons.prems(2) by simp
    obtain merged al1 where ms: "MergeSync al (old k) theirs nodeID = (merged, al1)" by fastforce
    let ?u = "if set merged \<subseteq> set (old k) then u else AddDiff u k (Some (old k)) (Some (ResolveConflicts r merged))"
    show ?thesis
    proof (rule that [of ?u al1])
      show "merge_loop r nodeID sets mine (map (encodePartitionDataKey \<circ> bytes_of_string) (k # ks)) (u, al)
        = merge_loop r nodeID sets mine (map (encodePartitionDataKey \<circ> bytes_of_string) ks) (?u, al1)"
        by (simp add: Some mine ms merge_changes_spec Let_def)
      show "wf_update ?u" using Cons.prems(3) by (simp add: wf_AddDiff)
      show "length ?u \<le> Suc (length u)" by (auto simp: AddDiff_def intro: length_AList_update)
      show "al \<le> al1" using MergeSync_alloc [of al "old k" theirs nodeID] by (simp add: ms)
      show "\<forall>k'. k' \<noteq> k \<longrightarrow> map_of ?u k' = map_of u k'" by (simp add: map_of_AddDiff)
      show "merge_outcome r nodeID al (map_read sets k) (old k) k (map_of u k) (map_of ?u k)"
        by (auto simp: merge_outcome_def Some ms map_of_AddDiff Let_def intro!: exI [of _ al])
    qed
  qed
  have dist: "distinct ks" using Cons.prems(1) by simp
  have mine: "map_read mine k' = Some (old k')" if "k' \<in> set ks" for k' using Cons.prems(2) that by simp
  obtain u' al' where rest: "merge_loop r nodeID sets mine (map (encodePartitionDataKey \<circ> bytes_of_string) ks) (u1, al1) = (u', al')"
      "wf_update u'" "length u' \<le> length u1 + length ks" "al1 \<le> al'" "\<forall>k. k \<notin> set ks \<longrightarrow> map_of u' k = map_of u1 k"
      "\<forall>k \<in> set ks. merge_outcome r nodeID al1 (map_read sets k) (old k) k (map_of u1 k) (map_of u' k)"
    using Cons.IH [OF dist mine step(2), of al1] by blast
  have "merge_outcome r nodeID al (map_read sets k') (old k') k' (map_of u k') (map_of u' k')" if k': "k' \<in> set (k # ks)" for k'
  proof (cases "k' \<in> set ks")
    case True
    then have "k' \<noteq> k" using Cons.prems(1) by auto
    then show ?thesis using rest(6) True step(4,5) merge_outcome_later by metis
  next
    case False
    then show ?thesis using k' rest(5) step(6) by simp
  qed
  moreover have "map_of u' k' = map_of u k'" if "k' \<notin> set (k # ks)" for k' using that rest(5) step(5) by simp
  moreover have "length u' \<le> length u + length (k # ks)" "al \<le> al'" using step(3,4) rest(3,4) by simp_all
  ultimately show ?case using trans [OF step(1) rest(1)] rest(2) by blast
qed simp

section \<open>Batches and merges of a store\<close>

context bucket_driver
begin

lemma updateInit_ok:
  assumes ok: "store_ok contents st"
  shows "snd (updateInit D keys st) = Inl EStorage \<and> drv_Get D (storageDriver st) (map encodePartitionDataKey keys) = None
    \<or> (\<exists>m al. snd (updateInit D keys st) = Inr (m, al) \<and> st_alloc st \<le> al
        \<and> (\<forall>k. k \<notin> string_of_bytes ` set keys \<longrightarrow> map_of m k = None)
        \<and> (\<forall>k \<in> string_of_bytes ` set keys. \<exists>ss. map_of m k = Some (Some ss) \<and> loads (contents (storageDriver st)) k (st_alloc st) al ss))"
proof (cases "drv_Get D (storageDriver st) (map encodePartitionDataKey keys)")
  case None
  then show ?thesis by (simp add: updateInit_def)
next
  case (Some vs)
  then have vs: "vs = map (contents (storageDriver st) \<circ> encodePartitionDataKey) keys" using get_law [OF Some] by simp
  have rows: "rows_ok (contents (storageDriver st)) (nextRowID st)" and fmt: "storageFormatVersion st = StorageFormatVersion"
    using ok by (simp_all add: store_ok_def)
  have "snd (updateInit D keys st) = (case init_map StorageFormatVersion (st_alloc st) (map encodePartitionDataKey keys)
      (map (contents (storageDriver st) \<circ> encodePartitionDataKey) keys) [] of None \<Rightarrow> Inl EStorage | Some x \<Rightarrow> Inr x)"
    using Some by (simp add: updateInit_def Let_def fmt vs)
  with init_map_loads [OF rows, of "st_alloc st" keys "[]"] show ?thesis by auto
qed

lemma Store_Batch_ok:
  assumes ok: "store_ok contents st" and lock: "\<not> writeLocked (writesTryLock st)" and wf: "wf_batch (RawBatch b)"
    and keys: "\<And>key o'. (key, o') \<in> set (RawBatch b) \<Longrightarrow> key \<noteq> [] \<and> map_of (Contexts b) key \<noteq> None"
    and len: "length (RawBatch b) < 2 ^ 31" "unat (nextRowID st) + length (RawBatch b) < 2 ^ 64"
  shows "\<exists>r st'. Store_Batch D now (Some b) st = Some (r, st') \<and> store_ok contents st' \<and> same_frame st st' \<and>
    (case r of Inl e \<Rightarrow> e = EStorage \<and> contents (storageDriver st') = contents (storageDriver st) \<and> merkleTree st' = merkleTree st
     | Inr m \<Rightarrow> batch_effect (conflictResolver st) (st_nodeID st) now b (contents (storageDriver st)) (contents (storageDriver st')) m)"
proof -
  let ?c = "contents (storageDriver st)" and ?keys = "map fst (RawBatch b)"
  have free: "fst (TryRLock (writesTryLock st))" using lock by (simp add: TryRLock_def)
  consider "snd (updateInit D ?keys st) = Inl EStorage"
    | m al where "snd (updateInit D ?keys st) = Inr (m, al)" "st_alloc st \<le> al"
        "\<forall>k. k \<notin> string_of_bytes ` set ?keys \<longrightarrow> map_of m k = None"
        "\<forall>k \<in> string_of_bytes ` set ?keys. \<exists>ss. map_of m k = Some (Some ss) \<and> loads ?c k (st_alloc st) al ss"
    using updateInit_ok [OF ok, of ?keys] by blast
  then show ?thesis
  proof cases
    case 1
    then show ?thesis using ok free by (simp add: Store_Batch_def Ops_def same_frame_def)
  next
    case (2 m al)
    define old where "old key = the (the (map_of m (string_of_bytes key)))" for key
    have old: "map_of m (string_of_bytes key) = Some (Some (old key))" "loads ?c (string_of_bytes key) (st_alloc st) al (old key)"
      if key: "key \<in> fst ` set (RawBatch b)" for key
    proof -
      obtain ss where "map_of m (string_of_bytes key) = Some (Some ss)" "loads ?c (string_of_bytes key) (st_alloc st) al ss"
        using 2(4) key by auto
      then show "map_of m (string_of_bytes key) = Some (Some (old key))" "loads ?c (string_of_bytes key) (st_alloc st) al (old key)"
        by (simp_all add: old_def)
    qed
    have dist: "distinct (map fst (RawBatch b))" using wf by (simp add: wf_batch_def)
    obtain sets u al' where loop: "batch_loop (conflictResolver st) (st_nodeID st) now (Contexts b) (RawBatch b) (m, NewUpdate, al) = Some (sets, u, al')"
        "wf_update u" "length u \<le> length (NewUpdate :: update) + length (RawBatch b)"
      and away: "\<forall>k. k \<notin> string_of_bytes ` fst ` set (RawBatch b) \<longrightarrow> map_of u k = map_of NewUpdate k \<and> map_of sets k = map_of m k"
      and settled: "\<forall>key o'. (key, o') \<in> set (RawBatch b) \<longrightarrow>
        outcome (conflictResolver st) (st_nodeID st) (now key) (the (map_of (Contexts b) key)) o' (old key) al (string_of_bytes key)
           (map_of NewUpdate (string_of_bytes key)) (map_of u (string_of_bytes key)) (map_of sets (string_of_bytes key))"
      using batch_loop_spec [OF dist, of "Contexts b" m old NewUpdate "conflictResolver st" "st_nodeID st" now al] keys old(1)
      by (force simp: map_read_def)
    have ulen: "length u \<le> length (RawBatch b)" using loop(3) by (simp add: NewUpdate_def)
    have "usable_update ?c u" unfolding usable_update_def
    proof (intro conjI ballI)
      show "wf_update u" by (rule loop(2))
      show "length u < 2 ^ 31" using ulen len(1) by simp
      fix x assume x: "x \<in> set u"
      obtain k df where kd: "x = (k, df)" by fastforce
      have df: "map_of u k = Some df" using x loop(2) by (simp add: kd wf_update_def)
      then obtain key o' where key: "(key, o') \<in> set (RawBatch b)" "k = string_of_bytes key"
        using away by (cases "k \<in> string_of_bytes ` fst ` set (RawBatch b)") (auto simp: NewUpdate_def)
      then have "diff_old df = Some (old key)" "diff_new df \<noteq> None" using settled df by (force simp: outcome_def NewUpdate_def split: if_splits)+
      moreover have "loads ?c k (st_alloc st) al (old key)" using old(2) [of key] key by force
      moreover have "k \<noteq> ''''" using keys [OF key(1)] key(2) by (auto simp: string_of_bytes_def)
      ultimately show "case x of (key, df) \<Rightarrow> key \<noteq> '''' \<and> diff_new df \<noteq> None
          \<and> SiblingSet_Hash (diff_old df) (bytes_of_string key) = obj_hash (db_of ?c) key"
        using obj_hash_loads by (auto simp: kd)
    qed
    then obtain err st' where wu: "write_update D u (st\<lparr>st_alloc := al'\<rparr>) = Some (err, st')" "store_ok contents st'" "same_frame st st'"
        "err = None \<and> data_of (contents (storageDriver st')) = data_update u (data_of ?c)
         \<or> err = Some EStorage \<and> contents (storageDriver st') = ?c \<and> merkleTree st' = merkleTree st"
      using write_update_ok [of "st\<lparr>st_alloc := al'\<rparr>" u] ok ulen len(2) by (auto simp: store_ok_def same_frame_def)
    have run: "Store_Batch D now (Some b) st = Some (case err of None \<Rightarrow> Inr sets | Some e \<Rightarrow> Inl e, st')"
      using free 2(1) loop(1) wu(1) by (simp add: Store_Batch_def Ops_def Let_def)
    show ?thesis
    proof (cases err)
      case (Some e)
      then show ?thesis using run wu by auto
    next
      case None
      then have data: "data_of (contents (storageDriver st')) = data_update u (data_of ?c)" using wu(4) by simp
      have "batch_effect (conflictResolver st) (st_nodeID st) now b ?c (contents (storageDriver st')) sets"
        unfolding batch_effect_def
      proof (intro conjI allI impI)
        fix k assume k: "k \<notin> string_of_bytes ` fst ` set (RawBatch b)"
        then show "data_of (contents (storageDriver st')) k = data_of ?c k" "map_of sets k = None"
          using away 2(3) by (simp_all add: data data_update_def NewUpdate_def)
      next
        fix key o' assume key: "(key, o') \<in> set (RawBatch b)"
        then have ld: "loads ?c (string_of_bytes key) (st_alloc st) al (old key)" by (intro old(2)) force
        from settled key have oc: "outcome (conflictResolver st) (st_nodeID st) (now key) (the (map_of (Contexts b) key)) o' (old key) al (string_of_bytes key)
           None (map_of u (string_of_bytes key)) (map_of sets (string_of_bytes key))" by (simp add: NewUpdate_def)
        show "\<exists>ss al. MarshalJSON ss = current ?c (string_of_bytes key) \<and> distinct (map fst ss) \<and> al \<notin> fst ` set ss
          \<and> (if no_op o' ss then data_of (contents (storageDriver st')) (string_of_bytes key) = data_of ?c (string_of_bytes key) \<and> map_of sets (string_of_bytes key) = None
             else data_of (contents (storageDriver st')) (string_of_bytes key)
                    = Some (MarshalJSON (ResolveConflicts (conflictResolver st) (client_set (st_nodeID st) (now key) (the (map_of (Contexts b) key)) o' ss al)))
               \<and> map_of sets (string_of_bytes key) = Some (Some (client_set (st_nodeID st) (now key) (the (map_of (Contexts b) key)) o' ss al)))"
        proof (cases "no_op o' (old key)")
          case True
          then show ?thesis using oc ld
            by (intro exI [of _ "old key"] exI [of _ al]) (auto simp: outcome_def data data_update_def loads_def)
        next
          case False
          then obtain al0 where "al0 \<ge> al" "map_of u (string_of_bytes key) = Some \<lparr>diff_key = string_of_bytes key, diff_old = Some (old key),
              diff_new = Some (ResolveConflicts (conflictResolver st) (client_set (st_nodeID st) (now key) (the (map_of (Contexts b) key)) o' (old key) al0))\<rparr>"
            "map_of sets (string_of_bytes key) = Some (Some (client_set (st_nodeID st) (now key) (the (map_of (Contexts b) key)) o' (old key) al0))"
            using oc by (auto simp: outcome_def)
          then show ?thesis using False ld
            by (intro exI [of _ "old key"] exI [of _ al0]) (auto simp: data data_update_def loads_def)
        qed
      qed
      then show ?thesis using run wu None by auto
    qed
  qed
qed

end

context bucket_driver
begin

lemma Store_Merge_ok:
  assumes ok: "store_ok contents st" and lock: "\<not> writeLocked (writesTryLock st)" and dist: "distinct (map fst sets)"
    and keys: "'''' \<notin> fst ` set sets"
    and len: "length sets < 2 ^ 31" "unat (nextRowID st) + length sets < 2 ^ 64"
  shows "\<exists>err st'. Store_Merge D (Some sets) st = Some (err, st') \<and> store_ok contents st' \<and> same_frame st st' \<and>
    write_ran D (length sets) st err st' \<and>
    (err = None \<and> merge_effect (conflictResolver st) (st_nodeID st) (st_alloc st) sets (contents (storageDriver st)) (contents (storageDriver st'))
     \<or> err = Some EStorage \<and> contents (storageDriver st') = contents (storageDriver st) \<and> merkleTree st' = merkleTree st)"
proof -
  let ?c = "contents (storageDriver st)" and ?ks = "map fst sets"
  have keys_eq: "map (\<lambda>(key, _). bytes_of_string key) sets = map bytes_of_string ?ks" by (simp add: case_prod_beta)
  have kset: "string_of_bytes ` set (map bytes_of_string ?ks) = set ?ks" by (simp add: image_image)
  have free: "fst (TryRLock (writesTryLock st))" using lock by (simp add: TryRLock_def)
  have fst_init: "fst (updateInit D (map bytes_of_string ?ks) st) = map (encodePartitionDataKey \<circ> bytes_of_string) ?ks"
    by (simp add: updateInit_def Let_def)
  consider "snd (updateInit D (map bytes_of_string ?ks) st) = Inl EStorage" "\<exists>ks. drv_Get D (storageDriver st) ks = None"
    | m al where "snd (updateInit D (map bytes_of_string ?ks) st) = Inr (m, al)" "st_alloc st \<le> al"
        "\<forall>k \<in> set ?ks. \<exists>ss. map_of m k = Some (Some ss) \<and> loads ?c k (st_alloc st) al ss"
    using updateInit_ok [OF ok, of "map bytes_of_string ?ks"] unfolding kset by blast
  then show ?thesis
  proof cases
    case 1
    then have "Store_Merge D (Some sets) st = Some (Some EStorage, st)"
      using free by (simp add: Store_Merge_def keys_eq case_prod_beta)
    then show ?thesis using ok 1(2) by (simp add: same_frame_def write_ran_def)
  next
    case (2 m al)
    define old where "old k = the (the (map_of m k))" for k
    have old: "map_read m k = Some (old k)" "loads ?c k (st_alloc st) al (old k)" if k: "k \<in> set ?ks" for k
    proof -
      obtain ss where "map_of m k = Some (Some ss)" "loads ?c k (st_alloc st) al ss"
        using 2(3) k by blast
      then show "map_read m k = Some (old k)" "loads ?c k (st_alloc st) al (old k)" by (simp_all add: old_def map_read_def)
    qed
    obtain u al' where loop: "merge_loop (conflictResolver st) (st_nodeID st) sets m (map (encodePartitionDataKey \<circ> bytes_of_string) ?ks) (NewUpdate, al) = (u, al')"
        "wf_update u" "length u \<le> length (NewUpdate :: update) + length ?ks" "\<forall>k. k \<notin> set ?ks \<longrightarrow> map_of u k = map_of NewUpdate k"
        "\<forall>k \<in> set ?ks. merge_outcome (conflictResolver st) (st_nodeID st) al (map_read sets k) (old k) k (map_of NewUpdate k) (map_of u k)"
      using merge_loop_spec [OF dist, of m old NewUpdate "conflictResolver st" "st_nodeID st" sets al] old(1) by auto
    have ulen: "length u \<le> length sets" using loop(3) by (simp add: NewUpdate_def)
    have none: "map_of u k = None" if "map_read sets k = None" for k
      using loop(4,5) that by (cases "k \<in> set ?ks") (auto simp: merge_outcome_def NewUpdate_def)
    have in_ks: "k \<in> set ?ks" if "map_read sets k = Some theirs" for k theirs
    proof -
      have "map_of sets k \<noteq> None" using that by (auto simp: map_read_def split: option.splits)
      then show ?thesis by (simp add: map_of_eq_None_iff)
    qed
    have "usable_update ?c u" unfolding usable_update_def
    proof (intro conjI ballI)
      show "wf_update u" by (rule loop(2))
      show "length u < 2 ^ 31" using ulen len(1) by simp
      fix x assume x: "x \<in> set u"
      obtain k df where kd: "x = (k, df)" by fastforce
      have df: "map_of u k = Some df" using x loop(2) by (simp add: kd wf_update_def)
      then obtain theirs where th: "map_read sets k = Some theirs" using none by (cases "map_read sets k") auto
      then have "k \<in> set ?ks" by (rule in_ks)
      moreover have "diff_old df = Some (old k)" "diff_new df \<noteq> None"
        using loop(5) df th \<open>k \<in> set ?ks\<close> by (force simp: merge_outcome_def NewUpdate_def Let_def split: if_splits)+
      moreover have "k \<noteq> ''''" using keys \<open>k \<in> set ?ks\<close> by (metis set_map)
      ultimately show "case x of (key, df) \<Rightarrow> key \<noteq> '''' \<and> diff_new df \<noteq> None
          \<and> SiblingSet_Hash (diff_old df) (bytes_of_string key) = obj_hash (db_of ?c) key"
        using obj_hash_loads [OF old(2) [OF \<open>k \<in> set ?ks\<close>]] by (simp add: kd)
    qed
    then obtain err st' where wu: "write_update D u (st\<lparr>st_alloc := al'\<rparr>) = Some (err, st')" "store_ok contents st'" "same_frame st st'"
        "write_ran D (length u) (st\<lparr>st_alloc := al'\<rparr>) err st'"
        "err = None \<and> data_of (contents (storageDriver st')) = data_update u (data_of ?c)
         \<or> err = Some EStorage \<and> contents (storageDriver st') = ?c \<and> merkleTree st' = merkleTree st"
      using write_update_ok [of "st\<lparr>st_alloc := al'\<rparr>" u] ok ulen len(2) by (auto simp: store_ok_def same_frame_def)
    have run: "Store_Merge D (Some sets) st
        = (if Update_Size u \<noteq> 0 then write_update D u (st\<lparr>st_alloc := al'\<rparr>) else Some (None, st\<lparr>st_alloc := al'\<rparr>))"
      using free 2(1) loop(1) fst_init by (simp add: Store_Merge_def keys_eq case_prod_beta)
    have effect: "merge_effect (conflictResolver st) (st_nodeID st) (st_alloc st) sets ?c c'"
      if data: "data_of c' = data_update u (data_of ?c)" for c'
      unfolding merge_effect_def
    proof (intro conjI allI impI)
      fix k assume "map_read sets k = None"
      then show "data_of c' k = data_of ?c k" using none by (simp add: data data_update_def)
    next
      fix k theirs assume th: "map_read sets k = Some theirs"
      then have k: "k \<in> set ?ks" by (rule in_ks)
      then have mo: "merge_outcome (conflictResolver st) (st_nodeID st) al (Some theirs) (old k) k None (map_of u k)"
        using loop(5) th by (force simp: NewUpdate_def)
      then obtain al0 where al0: "al0 \<ge> al" "map_of u k = (if set (fst (MergeSync al0 (old k) theirs (st_nodeID st))) \<subseteq> set (old k) then None
          else Some \<lparr>diff_key = k, diff_old = Some (old k), diff_new = Some (ResolveConflicts (conflictResolver st) (fst (MergeSync al0 (old k) theirs (st_nodeID st))))\<rparr>)"
        by (auto simp: merge_outcome_def Let_def)
      have ld: "loads ?c k (st_alloc st) al (old k)" by (rule old(2) [OF k])
      show "\<exists>ss al. MarshalJSON ss = current ?c k \<and> distinct (map fst ss) \<and> fst ` set ss \<subseteq> {st_alloc st..<al}
          \<and> (let merged = fst (MergeSync al ss theirs (st_nodeID st)) in
             data_of c' k = (if set merged \<subseteq> set ss then data_of ?c k else Some (MarshalJSON (ResolveConflicts (conflictResolver st) merged))))"
        using ld al0 by (intro exI [of _ "old k"] exI [of _ al0]) (auto simp: loads_def data data_update_def Let_def)
    qed
    show ?thesis
    proof (cases "Update_Size u = 0")
      case True
      then have "u = []" by (simp add: Update_Size_def)
      then have "merge_effect (conflictResolver st) (st_nodeID st) (st_alloc st) sets ?c ?c"
        by (intro effect) (simp add: data_update_def fun_eq_iff)
      then show ?thesis using run True ok by (simp add: store_ok_def same_frame_def write_ran_def)
    next
      case False
      then show ?thesis using run wu effect write_ran_mono [OF wu(4) ulen] by auto
    qed
  qed
qed

end

end
