(* ===== verification/Store_Upkeep.thy ===== *)
theory Store_Upkeep
  imports Store_Ops
begin

text \<open>Reads, garbage collection and forgetting over the database of a store.\<close>

section \<open>Reads\<close>

lemma MarshalJSON_zip [simp]: "MarshalJSON (zip [al..<al + length ss] ss) = ss"
  by (simp add: MarshalJSON_def map_snd_zip)

lemma decode_values_ok:
  assumes rows: "rows_ok c n"
  shows "\<exists>xs al'. decode_values StorageFormatVersion al (map (c \<circ> encodePartitionDataKey) keys) = Some (xs, al') \<and> al \<le> al'
    \<and> map (map_option MarshalJSON) xs = map (data_of c \<circ> string_of_bytes) keys"
proof (induction keys arbitrary: al)
  case (Cons key keys)
  show ?case
  proof (cases "c (encodePartitionDataKey key)")
    case None
    obtain xs al' where "decode_values StorageFormatVersion al (map (c \<circ> encodePartitionDataKey) keys) = Some (xs, al')" "al \<le> al'"
        "map (map_option MarshalJSON) xs = map (data_of c \<circ> string_of_bytes) keys" using Cons.IH by blast
    then show ?thesis using None by (intro exI [of _ "None # xs"] exI [of _ al']) (simp add: data_of_def comp_def)
  next
    case (Some v)
    then obtain k ver ss where v: "v = StoredRow k ver (Some ss)" using rows_okD [OF rows] by blast
    obtain xs al' where "decode_values StorageFormatVersion (al + length ss) (map (c \<circ> encodePartitionDataKey) keys) = Some (xs, al')" "al + length ss \<le> al'"
        "map (map_option MarshalJSON) xs = map (data_of c \<circ> string_of_bytes) keys" using Cons.IH by blast
    then show ?thesis using Some
      by (intro exI [of _ "Some (zip [al..<al + length ss] ss) # xs"] exI [of _ al'])
        (simp add: v Row_Decode_row data_of_def comp_def)
  qed
qed simp

definition readable_key :: "bytes \<Rightarrow> bool" where
  "readable_key key \<longleftrightarrow> key \<noteq> [] \<and> length key \<le> MAX_SORTING_KEY_LENGTH"

lemma check_keys_None: "check_keys keys = None \<longleftrightarrow> (\<forall>key \<in> set keys. readable_key key)"
  by (induction keys rule: check_keys.induct) (auto simp: readable_key_def)

context bucket_driver
begin

lemma Store_Get_ok:
  assumes ok: "store_ok contents st" and lock: "\<not> writeLocked (readsTryLock st)" and keys: "keys \<noteq> []" "\<forall>key \<in> set keys. readable_key key"
  shows "Store_Get D keys st = (Inl EStorage, st) \<and> drv_Get D (storageDriver st) (map encodePartitionDataKey keys) = None
    \<or> (\<exists>xs al. Store_Get D keys st = (Inr xs, st\<lparr>st_alloc := al\<rparr>)
         \<and> map (map_option MarshalJSON) xs = map (data_of (contents (storageDriver st)) \<circ> string_of_bytes) keys)"
proof (cases "drv_Get D (storageDriver st) (map encodePartitionDataKey keys)")
  case None
  then show ?thesis using lock keys check_keys_None [of keys] by (simp add: Store_Get_def TryRLock_def)
next
  case (Some vs)
  then have vs: "vs = map (contents (storageDriver st) \<circ> encodePartitionDataKey) keys" using get_law [OF Some] by simp
  have "rows_ok (contents (storageDriver st)) (nextRowID st)" "storageFormatVersion st = StorageFormatVersion"
    using ok by (simp_all add: store_ok_def)
  with decode_values_ok [of "contents (storageDriver st)" "nextRowID st" "st_alloc st" keys] show ?thesis
    using Some vs lock keys check_keys_None [of keys] by (auto simp: Store_Get_def TryRLock_def)
qed

lemma Store_Get_one:
  assumes ok: "store_ok contents st" and lock: "\<not> writeLocked (readsTryLock st)"
  shows "(\<exists>e. Store_Get D [key] st = (Inl e, st) \<and> (readable_key key \<longrightarrow> drv_Get D (storageDriver st) [encodePartitionDataKey key] = None))
    \<or> (\<exists>sso al. Store_Get D [key] st = (Inr [sso], st\<lparr>st_alloc := al\<rparr>) \<and> readable_key key
         \<and> map_option MarshalJSON sso = data_of (contents (storageDriver st)) (string_of_bytes key))"
proof (cases "readable_key key")
  case True
  then show ?thesis using Store_Get_ok [OF assms, of "[key]"] by (auto simp: Cons_eq_map_conv)
next
  case False
  then have "check_keys [key] \<noteq> None" using check_keys_None [of "[key]"] by simp
  then show ?thesis using lock False by (auto simp: Store_Get_def TryRLock_def)
qed

end

section \<open>Garbage collection\<close>

definition purgeable :: "u64 \<Rightarrow> sibling list \<Rightarrow> bool" where
  "purgeable cutoff l \<longleftrightarrow> (\<forall>s \<in> set l. IsTombstone s \<and> Timestamp s < cutoff)"

definition gc_cutoff :: "u64 \<Rightarrow> u64 \<Rightarrow> u64" where
  "gc_cutoff nanos age = NanoToMilli nanos - (if age > NanoToMilli nanos then NanoToMilli nanos else age)"

lemma CanPurge_purgeable: "CanPurge ss cutoff \<longleftrightarrow> purgeable cutoff (MarshalJSON ss)"
  by (auto simp: CanPurge_iff purgeable_def MarshalJSON_def not_le)

lemma data_of_delete:
  assumes "c' = c(encodePartitionMerkleLeafKey n key := None, encodePartitionDataKey key := None)"
  shows "data_of c' = (data_of c)(string_of_bytes key := None)"
proof
  fix k show "data_of c' k = ((data_of c)(string_of_bytes key := None)) k"
    using bytes_string_iff [of key k] by (auto simp: data_of_def assms)
qed

lemma finite_db_of_delete: "finite (dom (db_of c)) \<Longrightarrow> data_of c' = (data_of c)(k := None) \<Longrightarrow> finite (dom (db_of c'))"
  by (simp add: dom_db_of)

lemma index_ok_delete:
  assumes "index_ok t c" "c' = c(encodePartitionMerkleLeafKey (Tree_LeafNode t key) key := None, encodePartitionDataKey key := None)"
  shows "index_ok t c'"
  using assms(1) unfolding index_ok_def assms(2) by auto

lemma rows_ok_delete: "rows_ok c n \<Longrightarrow> rows_ok (c(encodePartitionMerkleLeafKey m key := None, encodePartitionDataKey key := None)) n"
  by (simp add: rows_ok_def)

lemma leaves_ok_delete: "leaves_ok t c \<Longrightarrow> leaves_ok t (c(encodePartitionMerkleLeafKey m key := None, encodePartitionDataKey key := None))"
  by (auto simp: leaves_ok_def encode_simps)

context bucket_driver
begin

lemma purge_key_ok:
  assumes ok: "store_ok contents st" and lock: "\<not> writeLocked (readsTryLock st)"
    and run: "st' = purge_key D cutoff key st"
  shows "store_ok contents st' \<and> same_frame st st' \<and> merkleTree st' = merkleTree st
    \<and> (data_of (contents (storageDriver st')) = data_of (contents (storageDriver st))
       \<or> (\<exists>l. data_of (contents (storageDriver st)) (string_of_bytes key) = Some l \<and> purgeable cutoff l)
           \<and> data_of (contents (storageDriver st')) = (data_of (contents (storageDriver st)))(string_of_bytes key := None))
    \<and> ((\<forall>s ks. drv_Get D s ks \<noteq> None) \<longrightarrow> (\<forall>s b. fst (drv_Batch D s b)) \<longrightarrow> readable_key key \<longrightarrow>
        (\<exists>l. data_of (contents (storageDriver st)) (string_of_bytes key) = Some l \<and> purgeable cutoff l) \<longrightarrow>
        data_of (contents (storageDriver st')) (string_of_bytes key) = None)"
proof -
  let ?c = "contents (storageDriver st)" and ?t = "merkleTree st"
  have frame [simp]: "store_ok contents (st\<lparr>st_alloc := al\<rparr>) = store_ok contents st" "same_frame st (st\<lparr>st_alloc := al\<rparr>)" "same_frame st st" for al
    by (simp_all add: store_ok_def same_frame_def)
  consider e where "Store_Get D [key] st = (Inl e, st)" "readable_key key \<longrightarrow> drv_Get D (storageDriver st) [encodePartitionDataKey key] = None"
    | sso al where "Store_Get D [key] st = (Inr [sso], st\<lparr>st_alloc := al\<rparr>)" "map_option MarshalJSON sso = data_of ?c (string_of_bytes key)"
    using Store_Get_one [OF ok lock, of key] by blast
  then show ?thesis
  proof cases
    case 1
    then have "\<not> (readable_key key \<and> (\<forall>s ks. drv_Get D s ks \<noteq> None))" by metis
    moreover have "st' = st" using 1 by (simp add: run purge_key_def)
    ultimately show ?thesis using ok frame(3) by blast
  next
    case (2 sso al)
    show ?thesis
    proof (cases "\<exists>ss. sso = Some ss \<and> CanPurge ss cutoff")
      case False
      then have "st' = st\<lparr>st_alloc := al\<rparr>" using 2(1) by (auto simp: run purge_key_def split: option.split)
      moreover have "\<not> (\<exists>l. data_of ?c (string_of_bytes key) = Some l \<and> purgeable cutoff l)"
        using False 2(2) by (cases sso) (auto simp: CanPurge_purgeable)
      ultimately show ?thesis using ok by auto
    next
      case True
      then obtain ss where ss: "sso = Some ss" "CanPurge ss cutoff" by blast
      define b :: "stored batch" where "b = Batch_Delete (encodePartitionDataKey key) (Batch_Delete (encodePartitionMerkleLeafKey (Tree_LeafNode ?t key) key) NewBatch)"
      obtain ok' s where dr: "drv_Batch D (storageDriver st) b = (ok', s)" by fastforce
      have st': "st' = st\<lparr>st_alloc := al, storageDriver := s\<rparr>" using 2(1) ss dr by (simp add: run purge_key_def b_def)
      have l: "data_of ?c (string_of_bytes key) = Some (MarshalJSON ss)" "purgeable cutoff (MarshalJSON ss)"
        using 2(2) ss by (simp_all add: CanPurge_purgeable)
      show ?thesis
      proof (cases ok')
        case False
        then have "contents s = ?c" using batch_failed dr by simp
        moreover have "\<not> (\<forall>s b. fst (drv_Batch D s b))" using dr False by (metis fst_conv)
        ultimately show ?thesis using ok by (auto simp: st' store_ok_def same_frame_def)
      next
        case True
        then have c': "contents s = ?c(encodePartitionMerkleLeafKey (Tree_LeafNode ?t key) key := None, encodePartitionDataKey key := None)"
          using batch_law [of "storageDriver st" b s] dr by (simp add: b_def)
        note data = data_of_delete [OF c']
        have rep: "represents ?t (db_of ?c)" using ok by (simp add: store_ok_def)
        have zero: "obj_hash (db_of ?c) (string_of_bytes key) = zero_hash"
          using obj_hash_db_of [of ?c "string_of_bytes key" "Some ss"] l(1) SiblingSet_Hash_purgeable [OF ss(2)] by simp
        have "represents ?t (db_of (contents s))"
        proof (rule represents_cong [OF rep])
          show "finite (dom (db_of (contents s)))" using rep by (intro finite_db_of_delete [OF _ data]) (simp add: represents_def)
          show "obj_hash (db_of (contents s)) k = obj_hash (db_of ?c) k" for k
            using zero by (cases "k = string_of_bytes key") (simp_all add: data obj_hash_def db_of_def SiblingSet_Hash_def)
        qed
        then have "store_ok contents st'"
          using ok index_ok_delete [OF _ c'] rows_ok_delete leaves_ok_delete by (simp add: store_ok_def st' c')
        then show ?thesis using l data by (auto simp: st' same_frame_def)
      qed
    qed
  qed
qed

lemma collect_loop_ok:
  assumes "store_ok contents st" "\<not> writeLocked (readsTryLock st)" "\<forall>e \<in> set es. en_Value e \<noteq> None"
  shows "\<exists>st'. collect_loop D cutoff es st = Some st' \<and> store_ok contents st' \<and> same_frame st st' \<and> merkleTree st' = merkleTree st
    \<and> (\<forall>k. data_of (contents (storageDriver st')) k = data_of (contents (storageDriver st)) k
         \<or> (\<exists>l. data_of (contents (storageDriver st)) k = Some l \<and> purgeable cutoff l) \<and> data_of (contents (storageDriver st')) k = None)
    \<and> ((\<forall>s ks. drv_Get D s ks \<noteq> None) \<longrightarrow> (\<forall>s b. fst (drv_Batch D s b)) \<longrightarrow>
        (\<forall>e \<in> set es. readable_key (en_Key e) \<longrightarrow> CanPurge (the (en_Value e)) cutoff \<longrightarrow>
          (\<exists>l. data_of (contents (storageDriver st)) (string_of_bytes (en_Key e)) = Some l \<and> purgeable cutoff l) \<longrightarrow>
          data_of (contents (storageDriver st')) (string_of_bytes (en_Key e)) = None))"
  using assms
proof (induction es arbitrary: st)
  case Nil
  then show ?case by (simp add: same_frame_def)
next
  case (Cons e es)
  obtain ss where ss: "en_Value e = Some ss" using Cons.prems(3) by auto
  define st1 where "st1 = (if CanPurge ss cutoff then purge_key D cutoff (en_Key e) st else st)"
  note purge = purge_key_ok [OF Cons.prems(1,2) refl, of cutoff "en_Key e"]
  have st1: "store_ok contents st1" "same_frame st st1" "merkleTree st1 = merkleTree st"
    using Cons.prems(1) purge by (auto simp: st1_def same_frame_def)
  have d1: "data_of (contents (storageDriver st1)) k = data_of (contents (storageDriver st)) k
         \<or> (\<exists>l. data_of (contents (storageDriver st)) k = Some l \<and> purgeable cutoff l) \<and> data_of (contents (storageDriver st1)) k = None" for k
    using purge by (cases "k = string_of_bytes (en_Key e)") (auto simp: st1_def)
  have lock: "\<not> writeLocked (readsTryLock st1)" using st1(2) Cons.prems(2) by (simp add: same_frame_def)
  have some: "\<forall>e \<in> set es. en_Value e \<noteq> None" using Cons.prems(3) by simp
  obtain st' where rest: "collect_loop D cutoff es st1 = Some st'" "store_ok contents st'" "same_frame st1 st'" "merkleTree st' = merkleTree st1"
      "\<forall>k. data_of (contents (storageDriver st')) k = data_of (contents (storageDriver st1)) k
         \<or> (\<exists>l. data_of (contents (storageDriver st1)) k = Some l \<and> purgeable cutoff l) \<and> data_of (contents (storageDriver st')) k = None"
      "(\<forall>s ks. drv_Get D s ks \<noteq> None) \<longrightarrow> (\<forall>s b. fst (drv_Batch D s b)) \<longrightarrow>
        (\<forall>e \<in> set es. readable_key (en_Key e) \<longrightarrow> CanPurge (the (en_Value e)) cutoff \<longrightarrow>
          (\<exists>l. data_of (contents (storageDriver st1)) (string_of_bytes (en_Key e)) = Some l \<and> purgeable cutoff l) \<longrightarrow>
          data_of (contents (storageDriver st')) (string_of_bytes (en_Key e)) = None)"
    using Cons.IH [OF st1(1) lock some] by blast
  have step: "collect_loop D cutoff (e # es) st = collect_loop D cutoff es st1" by (simp add: ss st1_def)
  have d2: "data_of (contents (storageDriver st')) k = data_of (contents (storageDriver st)) k
         \<or> (\<exists>l. data_of (contents (storageDriver st)) k = Some l \<and> purgeable cutoff l) \<and> data_of (contents (storageDriver st')) k = None" for k
    using d1 [of k] rest(5) by metis
  have gone: "data_of (contents (storageDriver st')) (string_of_bytes (en_Key x)) = None"
    if x: "x \<in> set (e # es)" "readable_key (en_Key x)" "CanPurge (the (en_Value x)) cutoff"
      "\<exists>l. data_of (contents (storageDriver st)) (string_of_bytes (en_Key x)) = Some l \<and> purgeable cutoff l"
      and drv: "\<forall>s ks. drv_Get D s ks \<noteq> None" "\<forall>s b. fst (drv_Batch D s b)" for x
  proof (cases "data_of (contents (storageDriver st1)) (string_of_bytes (en_Key x)) = None")
    case True
    then show ?thesis using rest(5) by (metis option.distinct(1))
  next
    case False
    then have same: "data_of (contents (storageDriver st1)) (string_of_bytes (en_Key x)) = data_of (contents (storageDriver st)) (string_of_bytes (en_Key x))"
      using d1 by metis
    have "x \<noteq> e"
    proof
      assume "x = e"
      then have "data_of (contents (storageDriver st1)) (string_of_bytes (en_Key e)) = None" using purge x drv ss by (auto simp: st1_def)
      with False \<open>x = e\<close> show False by simp
    qed
    then have "x \<in> set es" using x(1) by simp
    with rest(6) drv x(2-4) same show ?thesis by metis
  qed
  have sf: "same_frame st st'" using st1(2) rest(3) by (simp add: same_frame_def)
  have tree: "merkleTree st' = merkleTree st" using rest(4) st1(3) by simp
  show ?case
    by (intro exI [of _ st'] conjI impI allI ballI) (rule step [unfolded rest(1)] rest(2) sf tree d2 gone | assumption)+
qed

end

section \<open>Iterators\<close>

definition entry_for :: "bytes \<times> bytes \<times> stored \<Rightarrow> entry \<Rightarrow> bool" where
  "entry_for it e \<longleftrightarrow> en_Key e = decodePartitionDataKey (fst (snd it)) \<and>
     (\<exists>key ss. en_Value e = Some ss \<and> snd (snd it) = StoredRow key (en_LocalVersion e) (Some (MarshalJSON ss)))"

lemma basic_entries_ok:
  assumes "\<And>p k v. (p, k, v) \<in> set its \<Longrightarrow> \<exists>key ver ss. v = StoredRow key ver (Some ss)"
  shows "\<exists>es al'. basic_entries StorageFormatVersion al its err = (es, err, al') \<and> al \<le> al' \<and> list_all2 entry_for its es"
  using assms
proof (induction its arbitrary: al)
  case (Cons x its)
  obtain p k v where x: "x = (p, k, v)" using prod_cases3 by blast
  obtain key ver ss where v: "v = StoredRow key ver (Some ss)" using Cons.prems [of p k v] by (auto simp: x)
  obtain es al' where rest: "basic_entries StorageFormatVersion (al + length ss) its err = (es, err, al')" "al + length ss \<le> al'" "list_all2 entry_for its es"
    using Cons.IH [of "al + length ss"] Cons.prems by (metis list.set_intros(2))
  let ?e = "\<lparr>en_Prefix = decodePartitionDataKey p, en_Key = decodePartitionDataKey k,
      en_Value = Some (zip [al..<al + length ss] ss), en_LocalVersion = ver\<rparr>"
  have "basic_entries StorageFormatVersion al (x # its) err = (?e # es, err, al')" using rest(1) by (simp add: x v Row_Decode_row)
  moreover have "entry_for x ?e" by (simp add: entry_for_def x v)
  ultimately show ?case using rest by auto
qed simp

lemma data_keys: "c x \<noteq> None \<Longrightarrow> prefix PARTITION_DATA_PREFIX x \<Longrightarrow> \<exists>k. x = encodePartitionDataKey k"
  by (auto simp: prefix_def encodePartitionDataKey_def)

lemma prefix_data_key [simp]: "prefix PARTITION_DATA_PREFIX (encodePartitionDataKey k)"
  by (simp add: encodePartitionDataKey_def)

context bucket_driver
begin

text \<open>The entries of an iterator over all rows: each is a row, and none is missing unless the driver failed.\<close>

lemma all_entries:
  assumes rows: "rows_ok (contents s) n" and its: "drv_GetMatches D s [PARTITION_DATA_PREFIX] = Some (its, err)"
  shows "\<exists>es al'. NewBasicSiblingSetIterator (its, err') StorageFormatVersion al = (es, err', al')
    \<and> (\<forall>e \<in> set es. en_Value e \<noteq> None \<and>
         (\<exists>key. contents s (encodePartitionDataKey (en_Key e)) = Some (StoredRow key (en_LocalVersion e) (map_option MarshalJSON (en_Value e)))))
    \<and> distinct (map en_Key es)
    \<and> (\<not> err \<longrightarrow> (\<forall>k. contents s (encodePartitionDataKey k) \<noteq> None \<longrightarrow> k \<in> en_Key ` set es))"
proof -
  have sub: "set (found its) \<subseteq> {(k, v). contents s k = Some v \<and> prefix PARTITION_DATA_PREFIX k}" and dist: "distinct (map fst (found its))"
    using matches_law [of s "[PARTITION_DATA_PREFIX]" its] matches_sound [of s "[PARTITION_DATA_PREFIX]" its] its by (cases err; auto)+
  have item: "\<exists>k'. k = encodePartitionDataKey k' \<and> contents s k = Some v" if "(p, k, v) \<in> set its" for p k v
  proof -
    have "(k, v) \<in> set (found its)" using that by (force simp: found_def)
    then have "contents s k = Some v" "prefix PARTITION_DATA_PREFIX k" using sub by auto
    then show ?thesis using data_keys [of "contents s" k] by auto
  qed
  then have "\<exists>key ver ss. v = StoredRow key ver (Some ss)" if "(p, k, v) \<in> set its" for p k v
    using that rows_okD [OF rows] by metis
  then obtain es al' where es: "basic_entries StorageFormatVersion al its err' = (es, err', al')" "list_all2 entry_for its es"
    using basic_entries_ok [of its al err'] by metis
  have "en_Value e \<noteq> None \<and> (\<exists>key. contents s (encodePartitionDataKey (en_Key e)) = Some (StoredRow key (en_LocalVersion e) (map_option MarshalJSON (en_Value e))))"
    if e: "e \<in> set es" for e
  proof -
    obtain x where x: "x \<in> set its" "entry_for x e" using es(2) e by (metis list_all2_conv_all_nth in_set_conv_nth)
    obtain p k v where pkv: "x = (p, k, v)" using prod_cases3 by blast
    obtain k' where k': "k = encodePartitionDataKey k'" "contents s k = Some v" using item x(1) pkv by blast
    then show ?thesis using x(2) by (auto simp: entry_for_def pkv)
  qed
  moreover have keys: "map en_Key es = map (\<lambda>(k, v). decodePartitionDataKey k) (found its)"
    using es(2) by (induction its es rule: list_all2_induct) (auto simp: entry_for_def found_def)
  have "distinct (map en_Key es)"
  proof -
    have "inj_on (\<lambda>(k, v). decodePartitionDataKey k) (set (found its))"
    proof (rule inj_onI, clarify)
      fix k v k' v' assume kv: "(k, v) \<in> set (found its)" "(k', v') \<in> set (found its)" "decodePartitionDataKey k = decodePartitionDataKey k'"
      then have "contents s k = Some v" "contents s k' = Some v'" "prefix PARTITION_DATA_PREFIX k" "prefix PARTITION_DATA_PREFIX k'" using sub by auto
      then show "k = k' \<and> v = v'" using kv(3) data_keys [of "contents s"] by (metis decode_encode(1) option.distinct(1) option.inject)
    qed
    moreover have "distinct (found its)" using dist by (simp add: distinct_map)
    ultimately show ?thesis unfolding keys by (simp add: distinct_map)
  qed
  moreover have "k \<in> en_Key ` set es" if k: "\<not> err" "contents s (encodePartitionDataKey k) \<noteq> None" for k
  proof -
    obtain v where v: "contents s (encodePartitionDataKey k) = Some v" using k(2) by blast
    then have "(encodePartitionDataKey k, v) \<in> set (found its)"
      using matches_law [of s "[PARTITION_DATA_PREFIX]" its] its k(1) by auto
    then have "k \<in> set (map en_Key es)" unfolding keys by force
    then show ?thesis by simp
  qed
  ultimately show ?thesis using es(1) by (simp add: NewBasicSiblingSetIterator_def)
qed

lemma GarbageCollect_ok:
  assumes ok: "store_ok contents st" and lock: "\<not> writeLocked (readsTryLock st)"
    and cutoff: "cutoff = gc_cutoff nanos age"
  shows "\<exists>err st'. GarbageCollect D nanos age st = Some (err, st') \<and> store_ok contents st' \<and> same_frame st st' \<and> merkleTree st' = merkleTree st
    \<and> (\<forall>k. data_of (contents (storageDriver st')) k = data_of (contents (storageDriver st)) k
         \<or> (\<exists>l. data_of (contents (storageDriver st)) k = Some l \<and> purgeable cutoff l) \<and> data_of (contents (storageDriver st')) k = None)
    \<and> ((\<forall>s ks. drv_Get D s ks \<noteq> None) \<longrightarrow> (\<forall>s b. fst (drv_Batch D s b)) \<longrightarrow> err = None \<longrightarrow>
        (\<forall>key l. readable_key key \<longrightarrow> data_of (contents (storageDriver st)) (string_of_bytes key) = Some l \<longrightarrow> purgeable cutoff l \<longrightarrow>
          data_of (contents (storageDriver st')) (string_of_bytes key) = None))"
proof (cases "drv_GetMatches D (storageDriver st) [PARTITION_DATA_PREFIX]")
  case None
  then show ?thesis using ok by (auto simp: GarbageCollect_def same_frame_def)
next
  case (Some it)
  obtain its derr where it: "it = (its, derr)" by fastforce
  have rows: "rows_ok (contents (storageDriver st)) (nextRowID st)" and fmt: "storageFormatVersion st = StorageFormatVersion"
    using ok by (simp_all add: store_ok_def)
  obtain es al where es: "NewBasicSiblingSetIterator (its, False) StorageFormatVersion (st_alloc st) = (es, False, al)"
      "\<forall>e \<in> set es. en_Value e \<noteq> None \<and> (\<exists>key. contents (storageDriver st) (encodePartitionDataKey (en_Key e))
          = Some (StoredRow key (en_LocalVersion e) (map_option MarshalJSON (en_Value e))))"
      "\<not> derr \<longrightarrow> (\<forall>k. contents (storageDriver st) (encodePartitionDataKey k) \<noteq> None \<longrightarrow> k \<in> en_Key ` set es)"
    using all_entries [OF rows, of its derr False "st_alloc st"] Some it by blast
  let ?st = "st\<lparr>st_alloc := al\<rparr>"
  have ok': "store_ok contents ?st" using ok by (simp add: store_ok_def)
  obtain st' where gc: "collect_loop D cutoff es ?st = Some st'" "store_ok contents st'" "same_frame ?st st'" "merkleTree st' = merkleTree ?st"
      "\<forall>k. data_of (contents (storageDriver st')) k = data_of (contents (storageDriver ?st)) k
         \<or> (\<exists>l. data_of (contents (storageDriver ?st)) k = Some l \<and> purgeable cutoff l) \<and> data_of (contents (storageDriver st')) k = None"
      "(\<forall>s ks. drv_Get D s ks \<noteq> None) \<longrightarrow> (\<forall>s b. fst (drv_Batch D s b)) \<longrightarrow>
        (\<forall>e \<in> set es. readable_key (en_Key e) \<longrightarrow> CanPurge (the (en_Value e)) cutoff \<longrightarrow>
          (\<exists>l. data_of (contents (storageDriver ?st)) (string_of_bytes (en_Key e)) = Some l \<and> purgeable cutoff l) \<longrightarrow>
          data_of (contents (storageDriver st')) (string_of_bytes (en_Key e)) = None)"
  proof -
    have "\<not> writeLocked (readsTryLock ?st)" "\<forall>e \<in> set es. en_Value e \<noteq> None" using lock es(2) by simp_all
    from collect_loop_ok [OF ok' this, of cutoff] that show thesis by blast
  qed
  have run: "GarbageCollect D nanos age st = Some (if derr then Some EStorage else None, st')"
    using Some it es(1) gc(1) by (simp add: GarbageCollect_def fmt cutoff gc_cutoff_def Let_def)
  have "data_of (contents (storageDriver st')) (string_of_bytes key) = None"
    if drv: "\<forall>s ks. drv_Get D s ks \<noteq> None" "\<forall>s b. fst (drv_Batch D s b)" "\<not> derr"
      and key: "readable_key key" "data_of (contents (storageDriver st)) (string_of_bytes key) = Some l" "purgeable cutoff l" for key l
  proof -
    have "contents (storageDriver st) (encodePartitionDataKey key) \<noteq> None" using key(2) by (auto simp: data_of_def split: option.splits)
    then obtain e where e: "e \<in> set es" "en_Key e = key" using es(3) drv(3) by auto
    obtain v where "en_Value e = Some v" "MarshalJSON v = l" using es(2) e key(2) by (force simp: data_of_def)
    then have "CanPurge (the (en_Value e)) cutoff" using key(3) by (simp add: CanPurge_purgeable)
    then show ?thesis using gc(6) drv e key by auto
  qed
  moreover have "same_frame st st'" using gc(3) by (simp add: same_frame_def)
  ultimately show ?thesis using run gc(2,4,5) by auto
qed

end

section \<open>Forgetting\<close>

lemma represents_forget:
  assumes rep: "represents t D" and key: "D key \<noteq> None" and t': "merkle_ok t'" "mt_depth t' = mt_depth t"
    and leaf: "\<And>m. IsLeaf t m \<Longrightarrow> NodeHash t' m = (if m = key_leaf (mt_depth t) key then Xor (NodeHash t m) (obj_hash D key) else NodeHash t m)"
    and D': "D' = D(key := None)"
  shows "represents t' D'"
proof -
  have t: "tree_ok t" and fin: "finite (dom D)" using rep by (auto simp: represents_def)
  have "node_at (mt_nodes t') (j, 0) = hxs.F (obj_hash D') {k \<in> dom D'. leaf_idx (mt_depth t) k = j}" if v: "valid_node (td t) (j, 0)" for j
  proof -
    let ?A = "{k \<in> dom D. leaf_idx (mt_depth t) k = j}" and ?m = "word_node (j, 0)"
    have old: "NodeHash t ?m = hxs.F (obj_hash D) ?A"
      using rep v NodeHash_node [OF t v] by (simp add: represents_def)
    have new: "node_at (mt_nodes t') (j, 0) = NodeHash t' ?m" using NodeHash_node [of t' "(j, 0)"] t' v by simp
    have num: "unat ?m = node_no j 0" using unat_word_node [of j 0] node_bound [OF t v] by simp
    have isl: "IsLeaf t ?m" using v unfolding IsLeaf_iff [OF t] num by (simp add: valid_node_def node_no_def)
    have hit: "?m = key_leaf (mt_depth t) key \<longleftrightarrow> leaf_idx (mt_depth t) key = j"
      using leaf_idx [OF t, of key] num by (auto simp: leaf_idx_def node_no_def)
    have "{k \<in> dom D'. leaf_idx (mt_depth t) k = j} = ?A - {key}" by (auto simp: D')
    moreover have "hxs.F (obj_hash D') (?A - {key}) = hxs.F (obj_hash D) (?A - {key})"
      by (intro hxs.cong refl) (simp add: D' obj_hash_def)
    moreover have "hxs.F (obj_hash D) ?A = Xor (obj_hash D key) (hxs.F (obj_hash D) (?A - {key}))" if "leaf_idx (mt_depth t) key = j"
      using that key fin by (intro hxs.remove) auto
    moreover have "?A - {key} = ?A" if "leaf_idx (mt_depth t) key \<noteq> j" using that by auto
    ultimately show ?thesis
      using new leaf [OF isl] hit old by (cases "leaf_idx (mt_depth t) key = j") (simp_all add: hx.xor_ac)
  qed
  moreover have "finite (dom D')" using fin by (simp add: D')
  ultimately show ?thesis using t' by (simp add: represents_def)
qed

context bucket_driver
begin

lemma forget_step:
  assumes ok: "store_ok contents st" and ss: "data_of (contents (storageDriver st)) (string_of_bytes key) = Some (MarshalJSON ss)"
  defines "leafID \<equiv> Tree_LeafNode (merkleTree st) key"
  defines "h \<equiv> Xor (NodeHash (merkleTree st) leafID) (SiblingSet_Hash (Some ss) key)"
  defines "b \<equiv> Batch_Put (encodeMerkleLeafKey leafID) (StoredBytes (Hash_Bytes h))
                  (Batch_Delete (encodePartitionDataKey key) (Batch_Delete (encodePartitionMerkleLeafKey leafID key) NewBatch))"
  shows "\<exists>t'. UpdateLeafHash (merkleTree st) leafID h = Some t' \<and> wf_batch b
    \<and> NodeHash t' leafID = h \<and> mt_depth t' = mt_depth (merkleTree st) \<and>
    (\<forall>st'. contents (storageDriver st') = apply_batch b (contents (storageDriver st)) \<longrightarrow> merkleTree st' = t' \<longrightarrow>
       nextRowID st' = nextRowID st \<longrightarrow> storageFormatVersion st' = storageFormatVersion st \<longrightarrow>
       store_ok contents st' \<and> data_of (contents (storageDriver st')) = (data_of (contents (storageDriver st)))(string_of_bytes key := None))"
proof -
  let ?c = "contents (storageDriver st)" and ?t = "merkleTree st" and ?k = "string_of_bytes key"
  have rep: "represents ?t (db_of ?c)" and t: "merkle_ok ?t" "tree_ok ?t" using ok by (auto simp: store_ok_def represents_def)
  have leaf: "leafID = key_leaf (mt_depth ?t) ?k" using Tree_LeafNode_key [of ?t ?k] by (simp add: leafID_def)
  have isl: "IsLeaf ?t leafID" using t by (simp add: leaf)
  obtain t' where t': "UpdateLeafHash ?t leafID h = Some t'" "merkle_ok t'" "mt_depth t' = mt_depth ?t"
      "\<forall>m. IsLeaf ?t m \<longrightarrow> NodeHash t' m = (if IsLeaf ?t leafID \<and> m = leafID then h else NodeHash ?t m)"
    using UpdateLeafHash_spec [OF t(1), of leafID h] by blast
  have hash: "SiblingSet_Hash (Some ss) key = obj_hash (db_of ?c) ?k" using obj_hash_db_of [of ?c ?k "Some ss"] ss by simp
  have c': "apply_batch b ?c = (?c(encodePartitionMerkleLeafKey leafID key := None, encodePartitionDataKey key := None))
      (encodeMerkleLeafKey leafID \<mapsto> StoredBytes (Hash_Bytes h))" by (simp add: b_def)
  have data: "data_of (apply_batch b ?c) = (data_of ?c)(?k := None)"
  proof -
    have "data_of (apply_batch b ?c) = data_of (?c(encodePartitionMerkleLeafKey leafID key := None, encodePartitionDataKey key := None))"
      unfolding c' by (simp add: data_of_def fun_eq_iff)
    then show ?thesis using data_of_delete by simp
  qed
  have "represents t' (db_of (apply_batch b ?c))"
  proof (rule represents_forget [OF rep _ t'(2,3)])
    show "db_of ?c ?k \<noteq> None" using ss by (simp add: db_of_def)
    show "NodeHash t' m = (if m = key_leaf (mt_depth ?t) ?k then Xor (NodeHash ?t m) (obj_hash (db_of ?c) ?k) else NodeHash ?t m)"
      if "IsLeaf ?t m" for m using t'(4) that isl leaf by (simp add: h_def hash)
    show "db_of (apply_batch b ?c) = (db_of ?c)(?k := None)" by (simp add: db_of_def data fun_eq_iff)
  qed
  moreover have "rows_ok (apply_batch b ?c) (nextRowID st)"
    using ok rows_ok_delete [of ?c "nextRowID st" leafID key] unfolding c' by (simp add: store_ok_def rows_ok_def)
  moreover have "index_ok t' (apply_batch b ?c)"
    using ok t t' NodeLimit_depth [of ?t t'] Tree_LeafNode_depth [OF t'(3)] unfolding c' store_ok_def index_ok_def leafID_def by auto
  moreover have "leaves_ok t' (apply_batch b ?c)"
  proof -
    have old: "leaves_ok ?t ?c" using ok by (simp add: store_ok_def)
    have "apply_batch b ?c (encodeMerkleLeafKey m) = Some (StoredBytes (Hash_Bytes (NodeHash t' m)))
        \<or> apply_batch b ?c (encodeMerkleLeafKey m) = None \<and> NodeHash t' m = zero_hash" if "IsLeaf t' m" for m
      using old t'(4) that isl IsLeaf_depth [OF t'(3)] unfolding c' by (auto simp: leaves_ok_def)
    moreover have "\<exists>m. IsLeaf t' m \<and> k = nodeBytes m" if "apply_batch b ?c (0 # k) \<noteq> None" for k
      using old that isl IsLeaf_depth [OF t'(3)] unfolding c' by (auto simp: leaves_ok_def encode_simps split: if_splits)
    ultimately show ?thesis unfolding leaves_ok_def by blast
  qed
  moreover have "storageFormatVersion st = StorageFormatVersion" using ok by (simp add: store_ok_def)
  ultimately show ?thesis using t' data isl by (intro exI [of _ t']) (auto simp: store_ok_def b_def)
qed

end

context bucket_driver
begin

lemma Forget_present:
  assumes ok: "store_ok contents st" and get: "Store_Get D [key] st = (Inr [Some ss], st\<lparr>st_alloc := al\<rparr>)"
    and ss: "data_of (contents (storageDriver st)) (string_of_bytes key) = Some (MarshalJSON ss)"
  shows "\<exists>ok' st1. Forget D (Some key # keys) st = (if ok' then Forget D keys st1 else Some (Some EStorage, st1))
    \<and> (ok' \<longrightarrow> store_ok contents st1 \<and> same_frame st st1
         \<and> data_of (contents (storageDriver st1)) = (data_of (contents (storageDriver st)))(string_of_bytes key := None))
    \<and> (\<not> ok' \<longrightarrow> contents (storageDriver st1) = contents (storageDriver st)
         \<and> NodeHash (merkleTree st1) (Tree_LeafNode (merkleTree st) key)
             = Xor (NodeHash (merkleTree st) (Tree_LeafNode (merkleTree st) key)) (SiblingSet_Hash (Some ss) key))
    \<and> ((\<forall>s b. fst (drv_Batch D s b)) \<longrightarrow> ok') \<and> ((\<forall>s b. \<not> fst (drv_Batch D s b)) \<longrightarrow> \<not> ok')"
proof -
  let ?leaf = "Tree_LeafNode (merkleTree st) key"
  let ?h = "Xor (NodeHash (merkleTree st) ?leaf) (SiblingSet_Hash (Some ss) key)"
  let ?b = "Batch_Put (encodeMerkleLeafKey ?leaf) (StoredBytes (Hash_Bytes ?h))
                  (Batch_Delete (encodePartitionDataKey key) (Batch_Delete (encodePartitionMerkleLeafKey ?leaf key) NewBatch)) :: stored batch"
  obtain t' where t': "UpdateLeafHash (merkleTree st) ?leaf ?h = Some t'" "wf_batch ?b" "NodeHash t' ?leaf = ?h" "mt_depth t' = mt_depth (merkleTree st)"
    and post: "\<And>st'. contents (storageDriver st') = apply_batch ?b (contents (storageDriver st)) \<Longrightarrow> merkleTree st' = t' \<Longrightarrow>
       nextRowID st' = nextRowID st \<Longrightarrow> storageFormatVersion st' = storageFormatVersion st \<Longrightarrow>
       store_ok contents st' \<and> data_of (contents (storageDriver st')) = (data_of (contents (storageDriver st)))(string_of_bytes key := None)"
    using forget_step [OF ok ss] by blast
  obtain ok' s where dr: "drv_Batch D (storageDriver st) ?b = (ok', s)" by fastforce
  let ?st = "st\<lparr>st_alloc := al, merkleTree := t', storageDriver := s\<rparr>"
  have run: "Forget D (Some key # keys) st = (if ok' then Forget D keys ?st else Some (Some EStorage, ?st))"
    using get t'(1) dr by (simp add: Let_def)
  have sf: "same_frame st ?st" by (simp add: same_frame_def t'(4))
  have good: "ok' \<longrightarrow> store_ok contents ?st \<and> same_frame st ?st
      \<and> data_of (contents (storageDriver ?st)) = (data_of (contents (storageDriver st)))(string_of_bytes key := None)"
  proof
    assume ok'
    then have "store_ok contents ?st \<and> data_of (contents (storageDriver ?st)) = (data_of (contents (storageDriver st)))(string_of_bytes key := None)"
      using batch_law dr t'(2) by (intro post) simp_all
    with sf show "store_ok contents ?st \<and> same_frame st ?st
      \<and> data_of (contents (storageDriver ?st)) = (data_of (contents (storageDriver st)))(string_of_bytes key := None)" by blast
  qed
  have bad: "\<not> ok' \<longrightarrow> contents (storageDriver ?st) = contents (storageDriver st) \<and> NodeHash (merkleTree ?st) ?leaf = ?h"
    by (cases ok') (use batch_failed dr t'(3) in auto)
  have drv: "(\<forall>s b. fst (drv_Batch D s b)) \<longrightarrow> ok'" "(\<forall>s b. \<not> fst (drv_Batch D s b)) \<longrightarrow> \<not> ok'" using dr by (metis fst_conv)+
  show ?thesis by (rule exI [of _ ok'], rule exI [of _ ?st], intro conjI) (rule run good bad drv)+
qed

lemma Forget_ok:
  assumes "store_ok contents st" "\<not> writeLocked (readsTryLock st)"
  shows "\<exists>err st'. Forget D keys st = Some (err, st')
    \<and> (err = None \<longrightarrow> store_ok contents st' \<and> same_frame st st'
         \<and> data_of (contents (storageDriver st')) = (\<lambda>k. if Some (bytes_of_string k) \<in> set keys then None else data_of (contents (storageDriver st)) k))
    \<and> (err \<noteq> None \<longrightarrow> err = Some EStorage)"
  using assms
proof (induction keys arbitrary: st)
  case Nil
  then show ?case by (simp add: same_frame_def)
next
  case (Cons x keys)
  show ?case
  proof (cases x)
    case None
    then show ?thesis using Cons.IH [OF Cons.prems] by simp
  next
    case (Some key)
    have in_iff: "Some (bytes_of_string k) \<in> set (x # keys) \<longleftrightarrow> k = string_of_bytes key \<or> Some (bytes_of_string k) \<in> set keys" for k
      using bytes_string_iff [of key k] by (auto simp: Some)
    consider e where "Store_Get D [key] st = (Inl e, st)"
      | al where "Store_Get D [key] st = (Inr [None], st\<lparr>st_alloc := al\<rparr>)" "data_of (contents (storageDriver st)) (string_of_bytes key) = None"
      | ss al where "Store_Get D [key] st = (Inr [Some ss], st\<lparr>st_alloc := al\<rparr>)"
          "data_of (contents (storageDriver st)) (string_of_bytes key) = Some (MarshalJSON ss)"
    proof -
      from Store_Get_one [OF Cons.prems, of key]
      consider e where "Store_Get D [key] st = (Inl e, st)"
        | sso al where "Store_Get D [key] st = (Inr [sso], st\<lparr>st_alloc := al\<rparr>)"
            "map_option MarshalJSON sso = data_of (contents (storageDriver st)) (string_of_bytes key)" by blast
      then show thesis
      proof cases
        case (2 sso al)
        show thesis
        proof (cases sso)
          case None
          show thesis by (rule that(2) [of al]) (use 2 None in simp_all)
        next
          case (Some ss)
          show thesis by (rule that(3) [of ss al]) (use 2 Some in simp_all)
        qed
      qed (rule that(1))
    qed
    then show ?thesis
    proof cases
      case 1
      then show ?thesis by (simp add: Some)
    next
      case (2 al)
      have "store_ok contents (st\<lparr>st_alloc := al\<rparr>)" using Cons.prems(1) by (simp add: store_ok_def)
      then obtain err st' where rest: "Forget D keys (st\<lparr>st_alloc := al\<rparr>) = Some (err, st')"
          "err = None \<longrightarrow> store_ok contents st' \<and> same_frame (st\<lparr>st_alloc := al\<rparr>) st'
           \<and> data_of (contents (storageDriver st')) = (\<lambda>k. if Some (bytes_of_string k) \<in> set keys then None else data_of (contents (storageDriver (st\<lparr>st_alloc := al\<rparr>))) k)"
          "err \<noteq> None \<longrightarrow> err = Some EStorage"
      proof -
        have "\<not> writeLocked (readsTryLock (st\<lparr>st_alloc := al\<rparr>))" using Cons.prems(2) by simp
        from Cons.IH [OF \<open>store_ok contents (st\<lparr>st_alloc := al\<rparr>)\<close> this] that show thesis by blast
      qed
      have run: "Forget D (x # keys) st = Some (err, st')" using 2(1) rest(1) by (simp add: Some)
      have "(\<lambda>k. if Some (bytes_of_string k) \<in> set keys then None else data_of (contents (storageDriver (st\<lparr>st_alloc := al\<rparr>))) k)
          = (\<lambda>k. if Some (bytes_of_string k) \<in> set (x # keys) then None else data_of (contents (storageDriver st)) k)"
        using 2(2) unfolding in_iff by auto
      note good = rest(2) [unfolded this]
      have "same_frame st st'" if "same_frame (st\<lparr>st_alloc := al\<rparr>) st'" using that by (simp add: same_frame_def)
      with run good rest(3) show ?thesis by blast
    next
      case (3 ss al)
      obtain ok' st1 where st1: "Forget D (x # keys) st = (if ok' then Forget D keys st1 else Some (Some EStorage, st1))"
          "ok' \<longrightarrow> store_ok contents st1 \<and> same_frame st st1
           \<and> data_of (contents (storageDriver st1)) = (data_of (contents (storageDriver st)))(string_of_bytes key := None)"
        using Forget_present [OF Cons.prems(1) 3] unfolding Some by blast
      show ?thesis
      proof (cases ok')
        case False
        then show ?thesis using st1(1) by simp
      next
        case True
        then have "store_ok contents st1" "same_frame st st1" "\<not> writeLocked (readsTryLock st1)"
          using st1(2) Cons.prems(2) by (auto simp: same_frame_def)
        then obtain err st' where rest: "Forget D keys st1 = Some (err, st')"
            "err = None \<longrightarrow> store_ok contents st' \<and> same_frame st1 st'
             \<and> data_of (contents (storageDriver st')) = (\<lambda>k. if Some (bytes_of_string k) \<in> set keys then None else data_of (contents (storageDriver st1)) k)"
            "err \<noteq> None \<longrightarrow> err = Some EStorage"
          using Cons.IH [of st1] by blast
        have "(\<lambda>k. if Some (bytes_of_string k) \<in> set keys then None else data_of (contents (storageDriver st1)) k)
            = (\<lambda>k. if Some (bytes_of_string k) \<in> set (x # keys) then None else data_of (contents (storageDriver st)) k)"
          using st1(2) True unfolding in_iff by auto
        note good = rest(2) [unfolded this]
        have "same_frame st st'" if "same_frame st1 st'" using that \<open>same_frame st st1\<close> by (simp add: same_frame_def)
        moreover have "Forget D (x # keys) st = Some (err, st')" using st1(1) rest(1) True by simp
        ultimately show ?thesis using good rest(3) by blast
      qed
    qed
  qed
qed

end

interpretation mem_bucket: bucket_driver "LevelDBStorageDriver (mem_leveldb :: ((bytes \<times> stored) list, stored) leveldb)"
  "level_contents (map_of :: (bytes \<times> stored) list \<Rightarrow> stored contents)"
  by (rule bucket_driver.intro) (rule mem.level.kv_driver_axioms)

end
