(* ===== verification/Store_Properties.thy ===== *)
theory Store_Properties
  imports Store_Upkeep Data_Properties
begin

text \<open>
  The properties of the bucket store over any storage driver that keeps the driver contract, each with a witness on
  a store with one tombstone in an in-memory database.
\<close>

section \<open>A concrete store\<close>

abbreviation mem_driver :: "((bytes \<times> stored) list level_driver, stored) driver" where
  "mem_driver \<equiv> LevelDBStorageDriver mem_leveldb"

abbreviation mem_contents :: "(bytes \<times> stored) list level_driver \<Rightarrow> stored contents" where
  "mem_contents \<equiv> level_contents map_of"

lemma mem_kv: "kv_driver mem_driver mem_contents"
  by (rule mem.level.kv_driver_axioms)

definition ex_key :: bytes where
  "ex_key = bytes_of_string ''k''"

definition ex_rows :: "sibling \<Rightarrow> (bytes \<times> stored) list" where
  "ex_rows t = [(encodePartitionDataKey ex_key, StoredRow ''k'' 0 (Some [t])),
     (encodePartitionMerkleLeafKey (Tree_LeafNode ex_tree ex_key) ex_key, StoredBytes [])]"

text \<open>The store of a node that has the tombstone \<open>t\<close> at the key.\<close>

definition ex_store_of :: "string \<Rightarrow> sibling \<Rightarrow> (bytes \<times> stored) list level_driver store" where
  "ex_store_of node t = \<lparr>nextRowID = 1, st_nodeID = node, storageDriver = \<lparr>db = Some (ex_rows t)\<rparr>, merkleTree = ex_tree,
     conflictResolver = MultiValue, storageFormatVersion = StorageFormatVersion, st_monitor = NewMonitor 0,
     writesTryLock = \<lparr>writeLocked = False, readers = 0\<rparr>, readsTryLock = \<lparr>writeLocked = False, readers = 0\<rparr>, st_alloc = 100\<rparr>"

abbreviation ex_store :: "(bytes \<times> stored) list level_driver store" where
  "ex_store \<equiv> ex_store_of ''a'' ex_b9"

lemma ex_store_simps [simp]:
  "nextRowID (ex_store_of node t) = 1" "st_nodeID (ex_store_of node t) = node" "merkleTree (ex_store_of node t) = ex_tree"
  "conflictResolver (ex_store_of node t) = MultiValue" "mem_contents (storageDriver (ex_store_of node t)) = map_of (ex_rows t)"
  "writeLocked (writesTryLock (ex_store_of node t)) = False" "writeLocked (readsTryLock (ex_store_of node t)) = False"
  "st_alloc (ex_store_of node t) = 100" "storageFormatVersion (ex_store_of node t) = StorageFormatVersion"
  by (simp_all add: ex_store_of_def level_contents_def)

lemma ex_unlocked: "\<not> writeLocked (writesTryLock (ex_store_of node t))" "\<not> writeLocked (readsTryLock (ex_store_of node t))"
  by simp_all

lemma ex_contents:
  "map_of (ex_rows t) x = (if x = encodePartitionDataKey ex_key then Some (StoredRow ''k'' 0 (Some [t]))
     else if x = encodePartitionMerkleLeafKey (Tree_LeafNode ex_tree ex_key) ex_key then Some (StoredBytes []) else None)"
  by (simp add: ex_rows_def)

lemma ex_data: "data_of (map_of (ex_rows t)) = [''k'' \<mapsto> [t]]"
  using bytes_string_iff [of ex_key] by (auto simp: data_of_def ex_contents ex_key_def fun_eq_iff)

lemma ex_tombstones [simp]: "IsTombstone ex_b9" "Timestamp ex_b9 = 5" "IsTombstone ex_a2"
  by (simp_all add: ex_b9_def ex_a2_def NewSibling_def IsTombstone_def Timestamp_def Sibling_Value_def)

lemma ex_hash: "IsTombstone t \<Longrightarrow> obj_hash (db_of (map_of (ex_rows t))) key = zero_hash"
proof (cases "key = ''k''")
  case True
  assume t: "IsTombstone t"
  have "obj_hash (db_of (map_of (ex_rows t))) key = SiblingSet_Hash (Some [(0, t)]) (bytes_of_string key)"
    using True by (intro obj_hash_db_of) (simp add: ex_data MarshalJSON_def)
  also have "\<dots> = zero_hash" by (rule SiblingSet_Hash_tombstones) (simp add: t)
  finally show ?thesis .
next
  case False
  then show ?thesis by (intro obj_hash_None) (simp add: db_of_def ex_data)
qed

lemma ex_store_ok: "IsTombstone t \<Longrightarrow> store_ok mem_contents (ex_store_of node t)"
proof -
  assume tomb: "IsTombstone t"
  have "represents ex_tree (db_of (map_of (ex_rows t)))"
    by (rule represents_cong [OF ex_tree_represents]) (simp_all add: ex_hash [OF tomb] dom_db_of ex_data obj_hash_None)
  moreover have "rows_ok (map_of (ex_rows t)) 1" by (auto simp: rows_ok_def ex_contents ex_key_def)
  moreover have "index_ok ex_tree (map_of (ex_rows t))" by (auto simp: index_ok_def ex_contents)
  moreover have "leaves_ok ex_tree (map_of (ex_rows t))"
  proof -
    have t: "tree_ok ex_tree" using ex_tree_represents by (simp add: represents_def)
    have "NodeHash ex_tree n = zero_hash" if n: "IsLeaf ex_tree n" for n
    proof -
      obtain k where k: "n = word_node (k, 0)" "valid_node (td ex_tree) (k, 0)" using IsLeaf_coord [OF t n] by blast
      then have "NodeHash ex_tree n = node_at (mt_nodes ex_tree) (k, 0)" using NodeHash_node [OF t] by simp
      also have "\<dots> = zero_hash" using ex_tree_represents k(2) by (simp add: represents_def)
      finally show ?thesis .
    qed
    then show ?thesis by (simp add: leaves_ok_def ex_contents) (simp add: encode_simps)
  qed
  ultimately show ?thesis by (simp add: store_ok_def)
qed

lemmas ex_ok = ex_store_ok [OF ex_tombstones(1)]

section \<open>Reads and writes\<close>

text \<open>C29: a read of valid keys returns the stored sibling sets of exactly these keys, in order and nil for the absent ones, or
  reports a storage error; it changes nothing but the allocation of siblings.\<close>

theorem Get_correct:
  assumes "kv_driver D C" "store_ok C st" "\<not> writeLocked (readsTryLock st)" "keys \<noteq> []" "\<forall>key \<in> set keys. readable_key key"
  shows "Store_Get D keys st = (Inl EStorage, st) \<and> drv_Get D (storageDriver st) (map encodePartitionDataKey keys) = None
    \<or> (\<exists>xs al. Store_Get D keys st = (Inr xs, st\<lparr>st_alloc := al\<rparr>)
         \<and> map (map_option MarshalJSON) xs = map (data_of (C (storageDriver st)) \<circ> string_of_bytes) keys)"
  using bucket_driver.Store_Get_ok [OF bucket_driver.intro, OF assms] .

theorem Get_correct_witness:
  "\<exists>xs al. Store_Get mem_driver [ex_key, bytes_of_string ''x''] ex_store = (Inr xs, ex_store\<lparr>st_alloc := al\<rparr>)
     \<and> map (map_option MarshalJSON) xs = [Some [ex_b9], None]"
proof -
  have none: "drv_Get mem_driver (storageDriver ex_store) keys \<noteq> None" for keys
  proof -
    have "get_values mem_leveldb d ks \<noteq> None" for d :: "(bytes \<times> stored) list" and ks
      by (induction ks) (auto simp: mem_leveldb_def)
    then show ?thesis by (simp add: LevelDBStorageDriver_def level_Get_def ex_store_of_def) (simp add: mem_leveldb_def)
  qed
  have "readable_key ex_key" "readable_key (bytes_of_string ''x'')"
    by (simp_all add: readable_key_def ex_key_def MAX_SORTING_KEY_LENGTH_def bytes_of_string_def)
  then have "\<exists>xs al. Store_Get mem_driver [ex_key, bytes_of_string ''x''] ex_store = (Inr xs, ex_store\<lparr>st_alloc := al\<rparr>)
      \<and> map (map_option MarshalJSON) xs = map (data_of (mem_contents (storageDriver ex_store)) \<circ> string_of_bytes) [ex_key, bytes_of_string ''x'']"
    using Get_correct [OF mem_kv ex_ok [of "''a''"], of "[ex_key, bytes_of_string ''x'']"] by (auto simp: none)
  then show ?thesis by (simp add: ex_data ex_key_def)
qed


definition ex_batch :: update_batch where
  "ex_batch = \<lparr>RawBatch = Batch_Put ex_key [9] NewBatch, Contexts = [(ex_key, NewDVV (NewDot '''' 0) [])]\<rparr>"




section \<open>Garbage collection and forgetting\<close>





text \<open>C30: when the driver refuses the batch of a \<open>Forget\<close>, the stored key is still there, but its object hash has been taken out of the leaf of
  the in-memory tree: tree and database no longer agree unless that hash is zero.\<close>

theorem Forget_failure_diverges:
  assumes "kv_driver D C" "store_ok C st" "\<not> writeLocked (readsTryLock st)" "readable_key key"
    and "drv_Get D (storageDriver st) [encodePartitionDataKey key] \<noteq> None" "\<forall>s b. \<not> fst (drv_Batch D s b)" "data_of (C (storageDriver st)) (string_of_bytes key) \<noteq> None"
  shows "\<exists>st'. Forget D [Some key] st = Some (Some EStorage, st') \<and> C (storageDriver st') = C (storageDriver st)
    \<and> NodeHash (merkleTree st') (Tree_LeafNode (merkleTree st) key)
        = Xor (NodeHash (merkleTree st) (Tree_LeafNode (merkleTree st) key)) (obj_hash (db_of (C (storageDriver st))) (string_of_bytes key))"
proof -
  note B = bucket_driver.intro [OF assms(1)]
  obtain ss al where g: "Store_Get D [key] st = (Inr [Some ss], st\<lparr>st_alloc := al\<rparr>)"
      "data_of (C (storageDriver st)) (string_of_bytes key) = Some (MarshalJSON ss)"
    using bucket_driver.Store_Get_one [OF B assms(2,3), of key] assms(4,5,7) by (auto split: option.splits)
  have "obj_hash (db_of (C (storageDriver st))) (string_of_bytes key) = SiblingSet_Hash (Some ss) key"
    using obj_hash_db_of [of "C (storageDriver st)" "string_of_bytes key" "Some ss"] g(2) by simp
  then show ?thesis using bucket_driver.Forget_present [OF B assms(2) g, of "[]"] assms(6) by auto
qed

text \<open>A driver on which every batch fails.\<close>

definition refusing :: "('s, 'v) driver \<Rightarrow> ('s, 'v) driver" where
  "refusing D = D\<lparr>drv_Batch := \<lambda>s b. (False, s)\<rparr>"

lemma refusing_kv: "kv_driver D C \<Longrightarrow> kv_driver (refusing D) C"
  unfolding kv_driver_def by (simp add: refusing_def)

theorem Forget_failure_diverges_witness:
  "\<exists>st'. Forget (refusing mem_driver) [Some ex_key] ex_store = Some (Some EStorage, st')
    \<and> mem_contents (storageDriver st') = map_of (ex_rows ex_b9)
    \<and> NodeHash (merkleTree st') (Tree_LeafNode ex_tree ex_key)
        = Xor (NodeHash ex_tree (Tree_LeafNode ex_tree ex_key)) (obj_hash (db_of (map_of (ex_rows ex_b9))) ''k'')"
proof -
  have get: "drv_Get (refusing mem_driver) (storageDriver ex_store) [encodePartitionDataKey ex_key] \<noteq> None"
    by (simp add: refusing_def LevelDBStorageDriver_def level_Get_def ex_store_of_def) (simp add: mem_leveldb_def)
  have key: "readable_key ex_key" "string_of_bytes ex_key = ''k''"
    by (simp_all add: readable_key_def ex_key_def MAX_SORTING_KEY_LENGTH_def)
  show ?thesis
    using Forget_failure_diverges [OF refusing_kv [OF mem_kv] ex_ok [of "''a''"] ex_unlocked(2) key(1) get] key(2)
    by (simp add: ex_data refusing_def)
qed

end
