(* ===== verification/Replication.thy ===== *)
theory Replication
  imports Store_Properties
begin

text \<open>
  What a merge leaves at a key of a store without a resolver, in the causal order of the siblings, and from it the
  convergence of two stores that exchange their sets of a key.
\<close>

lemma join_one_loop_values:
  "join_one_loop ss r s = foldl (\<lambda>s d. if s < MaxDot (Clock d) r then MaxDot (Clock d) r else s) s (map snd ss)"
  by (induction ss arbitrary: s) (simp_all add: Let_def)

lemma JoinOne_values: "map snd ss = map snd ts \<Longrightarrow> JoinOne ss r = JoinOne ts r"
  by (simp only: JoinOne_def join_one_loop_values)

definition join_of :: "sibling list \<Rightarrow> string \<Rightarrow> u64" where
  "join_of l r = JoinOne (fst (UnmarshalJSON 0 l)) r"

lemma JoinOne_join_of: "MarshalJSON ss = l \<Longrightarrow> JoinOne ss r = join_of l r"
  unfolding join_of_def by (rule JoinOne_values) (simp add: MarshalJSON_def UnmarshalJSON_def map_snd_zip)

lemma siblings_of_Marshal: "siblings_of ss = set (MarshalJSON ss)"
  by (simp add: siblings_of_def MarshalJSON_def)

lemma distinct_Marshal: "distinct ss \<Longrightarrow> inj_on snd (set ss) \<longleftrightarrow> distinct (MarshalJSON ss)"
  by (simp add: MarshalJSON_def distinct_map)

lemma distinct_of_values: "distinct (MarshalJSON ss) \<Longrightarrow> distinct ss \<and> inj_on snd (set ss)"
  by (simp add: MarshalJSON_def distinct_map)

text \<open>
  Two replicas' sets of a key that came about by writes and merges: one causal history, no sibling that another of the
  same set supersedes, no value twice.
\<close>

definition consistent_sets :: "sibling list \<Rightarrow> sibling list \<Rightarrow> bool" where
  "consistent_sets la lb \<longleftrightarrow> causal_universe (set la \<union> set lb) \<and> antichain sib_before (set la) \<and> antichain sib_before (set lb)
     \<and> distinct la \<and> distinct lb"

lemma consistent_sets_sym: "consistent_sets la lb = consistent_sets lb la"
  by (auto simp: consistent_sets_def Un_commute)

lemma merge_joins:
  assumes eff: "merge_effect MultiValue nodeID lo sets c c'" and th: "map_read sets k = Some theirs"
    and cons: "consistent_sets (current c k) (MarshalJSON theirs)"
    and known: "join_of (MarshalJSON theirs) nodeID \<le> join_of (current c k) nodeID"
  shows "set (current c' k) = maximal sib_before (set (current c k) \<union> set (MarshalJSON theirs)) \<and> distinct (current c' k)"
proof -
  obtain ss al where ss: "MarshalJSON ss = current c k" "distinct (map fst ss)" "fst ` set ss \<subseteq> {lo..<al}"
      and c': "let merged = fst (MergeSync al ss theirs nodeID) in
             data_of c' k = (if set merged \<subseteq> set ss then data_of c k else Some (MarshalJSON (ResolveConflicts MultiValue merged)))"
    using eff th unfolding merge_effect_def by blast
  have d: "distinct ss" "inj_on snd (set ss)" "distinct theirs" "inj_on snd (set theirs)"
    using distinct_of_values [of ss] distinct_of_values [of theirs] cons ss(1) by (auto simp: consistent_sets_def)
  let ?U = "set (current c k) \<union> set (MarshalJSON theirs)"
  have U: "causal_universe ?U" "siblings_of ss \<subseteq> ?U" "siblings_of theirs \<subseteq> ?U" using cons ss(1) by (auto simp: consistent_sets_def siblings_of_Marshal)
  have anti: "antichain sib_before (siblings_of ss)" "antichain sib_before (siblings_of theirs)"
    using cons ss(1) by (simp_all add: consistent_sets_def siblings_of_Marshal)
  have merged: "fst (MergeSync al ss theirs nodeID) = Sync ss theirs"
    using MergeSync_Sync [OF d(1)] known JoinOne_join_of [OF ss(1)] JoinOne_join_of [OF refl, of theirs] by simp
  have sibs: "siblings_of (Sync ss theirs) = maximal sib_before ?U"
    using Sync_siblings [OF U d(1,3) anti] by (simp add: siblings_of_Marshal ss(1))
  have wf: "wf_sibling_set ss" "wf_sibling_set theirs" using U d by (auto intro: wf_of_causal)
  have dS: "distinct (MarshalJSON (Sync ss theirs))"
    using distinct_Sync [OF wf] Sync_inj [OF U d(1,3,2,4)] by (simp add: MarshalJSON_def distinct_map)
  show ?thesis
  proof (cases "set (Sync ss theirs) \<subseteq> set ss")
    case False
    then have "current c' k = MarshalJSON (Sync ss theirs)" using c' merged by simp
    then show ?thesis using sibs dS by (simp add: siblings_of_Marshal)
  next
    case True
    then have same: "current c' k = current c k" using c' merged by simp
    have sub: "maximal sib_before ?U \<subseteq> set (current c k)"
    proof -
      have "siblings_of (Sync ss theirs) \<subseteq> siblings_of ss" using True by (auto simp: siblings_of_def)
      then show ?thesis using sibs siblings_of_Marshal [of ss] ss(1) by simp
    qed
    have "a \<in> maximal sib_before ?U" if a: "a \<in> set (current c k)" for a
    proof -
      have fin: "finite ?U" by (intro finite_UnI finite_set)
      have "\<not> sib_before a b" if b: "b \<in> ?U" for b
      proof
        assume ab: "sib_before a b"
        obtain m where m: "m \<in> maximal sib_before ?U" "m = b \<or> sib_before b m"
          using so.maximal_above [OF fin b] by blast
        then have "sib_before a m" using ab so.lt_trans [of a b m] by auto
        then show False using m(1) sub a anti(1) by (auto simp: antichain_def siblings_of_Marshal ss(1))
      qed
      then show ?thesis using a by (auto simp: maximal_def)
    qed
    then show ?thesis using sub same cons by (auto simp: consistent_sets_def)
  qed
qed

lemma obj_hash_current: "obj_hash (db_of c) k = SiblingSet_Hash (Some (fst (UnmarshalJSON 0 (current c k)))) (bytes_of_string k)"
proof (rule obj_hash_loads [symmetric])
  let ?ss = "fst (UnmarshalJSON 0 (current c k))"
  have "map fst ?ss = [0..<length (current c k)]" by (simp add: UnmarshalJSON_def map_fst_zip)
  then have "distinct (map fst ?ss)" "set (map fst ?ss) \<subseteq> {0..<length (current c k)}" by simp_all
  then show "loads c k 0 (length (current c k)) ?ss" by (simp only: loads_def MarshalJSON_Unmarshal set_map simp_thms)
qed

lemma SiblingSet_Hash_values:
  assumes "mset (map snd ss) = mset (map snd ts)"
  shows "SiblingSet_Hash (Some ss) key = SiblingSet_Hash (Some ts) key"
proof -
  have "foldl (\<lambda>h p. Xor h (Sibling_Hash (Some (snd p)))) zero_hash xs
      = foldl (\<lambda>h s. Xor h (Sibling_Hash (Some s))) zero_hash (map snd xs)" for xs :: sibling_set
    by (rule foldl_map [symmetric])
  then show ?thesis
    using hx.foldl_xor_perm [OF assms, of "\<lambda>s. Sibling_Hash (Some s)" zero_hash]
    unfolding SiblingSet_Hash_def option.case by metis
qed

section \<open>Convergence\<close>

lemma exchange_converges:
  assumes A: "kv_driver DA CA" "store_ok CA stA" "\<not> writeLocked (writesTryLock stA)" "unat (nextRowID stA) + 1 < 2 ^ 64" "conflictResolver stA = MultiValue"
    and B: "kv_driver DB CB" "store_ok CB stB" "\<not> writeLocked (writesTryLock stB)" "unat (nextRowID stB) + 1 < 2 ^ 64" "conflictResolver stB = MultiValue"
    and key: "k \<noteq> ''''"
    and la: "la = current (CA (storageDriver stA)) k" and lb: "lb = current (CB (storageDriver stB)) k" and cons: "consistent_sets la lb"
    and toA: "MarshalJSON ssB = lb" "join_of lb (st_nodeID stA) \<le> join_of la (st_nodeID stA)"
    and toB: "MarshalJSON ssA = la" "join_of la (st_nodeID stB) \<le> join_of lb (st_nodeID stB)"
    and runA: "Store_Merge DA (Some [(k, Some ssB)]) stA = Some (None, stA')"
    and runB: "Store_Merge DB (Some [(k, Some ssA)]) stB = Some (None, stB')"
  shows "set (current (CA (storageDriver stA')) k) = maximal sib_before (set la \<union> set lb)
    \<and> set (current (CB (storageDriver stB')) k) = maximal sib_before (set la \<union> set lb)
    \<and> obj_hash (db_of (CA (storageDriver stA'))) k = obj_hash (db_of (CB (storageDriver stB'))) k"
proof -
  have effA: "merge_effect MultiValue (st_nodeID stA) (st_alloc stA) [(k, Some ssB)] (CA (storageDriver stA)) (CA (storageDriver stA'))"
    using bucket_driver.Store_Merge_ok [OF bucket_driver.intro, OF A(1-3), of "[(k, Some ssB)]"] runA A(4,5) key by auto
  have effB: "merge_effect MultiValue (st_nodeID stB) (st_alloc stB) [(k, Some ssA)] (CB (storageDriver stB)) (CB (storageDriver stB'))"
    using bucket_driver.Store_Merge_ok [OF bucket_driver.intro, OF B(1-3), of "[(k, Some ssA)]"] runB B(4,5) key by auto
  have mA: "set (current (CA (storageDriver stA')) k) = maximal sib_before (set la \<union> set lb)" "distinct (current (CA (storageDriver stA')) k)"
    using merge_joins [OF effA, of k ssB] cons toA la by (simp_all add: map_read_def)
  have mB: "set (current (CB (storageDriver stB')) k) = maximal sib_before (set lb \<union> set la)" "distinct (current (CB (storageDriver stB')) k)"
    using merge_joins [OF effB, of k ssA] cons toB lb by (simp_all add: map_read_def consistent_sets_sym)
  have "mset (current (CA (storageDriver stA')) k) = mset (current (CB (storageDriver stB')) k)"
    using mA mB by (metis set_eq_iff_mset_eq_distinct Un_commute)
  then have "SiblingSet_Hash (Some (fst (UnmarshalJSON 0 (current (CA (storageDriver stA')) k)))) (bytes_of_string k)
      = SiblingSet_Hash (Some (fst (UnmarshalJSON 0 (current (CB (storageDriver stB')) k)))) (bytes_of_string k)"
    by (intro SiblingSet_Hash_values) (metis MarshalJSON_Unmarshal MarshalJSON_def)
  then show ?thesis using mA(1) mB(1) by (simp add: obj_hash_current Un_commute)
qed


lemma ex_consistent: "consistent_sets [ex_a2] [ex_b9]"
proof -
  have "\<not> (2 :: u64) \<le> 1" by (simp add: word_le_nat_alt)
  then show ?thesis
    by (auto simp: consistent_sets_def causal_universe_def antichain_def sib_before_def ex_a2_def ex_b9_def wf_dvv_def proper_dvv_def
        the_dot_def covered_def split: if_splits)
qed


end
