(* ===== verification/Store_Children.thy ===== *)
theory Store_Children
  imports Store_Upkeep
begin

text \<open>
  The keys under a node of the Merkle tree: the leaf index is ordered by leaf, so the range of the node is the range of its
  index keys, and an iterator over it gives exactly the keys that hash into the node. Also what a driver that does not fail
  adds to the laws of the driver contract.
\<close>

section \<open>The order of the index keys\<close>

lemma lex_append:
  fixes xs :: "byte list"
  assumes "length xs = length ys"
  shows "xs @ k < ys @ l \<longleftrightarrow> xs < ys \<or> xs = ys \<and> k < l"
  using assms by (induction xs ys rule: list_induct2) auto

lemma put_be_take: "8 * n \<le> m \<Longrightarrow> put_be n (take_bit m w) = put_be n (w :: 'a::len word)"
proof (induction n arbitrary: m w)
  case (Suc n)
  have a: "drop_bit 8 (take_bit m w) = take_bit (m - 8) (drop_bit 8 w)" using Suc.prems
    by (intro bit_eqI) (auto simp: bit_drop_bit_eq bit_take_bit_iff)
  have b: "ucast (take_bit m w) = (ucast w :: byte)" using Suc.prems
    by (intro bit_eqI) (auto simp: bit_take_bit_iff bit_ucast_iff)
  have "8 * n \<le> m - 8" using Suc.prems by simp
  then have c: "put_be n (take_bit (m - 8) (drop_bit 8 w)) = put_be n (drop_bit 8 w)" by (rule Suc.IH)
  show ?case by (simp add: a b c)
qed simp

lemma put_be_get: "length xs \<le> 4 \<Longrightarrow> put_be (length xs) (get_be xs :: u32) = xs"
proof (induction xs rule: rev_induct)
  case (snoc b xs)
  let ?g = "get_be xs :: u32"
  have a: "drop_bit 8 (push_bit 8 ?g OR ucast b) = take_bit 24 ?g"
    by (intro bit_eqI) (auto simp: bit_drop_bit_eq bit_or_iff bit_push_bit_iff bit_ucast_iff bit_take_bit_iff dest: bit_imp_le_length)
  have b: "ucast (push_bit 8 ?g OR ucast b) = (b :: byte)"
    by (intro bit_eqI) (auto simp: bit_or_iff bit_push_bit_iff bit_ucast_iff dest: bit_imp_le_length)
  have "8 * length xs \<le> 24" using snoc.prems by simp
  then show ?case using snoc unfolding length_append_singleton put_be.simps get_be_snoc a b by (simp add: put_be_take)
qed simp

lemma radix_256:
  fixes a b c d :: nat
  assumes "c < 256" "d < 256"
  shows "256 * a + c < 256 * b + d \<longleftrightarrow> a < b \<or> a = b \<and> c < d" "256 * a + c = 256 * b + d \<longleftrightarrow> a = b \<and> c = d"
proof -
  consider "a < b" | "a = b" | "b < a" by linarith
  then have "(256 * a + c < 256 * b + d \<longleftrightarrow> a < b \<or> a = b \<and> c < d) \<and> (256 * a + c = 256 * b + d \<longleftrightarrow> a = b \<and> c = d)"
  proof cases
    case 1
    then have "256 * a + c < 256 * b + d" using assms by linarith
    then show ?thesis using 1 by linarith
  next
    case 3
    then have "256 * b + d < 256 * a + c" using assms by linarith
    then show ?thesis using 3 by linarith
  qed simp
  then show "256 * a + c < 256 * b + d \<longleftrightarrow> a < b \<or> a = b \<and> c < d" "256 * a + c = 256 * b + d \<longleftrightarrow> a = b \<and> c = d" by blast+
qed

lemma put_be_less:
  "(put_be n v < put_be n w \<longleftrightarrow> unat v mod 256 ^ n < unat w mod 256 ^ n)
   \<and> (put_be n v = put_be n w \<longleftrightarrow> unat v mod 256 ^ n = unat w mod 256 ^ n)" for v w :: "'a::len word"
proof (induction n arbitrary: v w)
  case (Suc n)
  have split: "unat x mod 256 ^ Suc n = 256 * (unat (drop_bit 8 x) mod 256 ^ n) + unat (ucast x :: byte)" for x :: "'a word"
  proof -
    have "unat (drop_bit 8 x) = unat x div 256" unfolding unat_drop_bit_eq by (simp add: drop_bit_eq_div [where 'a = nat])
    moreover have "unat (ucast x :: byte) = unat x mod 256" by (simp add: unsigned_ucast_eq take_bit_eq_mod)
    ultimately show ?thesis by (simp add: mod_mult2_eq)
  qed
  have eq: "length (put_be n (drop_bit 8 v)) = length (put_be n (drop_bit 8 w))" by simp
  have b: "unat x < 256" for x :: byte using unsigned_less [of x, where 'a = nat] by simp
  let ?a = "unat (drop_bit 8 v) mod 256 ^ n" and ?b = "unat (drop_bit 8 w) mod 256 ^ n"
    and ?c = "ucast v :: byte" and ?d = "ucast w :: byte"
  have "put_be (Suc n) v < put_be (Suc n) w \<longleftrightarrow> ?a < ?b \<or> ?a = ?b \<and> unat ?c < unat ?d"
    using Suc.IH [of "drop_bit 8 v" "drop_bit 8 w"] by (simp add: lex_append [OF eq] word_less_nat_alt)
  also have "\<dots> \<longleftrightarrow> 256 * ?a + unat ?c < 256 * ?b + unat ?d" using radix_256 [OF b [of ?c] b [of ?d]] by simp
  finally have less: "put_be (Suc n) v < put_be (Suc n) w \<longleftrightarrow> unat v mod 256 ^ Suc n < unat w mod 256 ^ Suc n"
    unfolding split .
  have "put_be (Suc n) v = put_be (Suc n) w \<longleftrightarrow> ?a = ?b \<and> unat ?c = unat ?d"
    using Suc.IH [of "drop_bit 8 v" "drop_bit 8 w"] by (simp add: word_unat_eq_iff)
  also have "\<dots> \<longleftrightarrow> 256 * ?a + unat ?c = 256 * ?b + unat ?d" using radix_256 [OF b [of ?c] b [of ?d]] by simp
  finally show ?case using less unfolding split by blast
qed simp

lemma nodeBytes_less: "nodeBytes m @ k < nodeBytes n @ l \<longleftrightarrow> m < n \<or> m = n \<and> k < l"
proof -
  have "unat x < 256 ^ 4" for x :: u32 using unsigned_less [of x, where 'a = nat] by simp
  then have "nodeBytes m < nodeBytes n \<longleftrightarrow> m < n" "nodeBytes m = nodeBytes n \<longleftrightarrow> m = n"
    using put_be_less [of 4 m n] by (simp_all add: nodeBytes_def word_less_nat_alt word_unat_eq_iff)
  then show ?thesis by (simp add: lex_append nodeBytes_def)
qed

lemma index_key_in_range:
  assumes "4 \<le> length r"
  shows "\<exists>n k. 1 # r = encodePartitionMerkleLeafKey n k"
proof -
  have "nodeBytes (get_be (take 4 r)) = take 4 r" using put_be_get [of "take 4 r"] assms by (simp add: nodeBytes_def min_absorb2)
  then have "1 # r = encodePartitionMerkleLeafKey (get_be (take 4 r)) (drop 4 r)" by (simp add: encode_simps)
  then show ?thesis by blast
qed

lemma index_range:
  "encodePartitionMerkleLeafKey a [] \<le> encodePartitionMerkleLeafKey n k \<and> encodePartitionMerkleLeafKey n k < encodePartitionMerkleLeafKey b []
    \<longleftrightarrow> a \<le> n \<and> n < b"
  using nodeBytes_less [of n k b "[]"] nodeBytes_less [of n k a "[]"] by (auto simp: encode_simps not_less [symmetric])

lemma between_index_keys:
  assumes "encodePartitionMerkleLeafKey a [] \<le> x" "x < encodePartitionMerkleLeafKey b []"
  shows "\<exists>r. x = 1 # r"
proof (cases x)
  case Nil
  then show ?thesis using assms by (simp add: encode_simps)
next
  case (Cons y ys)
  then show ?thesis using assms by (auto simp: encode_simps not_less [symmetric])
qed

lemma sub_range_limit:
  assumes "tree_ok t" "node < NodeLimit t" "node \<noteq> 0"
  shows "SubRangeMax node \<le> NodeLimit t"
proof -
  obtain k l where kl: "node = word_node (k, l)" "valid_node (td t) (k, l)" using node_coordinates [OF assms] by blast
  have "(k + 1) * 2 ^ Suc l \<le> 2 ^ (td t - 1 - l) * 2 ^ Suc l"
    using kl(2) by (intro mult_right_mono) (auto simp: valid_node_iff)
  also have "\<dots> = 2 ^ (td t - 1 - l + Suc l)" by (simp only: power_add)
  also have "td t - 1 - l + Suc l = td t" using kl(2) by (simp add: valid_node_iff)
  finally show ?thesis using sub_range [OF assms(1) kl(2)] conjunct1 [OF node_limit [OF assms(1)]]
    unfolding kl(1) word_le_nat_alt by argo
qed

section \<open>Drivers that do not fail\<close>

text \<open>In the states \<open>good\<close> every operation of the driver succeeds, and it stays in them.\<close>

definition reliable :: "'s kv \<Rightarrow> ('s \<Rightarrow> bool) \<Rightarrow> bool" where
  "reliable D good \<longleftrightarrow> (\<forall>s. good s \<longrightarrow> (\<forall>ks. drv_Get D s ks \<noteq> None)
     \<and> (\<forall>lo hi. \<exists>its. drv_GetRange D s lo hi = Some (its, False))
     \<and> (\<forall>b. fst (drv_Batch D s b) \<and> good (snd (drv_Batch D s b))))"

lemma write_ran_reliable:
  assumes "reliable D good" "good (storageDriver st)" "write_ran D n st err st'"
  shows "err = None \<and> good (storageDriver st') \<and> unat (nextRowID st') \<le> unat (nextRowID st) + n"
proof -
  have b: "fst (drv_Batch D (storageDriver st) b)" "good (snd (drv_Batch D (storageDriver st) b))"
      "drv_Get D (storageDriver st) ks \<noteq> None" for b ks
    using assms(1,2) by (auto simp: reliable_def)
  show ?thesis using assms(2,3) b unfolding write_ran_def by (metis fst_conv snd_conv)
qed

section \<open>The children of a node\<close>

text \<open>An entry of an iterator over the children of a node: a key and the stored set of its siblings.\<close>

definition stored_entry :: "stored contents \<Rightarrow> entry \<Rightarrow> bool" where
  "stored_entry c e \<longleftrightarrow> (\<exists>ss. en_Value e = Some ss \<and> data_of c (string_of_bytes (en_Key e)) = Some (MarshalJSON ss))"

context bucket_driver
begin

lemma children_entries_ok:
  assumes "\<forall>x \<in> set its. \<exists>n key. fst (snd x) = encodePartitionMerkleLeafKey n key \<and> contents s (encodePartitionDataKey key) \<noteq> None"
    and rows: "rows_ok (contents s) r" and get: "\<forall>ks. drv_Get D s ks \<noteq> None"
  shows "\<exists>es al'. children_entries D s StorageFormatVersion al its False = (es, False, al') \<and> (\<forall>e \<in> set es. stored_entry (contents s) e)
    \<and> list_all2 (\<lambda>x e. \<exists>n. fst (snd x) = encodePartitionMerkleLeafKey n (en_Key e)) its es"
  using assms(1)
proof (induction its arbitrary: al)
  case (Cons x its)
  obtain p k v where x: "x = (p, k, v)" using prod_cases3 by blast
  obtain n key where k: "k = encodePartitionMerkleLeafKey n key" "contents s (encodePartitionDataKey key) \<noteq> None"
    using Cons.prems by (auto simp: x)
  obtain nm ver ss where row: "contents s (encodePartitionDataKey key) = Some (StoredRow nm ver (Some ss))" "key \<noteq> []"
    using k(2) rows unfolding rows_ok_def by blast
  obtain vs where vs: "drv_Get D s [encodePartitionDataKey key] = Some vs" using get by blast
  have vs': "vs = [contents s (encodePartitionDataKey key)]" using get_law [OF vs] by simp
  obtain es al' where rest: "children_entries D s StorageFormatVersion (al + length ss) its False = (es, False, al')"
      "\<forall>e \<in> set es. stored_entry (contents s) e"
      "list_all2 (\<lambda>x e. \<exists>n. fst (snd x) = encodePartitionMerkleLeafKey n (en_Key e)) its es"
    using Cons.IH [of "al + length ss"] Cons.prems by auto
  let ?e = "\<lparr>en_Prefix = [], en_Key = key, en_Value = Some (zip [al..<al + length ss] ss), en_LocalVersion = ver\<rparr>"
  have "children_entries D s StorageFormatVersion al (x # its) False = (?e # es, False, al')"
    using rest(1) by (simp add: x k(1) row vs vs' Row_Decode_row)
  moreover have "stored_entry (contents s) ?e" using row by (simp add: stored_entry_def data_of_def MarshalJSON_def map_snd_zip)
  ultimately show ?case using rest(2,3) by (simp add: x k(1))
qed simp

text \<open>The children of a node are the stored keys whose leaf is in its range, each once, with their current sets.\<close>

lemma GetSyncChildren_ok:
  assumes ok: "store_ok contents st" and lock: "\<not> writeLocked (readsTryLock st)"
    and good: "reliable D good" "good (storageDriver st)" and node: "nodeID < NodeLimit (merkleTree st)" "nodeID \<noteq> 0"
  shows "\<exists>es al. GetSyncChildren D nodeID st = Inr (es, False, al) \<and> distinct (map en_Key es)
    \<and> (\<forall>e \<in> set es. stored_entry (contents (storageDriver st)) e)
    \<and> set (map en_Key es) = {key. contents (storageDriver st) (encodePartitionDataKey key) \<noteq> None
         \<and> SubRangeMin nodeID \<le> Tree_LeafNode (merkleTree st) key \<and> Tree_LeafNode (merkleTree st) key < SubRangeMax nodeID}"
proof -
  let ?c = "contents (storageDriver st)" and ?t = "merkleTree st"
  let ?lo = "SubRangeMin nodeID" and ?hi = "SubRangeMax nodeID"
  have rows: "rows_ok ?c (nextRowID st)" and fmt: "storageFormatVersion st = StorageFormatVersion" and index: "index_ok ?t ?c"
    and tok: "tree_ok ?t" using ok by (simp_all add: store_ok_def represents_def)
  obtain its where its: "drv_GetRange D (storageDriver st) (encodePartitionMerkleLeafKey ?lo []) (encodePartitionMerkleLeafKey ?hi []) = Some (its, False)"
    using good unfolding reliable_def by blast
  have found: "sorted_wrt (<) (map fst (found its))" "set (found its) = {(k, v). ?c k = Some v
      \<and> encodePartitionMerkleLeafKey ?lo [] \<le> k \<and> k < encodePartitionMerkleLeafKey ?hi []}"
    using range_law [OF its] by auto
  have limit: "n < NodeLimit ?t" if "n < ?hi" for n
    using that sub_range_limit [OF tok node] by (rule order_less_le_trans)
  have item: "?lo \<le> n \<and> n < ?hi \<and> n = Tree_LeafNode ?t key \<and> ?c (encodePartitionDataKey key) \<noteq> None"
    if "encodePartitionMerkleLeafKey n key \<in> fst ` set (found its)" for n key
  proof -
    have a: "?c (encodePartitionMerkleLeafKey n key) \<noteq> None" "?lo \<le> n" "n < ?hi"
      using that index_range [of ?lo n key ?hi] unfolding found(2) by auto
    then have "n < NodeLimit ?t" by (intro limit)
    then show ?thesis using a index unfolding index_ok_def by blast
  qed
  have keys: "\<exists>n key. k = encodePartitionMerkleLeafKey n key" if k: "k \<in> fst ` set (found its)" for k
  proof -
    have "?c k \<noteq> None" "encodePartitionMerkleLeafKey ?lo [] \<le> k" "k < encodePartitionMerkleLeafKey ?hi []"
      using k unfolding found(2) by auto
    then obtain r where r: "k = 1 # r" using between_index_keys by blast
    have "\<not> length r < 4" using \<open>?c k \<noteq> None\<close> conjunct2 [OF index [unfolded index_ok_def]] unfolding r by auto
    then show ?thesis using index_key_in_range [of r] r by simp
  qed
  have mem: "fst (snd x) \<in> fst ` set (found its)" if "x \<in> set its" for x using that by (force simp: found_def)
  have pre: "\<forall>x \<in> set its. \<exists>n key. fst (snd x) = encodePartitionMerkleLeafKey n key \<and> ?c (encodePartitionDataKey key) \<noteq> None"
  proof
    fix x assume x: "x \<in> set its"
    obtain n key where "fst (snd x) = encodePartitionMerkleLeafKey n key" using keys [OF mem [OF x]] by blast
    with item mem [OF x] show "\<exists>n key. fst (snd x) = encodePartitionMerkleLeafKey n key \<and> ?c (encodePartitionDataKey key) \<noteq> None" by metis
  qed
  have get: "\<forall>ks. drv_Get D (storageDriver st) ks \<noteq> None" using good unfolding reliable_def by blast
  obtain es al where es: "children_entries D (storageDriver st) StorageFormatVersion (st_alloc st) its False = (es, False, al)"
      "\<forall>e \<in> set es. stored_entry ?c e" "list_all2 (\<lambda>x e. \<exists>n. fst (snd x) = encodePartitionMerkleLeafKey n (en_Key e)) its es"
    using children_entries_ok [OF pre rows get, of "st_alloc st"] by blast
  have fst_found: "map fst (found its) = map (\<lambda>e. encodePartitionMerkleLeafKey (Tree_LeafNode ?t (en_Key e)) (en_Key e)) es"
  proof -
    have same: "fst (snd x) = encodePartitionMerkleLeafKey (Tree_LeafNode ?t (en_Key e)) (en_Key e)"
      if "x \<in> set its" "\<exists>n. fst (snd x) = encodePartitionMerkleLeafKey n (en_Key e)" for x e
      using that item mem [OF that(1)] by metis
    have "list_all2 (\<lambda>x e. fst (snd x) = encodePartitionMerkleLeafKey (Tree_LeafNode ?t (en_Key e)) (en_Key e)) its es"
      by (rule list.rel_mono_strong [OF es(3)]) (rule same)
    then show ?thesis unfolding found_def by (induction its es rule: list_all2_induct) auto
  qed
  have "distinct (map en_Key es)"
    using found(1) unfolding fst_found by (simp add: strict_sorted_iff distinct_map inj_on_def)
  moreover have "set (map en_Key es) = {key. ?c (encodePartitionDataKey key) \<noteq> None \<and> ?lo \<le> Tree_LeafNode ?t key \<and> Tree_LeafNode ?t key < ?hi}"
  proof (intro set_eqI iffI)
    fix key assume "key \<in> set (map en_Key es)"
    then have "encodePartitionMerkleLeafKey (Tree_LeafNode ?t key) key \<in> set (map fst (found its))" unfolding fst_found by auto
    then show "key \<in> {key. ?c (encodePartitionDataKey key) \<noteq> None \<and> ?lo \<le> Tree_LeafNode ?t key \<and> Tree_LeafNode ?t key < ?hi}"
      using item [of "Tree_LeafNode ?t key" key] by simp
  next
    fix key assume key: "key \<in> {key. ?c (encodePartitionDataKey key) \<noteq> None \<and> ?lo \<le> Tree_LeafNode ?t key \<and> Tree_LeafNode ?t key < ?hi}"
    then have "?c (encodePartitionMerkleLeafKey (Tree_LeafNode ?t key) key) \<noteq> None"
      using limit [of "Tree_LeafNode ?t key"] index unfolding index_ok_def by blast
    then have "encodePartitionMerkleLeafKey (Tree_LeafNode ?t key) key \<in> fst ` set (found its)"
      using key index_range [of ?lo "Tree_LeafNode ?t key" key ?hi] unfolding found(2) by force
    then have "encodePartitionMerkleLeafKey (Tree_LeafNode ?t key) key \<in> set (map fst (found its))" by simp
    then show "key \<in> set (map en_Key es)" unfolding fst_found by auto
  qed
  moreover have "GetSyncChildren D nodeID st = Inr (es, False, al)"
    using lock node its es(1) by (simp add: GetSyncChildren_def TryRLock_def fmt not_le)
  ultimately show ?thesis using es(2) by blast
qed

end

end
