(* ===== verification/Sync_Relay.thy ===== *)
theory Sync_Relay
  imports Sync_Laws Replication Store_Children
begin

text \<open>
  The second half of a sync session between two relays: the initiator asks for the objects under each node it arrived at
  and merges them into its store, while the responder iterates over its own.
\<close>

section \<open>The two stores\<close>

text \<open>What the session needs of the stores when it starts: no conflict resolver, drivers that work, room for the new
  rows, and sets of each of the responder's keys that belong to one causal history of which the initiator knows its own part.\<close>

definition pull_ready :: "'a kv \<Rightarrow> ('a \<Rightarrow> stored contents) \<Rightarrow> ('a \<Rightarrow> bool) \<Rightarrow> 'a store
    \<Rightarrow> 'b kv \<Rightarrow> ('b \<Rightarrow> stored contents) \<Rightarrow> ('b \<Rightarrow> bool) \<Rightarrow> 'b store \<Rightarrow> bool" where
  "pull_ready DA CA goodA stA DB CB goodB stB \<longleftrightarrow>
     (kv_driver DA CA \<and> reliable DA goodA \<and> goodA (storageDriver stA) \<and> store_ok CA stA \<and> \<not> writeLocked (writesTryLock stA)
        \<and> conflictResolver stA = MultiValue)
   \<and> (kv_driver DB CB \<and> reliable DB goodB \<and> goodB (storageDriver stB) \<and> store_ok CB stB \<and> \<not> writeLocked (readsTryLock stB))
   \<and> unat (nextRowID stA) + card (dom (data_of (CB (storageDriver stB)))) < 2 ^ 64
   \<and> (\<forall>k \<in> dom (data_of (CB (storageDriver stB))).
        consistent_sets (current (CA (storageDriver stA)) k) (current (CB (storageDriver stB)) k)
      \<and> join_of (current (CB (storageDriver stB)) k) (st_nodeID stA) \<le> join_of (current (CA (storageDriver stA)) k) (st_nodeID stA))"

text \<open>The initiator's store once the keys \<open>S\<close> are merged, and the responder's store, which only allocates.\<close>

definition merged :: "('a \<Rightarrow> stored contents) \<Rightarrow> 'a store \<Rightarrow> stored contents \<Rightarrow> string set \<Rightarrow> 'a store \<Rightarrow> bool" where
  "merged CA stA cB S st \<longleftrightarrow>
     (\<forall>k. if k \<in> S then distinct (current (CA (storageDriver st)) k) \<and>
             set (current (CA (storageDriver st)) k) = maximal sib_before (set (current (CA (storageDriver stA)) k) \<union> set (current cB k))
           else data_of (CA (storageDriver st)) k = data_of (CA (storageDriver stA)) k)"

definition pulling :: "('a \<Rightarrow> stored contents) \<Rightarrow> ('a \<Rightarrow> bool) \<Rightarrow> 'a store \<Rightarrow> stored contents \<Rightarrow> string set \<Rightarrow> 'a bucket \<Rightarrow> bool" where
  "pulling CA goodA stA cB S bk \<longleftrightarrow> store_ok CA (bk_store bk) \<and> same_frame stA (bk_store bk) \<and> goodA (storageDriver (bk_store bk))
     \<and> finite S \<and> unat (nextRowID (bk_store bk)) \<le> unat (nextRowID stA) + card S \<and> merged CA stA cB S (bk_store bk)"

definition serving :: "'b store \<Rightarrow> 'b bucket \<Rightarrow> bool" where
  "serving stB bk \<longleftrightarrow> (\<exists>al. bk_store bk = stB\<lparr>st_alloc := al\<rparr>)"

lemma finite_keys: "pull_ready DA CA goodA stA DB CB goodB stB \<Longrightarrow> finite (dom (data_of (CB (storageDriver stB))))"
  by (auto simp: pull_ready_def store_ok_def represents_def simp flip: dom_db_of)

lemma pull_one:
  assumes ready: "pull_ready DA CA goodA stA DB CB goodB stB" and cB: "cB = CB (storageDriver stB)"
    and pull: "pulling CA goodA stA cB S bk" and S: "S \<subseteq> dom (data_of cB)"
    and k: "k \<notin> S" "k \<noteq> ''''" "data_of cB k = Some (MarshalJSON ss)"
  shows "\<exists>bk'. px_Merge (RelayBucketProxy DA) bk [(k, Some ss)] = Some (True, bk') \<and> pulling CA goodA stA cB (insert k S) bk'"
proof -
  let ?st = "bk_store bk"
  have bd: "bucket_driver DA CA" using ready by (simp add: pull_ready_def bucket_driver.intro)
  have st: "store_ok CA ?st" "same_frame stA ?st" "goodA (storageDriver ?st)" "finite S"
      "unat (nextRowID ?st) \<le> unat (nextRowID stA) + card S" "merged CA stA cB S ?st" using pull by (simp_all add: pulling_def)
  have lock: "\<not> writeLocked (writesTryLock ?st)" and res: "conflictResolver ?st = MultiValue" and node: "st_nodeID ?st = st_nodeID stA"
    using ready st(2) by (simp_all add: pull_ready_def same_frame_def)
  have fin: "finite (dom (data_of cB))" using finite_keys [OF ready] by (simp add: cB)
  have "insert k S \<subseteq> dom (data_of cB)" using S k(3) by auto
  then have "card (insert k S) \<le> card (dom (data_of cB))" using fin by (intro card_mono) auto
  then have card: "card S + 1 \<le> card (dom (data_of cB))" using k(1) st(4) by simp
  then have room: "unat (nextRowID ?st) + length [(k, Some ss)] < 2 ^ 64" using ready st(5) by (simp add: pull_ready_def cB)
  obtain err st' where run: "Store_Merge DA (Some [(k, Some ss)]) ?st = Some (err, st')" "store_ok CA st'" "same_frame ?st st'"
      "write_ran DA (length [(k, Some ss)]) ?st err st'"
      "err = None \<and> merge_effect (conflictResolver ?st) (st_nodeID ?st) (st_alloc ?st) [(k, Some ss)] (CA (storageDriver ?st)) (CA (storageDriver st'))
       \<or> err = Some EStorage \<and> CA (storageDriver st') = CA (storageDriver ?st) \<and> merkleTree st' = merkleTree ?st"
    using bucket_driver.Store_Merge_ok [OF bd st(1) lock _ _ _ room] k(2) by auto
  have ran: "err = None" "goodA (storageDriver st')" "unat (nextRowID st') \<le> unat (nextRowID ?st) + 1"
    using write_ran_reliable [of DA goodA ?st "length [(k, Some ss)]" err st'] st(3) run(4) ready by (auto simp: pull_ready_def)
  have eff: "merge_effect MultiValue (st_nodeID stA) (st_alloc ?st) [(k, Some ss)] (CA (storageDriver ?st)) (CA (storageDriver st'))"
    using run(5) ran(1) by (simp add: res node)
  have mine: "data_of (CA (storageDriver ?st)) k = data_of (CA (storageDriver stA)) k" using st(6) k(1) by (simp add: merged_def)
  have theirs: "current cB k = MarshalJSON ss" using k(3) by simp
  have "set (current (CA (storageDriver st')) k) = maximal sib_before (set (current (CA (storageDriver ?st)) k) \<union> set (MarshalJSON ss))
      \<and> distinct (current (CA (storageDriver st')) k)" (is ?new)
  proof (rule merge_joins [OF eff])
    show "map_read [(k, Some ss)] k = Some ss" by (simp add: map_read_def)
    have in_dom: "k \<in> dom (data_of (CB (storageDriver stB)))" using k(3) by (auto simp: cB)
    have "consistent_sets (current (CA (storageDriver stA)) k) (current cB k)"
        "join_of (current cB k) (st_nodeID stA) \<le> join_of (current (CA (storageDriver stA)) k) (st_nodeID stA)"
      using ready in_dom unfolding pull_ready_def cB by blast+
    then show "consistent_sets (current (CA (storageDriver ?st)) k) (MarshalJSON ss)"
        "join_of (MarshalJSON ss) (st_nodeID stA) \<le> join_of (current (CA (storageDriver ?st)) k) (st_nodeID stA)"
      unfolding mine theirs .
  qed
  then have new: ?new .
  have other: "data_of (CA (storageDriver st')) k' = data_of (CA (storageDriver ?st)) k'" if "k' \<noteq> k" for k'
    using eff that by (simp add: merge_effect_def map_read_def)
  have "merged CA stA cB (insert k S) st'" unfolding merged_def
  proof
    fix k'
    show "if k' \<in> insert k S then distinct (current (CA (storageDriver st')) k') \<and>
        set (current (CA (storageDriver st')) k') = maximal sib_before (set (current (CA (storageDriver stA)) k') \<union> set (current cB k'))
      else data_of (CA (storageDriver st')) k' = data_of (CA (storageDriver stA)) k'"
    proof (cases "k' = k")
      case True
      then show ?thesis using new unfolding mine theirs [symmetric] by (simp only: insertI1 if_True simp_thms)
    next
      case False
      then show ?thesis using spec [OF st(6) [unfolded merged_def], of k'] unfolding other [OF False] by (simp only: insert_iff simp_thms)
    qed
  qed
  moreover have "same_frame stA st'" using st(2) run(3) by (simp add: same_frame_def)
  ultimately have "pulling CA goodA stA cB (insert k S) (bk\<lparr>bk_store := st'\<rparr>)"
    using run(2) ran(2,3) st(4,5) k(1) by (simp add: pulling_def)
  moreover have "px_Merge (RelayBucketProxy DA) bk [(k, Some ss)] = Some (True, bk\<lparr>bk_store := st'\<rparr>)"
    using run(1) ran(1) by (simp add: RelayBucketProxy_def on_store_def)
  ultimately show ?thesis by blast
qed

section \<open>The responder's keys\<close>

definition keys_at :: "stored contents \<Rightarrow> merkle_tree \<Rightarrow> nat \<times> nat \<Rightarrow> string set" where
  "keys_at cB t c = {k \<in> dom (data_of cB). SubRangeMin (pnode (td t) c) \<le> Tree_LeafNode t (bytes_of_string k)
     \<and> Tree_LeafNode t (bytes_of_string k) < SubRangeMax (pnode (td t) c)}"

lemma div_range: "0 < p \<Longrightarrow> x \<in> {i * p ..< (i + 1) * p} \<longleftrightarrow> x div p = i" for x p i :: nat
  using less_eq_div_iff_mult_less_eq [of p i x] div_less_iff_less_mult [of p x "i + 1"] by auto

lemma keys_at_iff:
  assumes "tree_ok t" "on_path (td t) (i, j)"
  shows "k \<in> keys_at cB t (i, j) \<longleftrightarrow> k \<in> dom (data_of cB) \<and> leaf_idx (mt_depth t) k div 2 ^ (td t - 1 - j) = i"
proof -
  let ?p = "2 ^ (td t - 1 - j) :: nat"
  have "leaf_idx (mt_depth t) k \<in> {i * ?p ..< (i + 1) * ?p} \<longleftrightarrow> leaf_idx (mt_depth t) k div ?p = i"
    by (rule div_range) simp
  then show ?thesis
    using leaf_in_sub_range [OF assms(1), of i "td t - 1 - j" k] on_path_valid [OF assms(2)] by (auto simp: keys_at_def pnode_def)
qed

lemma no_empty_key: "rows_ok c n \<Longrightarrow> data_of c '''' = None"
proof -
  assume "rows_ok c n"
  then have "c (encodePartitionDataKey []) = None" unfolding rows_ok_def by (metis option.exhaust)
  then show ?thesis by (simp add: data_of_def bytes_of_string_def)
qed

abbreviation entry_key :: "entry \<Rightarrow> string" where
  "entry_key e \<equiv> string_of_bytes (en_Key e)"

lemma serve:
  assumes ready: "pull_ready DA CA goodA stA DB CB goodB stB" and bk: "serving stB bk" and c: "on_path (td (merkleTree stB)) c"
  shows "\<exists>es bk'. px_GetSyncChildren (RelayBucketProxy DB) bk (pnode (td (merkleTree stB)) c) = (Some (es, False), bk') \<and> serving stB bk'
    \<and> distinct (map entry_key es) \<and> (\<forall>e \<in> set es. stored_entry (CB (storageDriver stB)) e)
    \<and> entry_key ` set es = keys_at (CB (storageDriver stB)) (merkleTree stB) c"
proof -
  let ?st = "bk_store bk" and ?cB = "CB (storageDriver stB)" and ?t = "merkleTree stB" and ?n = "pnode (td (merkleTree stB)) c"
  obtain al where al: "?st = stB\<lparr>st_alloc := al\<rparr>" using bk by (auto simp: serving_def)
  have B: "bucket_driver DB CB" "reliable DB goodB" "goodB (storageDriver stB)" "store_ok CB stB" "\<not> writeLocked (readsTryLock stB)"
    using ready by (auto simp: pull_ready_def bucket_driver.intro)
  have t: "tree_ok ?t" and rows: "rows_ok ?cB (nextRowID stB)" using B(4) by (simp_all add: store_ok_def represents_def)
  have st: "store_ok CB ?st" "\<not> writeLocked (readsTryLock ?st)" "goodB (storageDriver ?st)" "?n < NodeLimit (merkleTree ?st)" "?n \<noteq> 0"
    using B al path_in_tree [OF t c] by (simp_all add: store_ok_def)
  obtain es al' where es: "GetSyncChildren DB ?n ?st = Inr (es, False, al')" "distinct (map en_Key es)"
      "\<forall>e \<in> set es. stored_entry (CB (storageDriver ?st)) e"
      "set (map en_Key es) = {key. CB (storageDriver ?st) (encodePartitionDataKey key) \<noteq> None
         \<and> SubRangeMin ?n \<le> Tree_LeafNode (merkleTree ?st) key \<and> Tree_LeafNode (merkleTree ?st) key < SubRangeMax ?n}"
    using bucket_driver.GetSyncChildren_ok [OF B(1) st(1,2) B(2) st(3,4,5)] by blast
  have stored: "k \<in> dom (data_of ?cB) \<longleftrightarrow> ?cB (encodePartitionDataKey (bytes_of_string k)) \<noteq> None" for k
    using rows unfolding rows_ok_def by (fastforce simp: data_of_def dom_def split: option.splits stored.splits)
  have "inj string_of_bytes" by (metis bytes_of_string_of_bytes injI)
  then have "distinct (map entry_key es)" using es(2) by (simp add: distinct_map inj_on_def inj_def)
  moreover have "entry_key ` set es = keys_at ?cB ?t c"
  proof -
    have "entry_key ` set es = string_of_bytes ` set (map en_Key es)" by (simp add: image_image)
    also have "\<dots> = keys_at ?cB ?t c"
    proof (intro set_eqI iffI)
      fix k assume "k \<in> string_of_bytes ` set (map en_Key es)"
      then obtain key where "k = string_of_bytes key" "key \<in> set (map en_Key es)" by blast
      then show "k \<in> keys_at ?cB ?t c" using stored [of k] unfolding es(4) by (simp add: keys_at_def al)
    next
      fix k assume k: "k \<in> keys_at ?cB ?t c"
      then have "bytes_of_string k \<in> set (map en_Key es)" using stored [of k] unfolding es(4) by (simp add: keys_at_def al)
      then show "k \<in> string_of_bytes ` set (map en_Key es)" by (metis image_eqI string_of_bytes_of_string)
    qed
    finally show ?thesis .
  qed
  moreover have "px_GetSyncChildren (RelayBucketProxy DB) bk ?n = (Some (es, False), bk\<lparr>bk_store := ?st\<lparr>st_alloc := al'\<rparr>\<rparr>)"
    using es(1) by (simp add: RelayBucketProxy_def local_children_def)
  moreover have "serving stB (bk\<lparr>bk_store := ?st\<lparr>st_alloc := al'\<rparr>\<rparr>)" by (auto simp: serving_def al)
  ultimately show ?thesis using es(3) al by auto
qed

section \<open>Pushing the objects\<close>

text \<open>The initiator while it asks for objects, with the nodes \<open>q\<close> to go, and the responder while it sends those of a node.\<close>

definition asking :: "merkle_tree \<Rightarrow> merkle_tree \<Rightarrow> (nat \<times> nat) list \<Rightarrow> 'a bucket initiator \<Rightarrow> bool" where
  "asking t t' q i \<longleftrightarrow> in_state i = DB_OBJECT_PUSH \<and> explorationQueue i = map (pnode (td t)) q \<and> theirDepth i = mt_depth t' \<and> replicatesOutgoing i"

definition sending :: "'b store \<Rightarrow> nat \<times> nat \<Rightarrow> entry list \<Rightarrow> 'b bucket responder \<Rightarrow> bool" where
  "sending stB c es r \<longleftrightarrow> re_state r = DB_OBJECT_PUSH \<and> iter r = Some (es, False)
     \<and> currentIterationNode r = pnode (td (merkleTree stB)) c \<and> serving stB (re_proxy r)"

lemma ask_next:
  assumes ready: "pull_ready DA CA goodA stA DB CB goodB stB" and i: "asking (merkleTree stA) (merkleTree stB) (c # q) i"
    and pull: "pulling CA goodA stA cB S (in_proxy i)" and c: "on_path (common (merkleTree stA) (merkleTree stB)) c"
  shows "ask_objects (RelayBucketProxy DA) i = Some (Some (object_question i (merkleTree stB) c), i)"
proof -
  let ?tA = "merkleTree stA" and ?tB = "merkleTree stB" and ?t = "merkleTree (bk_store (in_proxy i))"
  have t: "tree_ok ?t" "tree_ok ?tB" and d: "mt_depth ?t = mt_depth ?tA"
    using ready pull by (simp_all add: pull_ready_def pulling_def store_ok_def represents_def same_frame_def)
  obtain k j where kj: "c = (k, j)" by fastforce
  have "on_path (td ?t) (k, j)" "on_path (td ?tB) (k, j)"
    using on_path_mono [OF c common_le(1)] on_path_mono [OF c common_le(2)] d by (simp_all add: kj)
  then have "TranslateNode ?t (pnode (td ?t) (k, j)) (mt_depth ?tB) = pnode (td ?tB) (k, j)"
    using TranslateNode_path [OF t(1)] depth_bounds [OF t(2)] by blast
  then show ?thesis using i d
    by (simp add: ask_objects_def say_def object_question_def their_node_def PeekExplorationQueue_def asking_def kj RelayBucketProxy_def DirectMerkleTreeProxy_def)
qed

lemma push_entries:
  assumes ready: "pull_ready DA CA goodA stA DB CB goodB stB" and cB: "cB = CB (storageDriver stB)"
    and c: "on_path (common (merkleTree stA) (merkleTree stB)) c"
    and i: "asking (merkleTree stA) (merkleTree stB) (c # q) i" "pulling CA goodA stA cB S (in_proxy i)" and r: "sending stB c es r"
    and S: "S \<subseteq> dom (data_of cB)" and es: "distinct (map entry_key es)" "\<forall>e \<in> set es. stored_entry cB e" "entry_key ` set es \<inter> S = {}"
    and rest: "\<And>i r. asking (merkleTree stA) (merkleTree stB) (c # q) i \<Longrightarrow> pulling CA goodA stA cB (S \<union> entry_key ` set es) (in_proxy i) \<Longrightarrow>
       sending stB c [] r \<Longrightarrow> answers (RelayBucketProxy DA) (RelayBucketProxy DB) (object_question i (merkleTree stB) c) i r Post"
  shows "answers (RelayBucketProxy DA) (RelayBucketProxy DB) (object_question i (merkleTree stB) c) i r Post"
  using i r S es rest
proof (induction es arbitrary: S i r)
  case Nil
  then show ?case by simp
next
  case (Cons e es)
  let ?P = "RelayBucketProxy DA" and ?Q = "RelayBucketProxy DB" and ?tB = "merkleTree stB"
  let ?k = "entry_key e"
  obtain ss where ss: "en_Value e = Some ss" "data_of cB ?k = Some (MarshalJSON ss)" using Cons.prems(6) by (auto simp: stored_entry_def)
  have "rows_ok cB (nextRowID stB)" using ready by (simp add: pull_ready_def store_ok_def cB)
  then have k: "?k \<notin> S" "?k \<noteq> ''''" using Cons.prems(7) ss(2) no_empty_key [of cB "nextRowID stB"] by auto
  let ?push = "message (re_sessionID r) SYNC_PUSH_MESSAGE (PushMessage '''' ?k (Some ss))" and ?r = "r\<lparr>iter := Some (es, False)\<rparr>"
  have resp: "Responder_NextState ?Q (Some (object_question i ?tB c)) r = Some (Some ?push, ?r)"
    using Cons.prems(3) ss(1)
    by (simp add: Responder_NextState_def responder_push_def object_question_def message_def sending_def responder_next_def push_entry_def re_say_def)
  obtain bk' where bk': "px_Merge ?P (in_proxy i) [(?k, Some ss)] = Some (True, bk')" "pulling CA goodA stA cB (insert ?k S) bk'"
    using pull_one [OF ready cB Cons.prems(2,4) k ss(2)] by blast
  let ?i = "i\<lparr>currentNodeKeys := removeAll ?k (currentNodeKeys i), in_proxy := bk'\<rparr>"
  have i': "asking (merkleTree stA) ?tB (c # q) ?i" "pulling CA goodA stA cB (insert ?k S) (in_proxy ?i)"
    using Cons.prems(1) bk'(2) by (simp_all add: asking_def)
  have q: "object_question ?i ?tB c = object_question i ?tB c" by (simp add: object_question_def)
  have init: "NextState ?P (Some ?push) i = Some (Some (object_question i ?tB c), ?i)"
  proof -
    have "NextState ?P (Some ?push) i = ask_objects ?P ?i"
      using Cons.prems(1) bk'(1) by (simp add: NextState_def initiator_push_def asking_def message_def)
    also have "\<dots> = Some (Some (object_question i ?tB c), ?i)" using ask_next [OF ready i' c] q by simp
    finally show ?thesis .
  qed
  have "answers ?P ?Q (object_question ?i ?tB c) ?i ?r Post"
  proof (rule Cons.IH [OF i'])
    show "sending stB c es ?r" using Cons.prems(3) by (simp add: sending_def)
    show "insert ?k S \<subseteq> dom (data_of cB)" using Cons.prems(4) ss(2) by auto
    show "distinct (map entry_key es)" "\<forall>e \<in> set es. stored_entry cB e" using Cons.prems(5,6) by simp_all
    show "entry_key ` set es \<inter> insert ?k S = {}" using Cons.prems(5,7) by auto
    show "answers ?P ?Q (object_question i ?tB c) i r Post"
      if "asking (merkleTree stA) ?tB (c # q) i" "pulling CA goodA stA cB (insert ?k S \<union> entry_key ` set es) (in_proxy i)" "sending stB c [] r" for i r
      using Cons.prems(8) [OF that(1) _ that(3)] that(2) by simp
  qed
  then show ?case using answers_step [OF resp init] Cons.prems(1) by (simp add: q asking_def)
qed

lemma switch_node:
  assumes ready: "pull_ready DA CA goodA stA DB CB goodB stB" and r: "re_state r = DB_OBJECT_PUSH" "iter r \<noteq> None" "serving stB (re_proxy r)"
    and c: "on_path (td (merkleTree stB)) c" "currentIterationNode r \<noteq> pnode (td (merkleTree stB)) c"
  shows "\<exists>es r2. Responder_NextState (RelayBucketProxy DB) (Some (object_question i (merkleTree stB) c)) r
      = Responder_NextState (RelayBucketProxy DB) (Some (object_question i (merkleTree stB) c)) r2
    \<and> sending stB c es r2 \<and> distinct (map entry_key es) \<and> (\<forall>e \<in> set es. stored_entry (CB (storageDriver stB)) e)
    \<and> entry_key ` set es = keys_at (CB (storageDriver stB)) (merkleTree stB) c"
proof -
  let ?n = "pnode (td (merkleTree stB)) c"
  obtain es bk' where es: "px_GetSyncChildren (RelayBucketProxy DB) (re_proxy r) ?n = (Some (es, False), bk')" "serving stB bk'"
      "distinct (map entry_key es)" "\<forall>e \<in> set es. stored_entry (CB (storageDriver stB)) e"
      "entry_key ` set es = keys_at (CB (storageDriver stB)) (merkleTree stB) c"
    using serve [OF ready r(3) c(1)] by blast
  let ?r2 = "r\<lparr>currentIterationNode := ?n, re_proxy := bk', iter := Some (es, False)\<rparr>"
  obtain it where it: "iter r = Some it" using r(2) by blast
  have "Responder_NextState (RelayBucketProxy DB) (Some (object_question i (merkleTree stB) c)) r
      = Responder_NextState (RelayBucketProxy DB) (Some (object_question i (merkleTree stB) c)) ?r2"
    using r(1) it c(2) es(1) by (simp add: Responder_NextState_def responder_push_def object_question_def message_def)
  moreover have "sending stB c es ?r2" using r(1) es(2) by (simp add: sending_def)
  ultimately show ?thesis using es(3-5) by blast
qed

lemma answers_cong: "Responder_NextState Q (Some m) r = Responder_NextState Q (Some m) r2 \<Longrightarrow> answers P Q m i r2 Post \<Longrightarrow> answers P Q m i r Post"
  by (simp add: answers_def)

lemma keys_at_disjoint:
  assumes "tree_ok t" "on_path (td t) c" "on_path (td t) c'" "snd c = snd c'" "c \<noteq> c'"
  shows "keys_at cB t c \<inter> keys_at cB t c' = {}"
proof -
  obtain a j b where c: "c = (a, j)" "c' = (b, j)" using assms(4) by (metis prod.collapse)
  have "on_path (td t) (a, j)" "on_path (td t) (b, j)" using assms(2,3) c by simp_all
  then show ?thesis unfolding c using keys_at_iff [OF assms(1)] assms(5) c by auto
qed

text \<open>What a finished session has done: the keys \<open>S\<close> are merged, the responder has only read.\<close>

definition pulled :: "('a \<Rightarrow> stored contents) \<Rightarrow> ('a \<Rightarrow> bool) \<Rightarrow> 'a store \<Rightarrow> stored contents \<Rightarrow> 'b store \<Rightarrow> string set
    \<Rightarrow> 'a bucket initiator \<Rightarrow> 'b bucket responder \<Rightarrow> bool" where
  "pulled CA goodA stA cB stB S i r \<longleftrightarrow> pulling CA goodA stA cB S (in_proxy i) \<and> serving stB (re_proxy r)"

lemma push_nodes:
  assumes ready: "pull_ready DA CA goodA stA DB CB goodB stB" and cB: "cB = CB (storageDriver stB)"
    and cs: "\<forall>c \<in> set (c # cs). on_path (common (merkleTree stA) (merkleTree stB)) c \<and> snd c = j" "distinct (c # cs)" "length cs < 2 ^ 32"
    and i: "asking (merkleTree stA) (merkleTree stB) (c # cs) i" "pulling CA goodA stA cB S (in_proxy i)" and r: "sending stB c es r"
    and S: "S \<subseteq> dom (data_of cB)" "\<forall>c \<in> set (c # cs). keys_at cB (merkleTree stB) c \<inter> S = {}"
    and es: "distinct (map entry_key es)" "\<forall>e \<in> set es. stored_entry cB e" "entry_key ` set es = keys_at cB (merkleTree stB) c"
  shows "answers (RelayBucketProxy DA) (RelayBucketProxy DB) (object_question i (merkleTree stB) c) i r
    (pulled CA goodA stA cB stB (S \<union> \<Union> (keys_at cB (merkleTree stB) ` set (c # cs))))"
  using cs i r S es
proof (induction cs arbitrary: c S i r es)
  case Nil
  let ?P = "RelayBucketProxy DA" and ?Q = "RelayBucketProxy DB" and ?tB = "merkleTree stB"
  have c: "on_path (common (merkleTree stA) ?tB) c" and disj: "entry_key ` set es \<inter> S = {}" using Nil.prems by auto
  show ?case
  proof (rule push_entries [OF ready cB c Nil.prems(4,5,6,7,9,10) disj])
    fix i r assume i: "asking (merkleTree stA) ?tB [c] i" and pull: "pulling CA goodA stA cB (S \<union> entry_key ` set es) (in_proxy i)" and r: "sending stB c [] r"
    have resp: "Responder_NextState ?Q (Some (object_question i ?tB c)) r = Some (Some (message (re_sessionID r) SYNC_PUSH_DONE PushDone), r)"
      using r by (simp add: Responder_NextState_def responder_push_def object_question_def message_def sending_def responder_next_def re_say_def)
    have "NextState ?P (Some (message (re_sessionID r) SYNC_PUSH_DONE PushDone)) i = abort (snd (PopExplorationQueue i))"
      using i by (simp add: NextState_def initiator_push_def message_def asking_def PopExplorationQueue_def forgetNonAuthoritativeKeys_def ExplorationQueueSize_def)
    then have init: "NextState ?P (Some (message (re_sessionID r) SYNC_PUSH_DONE PushDone)) i
        = Some (Some (message (in_sessionID i) SYNC_ABORT Abort), (snd (PopExplorationQueue i))\<lparr>in_state := END\<rparr>)"
      by (simp add: abort_def say_def PopExplorationQueue_def)
    show "answers ?P ?Q (object_question i ?tB c) i r (pulled CA goodA stA cB stB (S \<union> \<Union> (keys_at cB ?tB ` set [c])))"
      by (rule answers_end [OF resp init]) (use pull r Nil.prems(11) in \<open>simp_all add: pulled_def PopExplorationQueue_def sending_def\<close>)
  qed
next
  case (Cons c' cs)
  let ?P = "RelayBucketProxy DA" and ?Q = "RelayBucketProxy DB" and ?tB = "merkleTree stB"
  have c: "on_path (common (merkleTree stA) ?tB) c" "on_path (common (merkleTree stA) ?tB) c'" and disj: "entry_key ` set es \<inter> S = {}"
    using Cons.prems by auto
  have t: "tree_ok ?tB" using ready by (simp add: pull_ready_def store_ok_def represents_def)
  have pc: "on_path (td ?tB) x" if "x \<in> set (c # c' # cs)" for x using that Cons.prems(1) on_path_mono [OF _ common_le(2)] by blast
  show ?case
  proof (rule push_entries [OF ready cB c(1) Cons.prems(4,5,6,7,9,10) disj])
    fix i r assume i: "asking (merkleTree stA) ?tB (c # c' # cs) i" and pull: "pulling CA goodA stA cB (S \<union> entry_key ` set es) (in_proxy i)"
      and r: "sending stB c [] r"
    let ?i = "snd (PopExplorationQueue i)" and ?S = "S \<union> keys_at cB ?tB c"
    have resp: "Responder_NextState ?Q (Some (object_question i ?tB c)) r = Some (Some (message (re_sessionID r) SYNC_PUSH_DONE PushDone), r)"
      using r by (simp add: Responder_NextState_def responder_push_def object_question_def message_def sending_def responder_next_def re_say_def)
    have i': "asking (merkleTree stA) ?tB (c' # cs) ?i" "pulling CA goodA stA cB ?S (in_proxy ?i)"
      using i pull Cons.prems(11) by (simp_all add: asking_def PopExplorationQueue_def)
    have "(of_nat (length (c' # cs)) :: u32) \<noteq> 0"
      using unat_of_nat_u32 [OF Cons.prems(3)] by (metis length_Cons nat.distinct(1) unat_0)
    then have "NextState ?P (Some (message (re_sessionID r) SYNC_PUSH_DONE PushDone)) i = ask_objects ?P ?i"
      using i by (simp add: NextState_def initiator_push_def message_def asking_def PopExplorationQueue_def forgetNonAuthoritativeKeys_def
          ExplorationQueueSize_def getNodeKeys_def Let_def)
    then have init: "NextState ?P (Some (message (re_sessionID r) SYNC_PUSH_DONE PushDone)) i = Some (Some (object_question ?i ?tB c'), ?i)"
      using ask_next [OF ready i' c(2)] by simp
    have "currentIterationNode r \<noteq> pnode (td ?tB) c'"
      using r pnode_inject [OF t pc pc, of c c'] Cons.prems(2) by (auto simp: sending_def)
    then obtain es' r2 where r2: "Responder_NextState ?Q (Some (object_question ?i ?tB c')) r = Responder_NextState ?Q (Some (object_question ?i ?tB c')) r2"
        "sending stB c' es' r2" "distinct (map entry_key es')" "\<forall>e \<in> set es'. stored_entry cB e" "entry_key ` set es' = keys_at cB ?tB c'"
      using switch_node [OF ready, of r c' ?i] r pc [of c'] unfolding sending_def cB by auto
    have "answers ?P ?Q (object_question ?i ?tB c') ?i r2 (pulled CA goodA stA cB stB (?S \<union> \<Union> (keys_at cB ?tB ` set (c' # cs))))"
    proof (rule Cons.IH [OF _ _ _ i' r2(2) _ _ r2(3-5)])
      show "\<forall>c \<in> set (c' # cs). on_path (common (merkleTree stA) ?tB) c \<and> snd c = j" "distinct (c' # cs)" "length cs < 2 ^ 32"
        using Cons.prems(1-3) by simp_all
      show "?S \<subseteq> dom (data_of cB)" using Cons.prems(7) by (auto simp: keys_at_def)
      show "\<forall>x \<in> set (c' # cs). keys_at cB ?tB x \<inter> ?S = {}"
      proof
        fix x assume x: "x \<in> set (c' # cs)"
        have "keys_at cB ?tB x \<inter> keys_at cB ?tB c = {}"
          using x Cons.prems(1,2) by (intro keys_at_disjoint [OF t pc pc]) auto
        then show "keys_at cB ?tB x \<inter> ?S = {}" using Cons.prems(8) x by auto
      qed
    qed
    then have ans: "answers ?P ?Q (object_question ?i ?tB c') ?i r (pulled CA goodA stA cB stB (S \<union> \<Union> (keys_at cB ?tB ` set (c # c' # cs))))"
      using answers_cong [OF r2(1)] by (simp add: Un_assoc)
    show "answers ?P ?Q (object_question i ?tB c) i r (pulled CA goodA stA cB stB (S \<union> \<Union> (keys_at cB ?tB ` set (c # c' # cs))))"
      by (rule answers_step [OF resp init _ ans]) (use i' in \<open>simp add: asking_def\<close>)
  qed
qed

end
