(* ===== verification/Sync_Properties.thy ===== *)
theory Sync_Properties
  imports Sync_Relay
begin

text \<open>
  What a whole sync session between two relays does to the initiator's store, from the first message to the last.
\<close>

section \<open>The keys a session may transfer\<close>

text \<open>The keys the responder has whose path from the root down to the deepest common level differs at every node.\<close>

definition stale_keys :: "merkle_tree \<Rightarrow> merkle_tree \<Rightarrow> stored contents \<Rightarrow> string set" where
  "stale_keys t t' cB = {k \<in> dom (data_of cB). \<forall>l < common t t'. differ t t' (leaf_idx (mt_depth t') k div 2 ^ (td t' - 1 - l), l)}"

lemma frontier_iff: "(k, j) \<in> set (frontier t t' j) \<longleftrightarrow> k < 2 ^ j \<and> (\<forall>l \<le> j. differ t t' (k div 2 ^ (j - l), l))"
proof (induction j arbitrary: k)
  case 0
  then show ?case by auto
next
  case (Suc j)
  have parent: "k div 2 div 2 ^ (j - l) = k div 2 ^ (Suc j - l)" if "l \<le> j" for l
    using that by (simp add: Suc_diff_le div_mult2_eq)
  have "(k, Suc j) \<in> set (frontier t t' (Suc j)) \<longleftrightarrow> (k div 2, j) \<in> set (frontier t t' j) \<and> differ t t' (k, Suc j)"
  proof
    assume "(k, Suc j) \<in> set (frontier t t' (Suc j))"
    then obtain c where c: "c \<in> set (frontier t t' j)" "(k, Suc j) \<in> set (children c)" "differ t t' (k, Suc j)" by auto
    then have "c = (k div 2, j)" using children_parent [OF c(2)] by (simp add: prod_eq_iff)
    with c show "(k div 2, j) \<in> set (frontier t t' j) \<and> differ t t' (k, Suc j)" by simp
  next
    assume r: "(k div 2, j) \<in> set (frontier t t' j) \<and> differ t t' (k, Suc j)"
    have "k = 2 * (k div 2) \<or> k = Suc (2 * (k div 2))" by presburger
    then have "(k, Suc j) \<in> set (children (k div 2, j))" by (auto simp: children_def)
    with r show "(k, Suc j) \<in> set (frontier t t' (Suc j))" by force
  qed
  also have "\<dots> \<longleftrightarrow> (k div 2 < 2 ^ j \<and> (\<forall>l \<le> j. differ t t' (k div 2 ^ (Suc j - l), l))) \<and> differ t t' (k, Suc j)"
    unfolding Suc.IH using parent by (metis (mono_tags, lifting))
  also have "\<dots> \<longleftrightarrow> k < 2 ^ Suc j \<and> (\<forall>l \<le> Suc j. differ t t' (k div 2 ^ (Suc j - l), l))"
  proof -
    have "k div 2 < 2 ^ j \<longleftrightarrow> k < 2 ^ Suc j" by (simp add: div_less_iff_less_mult mult.commute)
    then show ?thesis by (auto simp: le_Suc_eq)
  qed
  finally show ?case .
qed

lemma stale_keys_frontier:
  assumes t: "tree_ok t" "tree_ok t'"
  shows "stale_keys t t' cB = \<Union> (keys_at cB t' ` set (frontier t t' (common t t' - 1)))"
proof -
  let ?j = "common t t' - 1" and ?d = "td t' - 1"
  have pos: "0 < common t t'" using depth_bounds [OF t(1)] depth_bounds [OF t(2)] by (auto simp: common_def)
  have le: "common t t' \<le> td t'" by (rule common_le)
  have part: "leaf_idx (mt_depth t') k div 2 ^ (?d - l) = leaf_idx (mt_depth t') k div 2 ^ (?d - ?j) div 2 ^ (?j - l)" if "l < common t t'" for k l
  proof -
    have "?d - l = (?d - ?j) + (?j - l)" using that le by linarith
    then show ?thesis by (simp add: power_add div_mult2_eq)
  qed
  have bound: "leaf_idx (mt_depth t') k div 2 ^ (?d - ?j) < 2 ^ ?j" for k
  proof -
    have "leaf_idx (mt_depth t') k < 2 ^ ?d" using leaf_in_range [OF t(2), of k] by simp
    also have "\<dots> = 2 ^ ?j * 2 ^ (?d - ?j)" using le pos by (simp flip: power_add)
    finally show ?thesis by (simp add: div_less_iff_less_mult)
  qed
  have key: "k \<in> stale_keys t t' cB \<longleftrightarrow> k \<in> dom (data_of cB) \<and> (leaf_idx (mt_depth t') k div 2 ^ (?d - ?j), ?j) \<in> set (frontier t t' ?j)" for k
  proof -
    have "(\<forall>l < common t t'. differ t t' (leaf_idx (mt_depth t') k div 2 ^ (?d - l), l))
        \<longleftrightarrow> (\<forall>l \<le> ?j. differ t t' (leaf_idx (mt_depth t') k div 2 ^ (?d - ?j) div 2 ^ (?j - l), l))"
    proof -
      have "l < common t t' \<longleftrightarrow> l \<le> ?j" for l using pos by linarith
      then show ?thesis using part by metis
    qed
    then show ?thesis using bound [of k] unfolding stale_keys_def frontier_iff by blast
  qed
  show ?thesis
  proof (intro set_eqI iffI)
    fix k assume k: "k \<in> stale_keys t t' cB"
    let ?c = "(leaf_idx (mt_depth t') k div 2 ^ (?d - ?j), ?j)"
    have "on_path (td t') ?c" using bound [of k] le pos by (simp add: on_path_def)
    then have "k \<in> keys_at cB t' ?c" using k keys_at_iff [OF t(2)] key by simp
    then show "k \<in> \<Union> (keys_at cB t' ` set (frontier t t' ?j))" using k key by blast
  next
    fix k assume "k \<in> \<Union> (keys_at cB t' ` set (frontier t t' ?j))"
    then obtain c where c: "c \<in> set (frontier t t' ?j)" "k \<in> keys_at cB t' c" by blast
    obtain a where a: "c = (a, ?j)" using frontier_level [OF c(1)] by (metis prod.collapse)
    have "on_path (td t') (a, ?j)" using frontier_level [OF c(1)] le pos by (simp add: on_path_def a)
    then show "k \<in> stale_keys t t' cB" using c keys_at_iff [OF t(2)] key by (auto simp: a)
  qed
qed

section \<open>The first leaf\<close>

text \<open>The responder's answer to the first object question: with entries as if it were already sending, without none is sent.\<close>

lemma first_objects:
  assumes ready: "pull_ready DA CA goodA stA DB CB goodB stB" and r: "re_state r = HASH_COMPARE" "serving stB (re_proxy r)"
    and c: "on_path (td (merkleTree stB)) c" and keys: "keys_at (CB (storageDriver stB)) (merkleTree stB) c \<noteq> {}"
  shows "\<exists>es r2. Responder_NextState (RelayBucketProxy DB) (Some (object_question i (merkleTree stB) c)) r
      = Responder_NextState (RelayBucketProxy DB) (Some (object_question i (merkleTree stB) c)) r2
    \<and> sending stB c es r2 \<and> distinct (map entry_key es) \<and> (\<forall>e \<in> set es. stored_entry (CB (storageDriver stB)) e)
    \<and> entry_key ` set es = keys_at (CB (storageDriver stB)) (merkleTree stB) c"
proof -
  let ?n = "pnode (td (merkleTree stB)) c"
  obtain es bk' where es: "px_GetSyncChildren (RelayBucketProxy DB) (re_proxy r) ?n = (Some (es, False), bk')" "serving stB bk'"
      "distinct (map entry_key es)" "\<forall>e \<in> set es. stored_entry (CB (storageDriver stB)) e"
      "entry_key ` set es = keys_at (CB (storageDriver stB)) (merkleTree stB) c"
    using serve [OF ready r(2) c] by blast
  obtain e es' where cons: "es = e # es'" using es(5) keys by (cases es) auto
  let ?r2 = "r\<lparr>currentIterationNode := ?n, re_proxy := bk', iter := Some (es, False), re_state := DB_OBJECT_PUSH\<rparr>"
  have "Responder_NextState (RelayBucketProxy DB) (Some (object_question i (merkleTree stB) c)) r
      = Responder_NextState (RelayBucketProxy DB) (Some (object_question i (merkleTree stB) c)) ?r2"
    using r(1) es(1) by (simp add: Responder_NextState_def responder_push_def responder_compare_def responder_first_def responder_next_def
        push_entry_def re_say_def object_question_def message_def cons)
  moreover have "sending stB c es ?r2" using es(2) by (simp add: sending_def)
  ultimately show ?thesis using es(3-5) by blast
qed

lemma first_empty:
  assumes ready: "pull_ready DA CA goodA stA DB CB goodB stB" and r: "re_state r = HASH_COMPARE" "serving stB (re_proxy r)"
    and c: "on_path (td (merkleTree stB)) c" and keys: "keys_at (CB (storageDriver stB)) (merkleTree stB) c = {}"
  shows "\<exists>bk'. Responder_NextState (RelayBucketProxy DB) (Some (object_question i (merkleTree stB) c)) r
      = Some (Some (message (re_sessionID r) SYNC_PUSH_DONE PushDone),
              r\<lparr>currentIterationNode := pnode (td (merkleTree stB)) c, re_proxy := bk', re_state := DB_OBJECT_PUSH\<rparr>) \<and> serving stB bk'"
proof -
  obtain es bk' where es: "px_GetSyncChildren (RelayBucketProxy DB) (re_proxy r) (pnode (td (merkleTree stB)) c) = (Some (es, False), bk')" "serving stB bk'"
      "entry_key ` set es = keys_at (CB (storageDriver stB)) (merkleTree stB) c"
    using serve [OF ready r(2) c] by blast
  have "es = []" using es(3) keys by simp
  then have "Responder_NextState (RelayBucketProxy DB) (Some (object_question i (merkleTree stB) c)) r
      = Some (Some (message (re_sessionID r) SYNC_PUSH_DONE PushDone),
              r\<lparr>currentIterationNode := pnode (td (merkleTree stB)) c, re_proxy := bk', re_state := DB_OBJECT_PUSH\<rparr>)"
    using r(1) es(1) by (simp add: Responder_NextState_def responder_compare_def responder_first_def re_say_def object_question_def message_def)
  with es(2) show ?thesis by blast
qed

section \<open>The session\<close>

lemma frontier_stays_empty: "frontier t t' j = [] \<Longrightarrow> j \<le> j' \<Longrightarrow> frontier t t' j' = []"
proof -
  assume e: "frontier t t' j = []" and "j \<le> j'"
  from this(2) show ?thesis by (induction j' rule: dec_induct) (simp_all add: e)
qed

lemma frontier_path: "0 < common t t' \<Longrightarrow> c \<in> set (frontier t t' (common t t' - 1)) \<Longrightarrow> on_path (common t t') c \<and> snd c = common t t' - 1"
  using frontier_level [of c t t' "common t t' - 1"] by (simp add: on_path_def)

lemma length_frontier_word:
  assumes "tree_ok t"
  shows "length (frontier t t' (common t t' - 1)) < 2 ^ 32"
proof -
  have "common t t' - 1 \<le> 28" using depth_bounds [OF assms] common_le [of t t'] by linarith
  then have "(2 :: nat) ^ (common t t' - 1) \<le> 2 ^ 28" by (intro power_increasing) auto
  then show ?thesis using length_frontier [of t t' "common t t' - 1"] by simp
qed

text \<open>A session of two relays, up to the point where the initiator has arrived at the leaves.\<close>

lemma relay_session:
  assumes ready: "pull_ready DA CA goodA (bk_store a) DB CB goodB (bk_store b)"
    and tA: "tA = merkleTree (bk_store a)" and tB: "tB = merkleTree (bk_store b)"
    and limit: "2 ^ common tA tB \<le> unat limit"
    and none: "\<And>i r. in_proxy i = a \<Longrightarrow> re_proxy r = b \<Longrightarrow> frontier tA tB (common tA tB - 1) = [] \<Longrightarrow> Post i r"
    and push: "\<And>c cs i r. frontier tA tB (common tA tB - 1) = c # cs \<Longrightarrow> asking tA tB (c # cs) i \<Longrightarrow> in_proxy i = a \<Longrightarrow>
      re_state r = HASH_COMPARE \<Longrightarrow> re_proxy r = b \<Longrightarrow> iter r = None \<Longrightarrow>
      answers (RelayBucketProxy DA) (RelayBucketProxy DB) (object_question i tB c) i r Post"
  shows "\<exists>n. \<forall>fuel \<ge> n. \<exists>i r. session (RelayBucketProxy DA) (RelayBucketProxy DB) fuel None
      (NewInitiatorSyncSession (RelayBucketProxy DA) sid a limit True) (NewResponderSyncSession (RelayBucketProxy DB) b) = Some (i, r) \<and> Post i r"
proof -
  have t: "tree_ok tA" "tree_ok tB" using ready by (simp_all add: pull_ready_def store_ok_def represents_def tA tB)
  have pos: "0 < common tA tB" using depth_bounds [OF t(1)] depth_bounds [OF t(2)] by (auto simp: common_def)
  let ?i = "relay.entered DA sid limit a tB" and ?r = "relay.entered' DB sid b tA"
  have same: "px_MerkleTree (RelayBucketProxy DA) a = a" "px_MerkleTree (RelayBucketProxy DB) b = b" by (simp_all add: RelayBucketProxy_def)
  have ir: "in_proxy ?i = a" "re_proxy ?r = b" "theirDepth ?i = mt_depth tB" "replicatesOutgoing ?i" "re_state ?r = HASH_COMPARE" "iter ?r = None"
    using same by (simp_all add: relay.entered_def relay.entered'_def SetResponderDepth_def NewInitiatorSyncSession_def NewResponderSyncSession_def Let_def)
  have ex: "exploring tA tB ?i ?r"
    using same t limit by (simp add: exploring_def relay.entered_def relay.entered'_def SetResponderDepth_def NewInitiatorSyncSession_def
        NewResponderSyncSession_def Let_def relay.direct Depth_def common_def min_def word_less_nat_alt tA [symmetric] tB [symmetric])
  have leaves: "relay.after DA DB tA tB ?i ?r Post (frontier tA tB (common tA tB - 1))"
  proof (cases "frontier tA tB (common tA tB - 1)")
    case Nil
    then show ?thesis using none [of "at ?i tA END []" ?r] ir by (simp add: relay.after_def)
  next
    case (Cons c cs)
    then have "Suc (snd c) = common tA tB" using frontier_path [OF pos, of c] pos by simp
    moreover have "asking tA tB (c # cs) (at ?i tA DB_OBJECT_PUSH (c # cs))" using ir by (simp add: asking_def)
    moreover have "object_question (at ?i tA DB_OBJECT_PUSH (c # cs)) tB c = object_question ?i tB c" by (simp add: object_question_def)
    ultimately show ?thesis using push [OF Cons, of "at ?i tA DB_OBJECT_PUSH (c # cs)" ?r] ir Cons by (simp add: relay.after_def)
  qed
  have lv: "relay.after DA DB tA tB ?i ?r Post (frontier tA tB 0)"
    by (rule relay.levels [OF ex _ _ leaves pos]) (unfold ir(1,2), rule tA, rule tB)
  have "\<exists>res. run (RelayBucketProxy DA) (RelayBucketProxy DB) None (NewInitiatorSyncSession (RelayBucketProxy DA) sid a limit True)
      (NewResponderSyncSession (RelayBucketProxy DB) b) res \<and> Post (fst res) (snd res)"
  proof (rule relay.session_start [OF same])
    show "Post (at (relay.entered DA sid limit a (merkleTree (bk_store b))) (merkleTree (bk_store a)) END [(0, 0)]) (relay.entered' DB sid b (merkleTree (bk_store a)))"
      if "\<not> differ (merkleTree (bk_store a)) (merkleTree (bk_store b)) (0, 0)"
    proof -
      have "frontier tA tB 0 = []" using that by (simp add: tA tB)
      then have "frontier tA tB (common tA tB - 1) = []" by (rule frontier_stays_empty) simp
      then show ?thesis using none [of "at ?i tA END [(0, 0)]" ?r] ir by (simp add: tA tB)
    qed
    show "relay.after DA DB (merkleTree (bk_store a)) (merkleTree (bk_store b)) (relay.entered DA sid limit a (merkleTree (bk_store b)))
        (relay.entered' DB sid b (merkleTree (bk_store a))) Post [(0, 0)]"
      if "differ (merkleTree (bk_store a)) (merkleTree (bk_store b)) (0, 0)"
      using lv that by (simp add: tA tB)
  qed (use t limit in \<open>simp_all add: tA tB\<close>)
  then obtain i r where "run (RelayBucketProxy DA) (RelayBucketProxy DB) None (NewInitiatorSyncSession (RelayBucketProxy DA) sid a limit True)
      (NewResponderSyncSession (RelayBucketProxy DB) b) (i, r)" "Post i r" by auto
  with session_of_run [OF this(1)] show ?thesis by blast
qed


text \<open>C34: when the responder has no keys under the first differing leaf, the session ends without merging anything, whatever else
  differs: the responder answers that leaf without keeping an iterator, and having none it aborts on the next object question.\<close>

theorem empty_first_leaf_stalls:
  assumes ready: "pull_ready DA CA goodA (bk_store a) DB CB goodB (bk_store b)"
    and tA: "tA = merkleTree (bk_store a)" and tB: "tB = merkleTree (bk_store b)"
    and limit: "2 ^ common tA tB \<le> unat limit"
    and first: "frontier tA tB (common tA tB - 1) = c # cs" "keys_at (CB (storageDriver (bk_store b))) tB c = {}"
  shows "\<exists>n. \<forall>fuel \<ge> n. \<exists>i r. session (RelayBucketProxy DA) (RelayBucketProxy DB) fuel None
      (NewInitiatorSyncSession (RelayBucketProxy DA) sid a limit True) (NewResponderSyncSession (RelayBucketProxy DB) b) = Some (i, r)
    \<and> in_proxy i = a"
proof (rule relay_session [OF ready tA tB limit])
  have t: "tree_ok tA" "tree_ok tB" using ready by (simp_all add: pull_ready_def store_ok_def represents_def tA tB)
  have pos: "0 < common tA tB" using depth_bounds [OF t(1)] depth_bounds [OF t(2)] by (auto simp: common_def)
  let ?P = "RelayBucketProxy DA" and ?Q = "RelayBucketProxy DB"
  show "answers ?P ?Q (object_question i tB c') i r (\<lambda>i r. in_proxy i = a)"
    if F: "frontier tA tB (common tA tB - 1) = c' # cs'" and i: "asking tA tB (c' # cs') i" "in_proxy i = a"
      and r: "re_state r = HASH_COMPARE" "re_proxy r = b" "iter r = None" for c' cs' i r
  proof -
    have eq: "c' = c" "cs' = cs" using F first(1) by simp_all
    have paths: "\<forall>x \<in> set (c # cs). on_path (common tA tB) x" using frontier_path [OF pos] first(1) by metis
    have "on_path (td (merkleTree (bk_store b))) c" using on_path_mono [OF _ common_le(2), of tA tB c] paths by (simp add: tB)
    moreover have "serving (bk_store b) (re_proxy r)" unfolding serving_def r(2) by (rule exI [of _ "st_alloc (bk_store b)"]) simp
    ultimately obtain bk' where resp: "Responder_NextState ?Q (Some (object_question i tB c)) r
        = Some (Some (message (re_sessionID r) SYNC_PUSH_DONE PushDone), r\<lparr>currentIterationNode := pnode (td tB) c, re_proxy := bk', re_state := DB_OBJECT_PUSH\<rparr>)"
      using first_empty [OF ready r(1), of c i] first(2) unfolding tB by blast
    let ?r = "r\<lparr>currentIterationNode := pnode (td tB) c, re_proxy := bk', re_state := DB_OBJECT_PUSH\<rparr>" and ?i = "snd (PopExplorationQueue i)"
    let ?done = "Some (message (re_sessionID r) SYNC_PUSH_DONE PushDone)"
    have step: "NextState ?P ?done i = (if ExplorationQueueSize ?i = 0 then abort ?i else ask_objects ?P ?i)"
      using i(1) by (simp add: NextState_def initiator_push_def message_def asking_def forgetNonAuthoritativeKeys_def getNodeKeys_def Let_def
          PopExplorationQueue_def)
    have pop: "in_proxy ?i = a" "in_state ?i = DB_OBJECT_PUSH" using i by (simp_all add: PopExplorationQueue_def asking_def)
    show ?thesis
    proof (cases "ExplorationQueueSize ?i = 0")
      case True
      then have "NextState ?P ?done i = Some (Some (message (in_sessionID ?i) SYNC_ABORT Abort), ?i\<lparr>in_state := END\<rparr>)"
        using step by (simp add: abort_def say_def)
      from answers_end [OF resp this] show ?thesis using pop eq by simp
    next
      case False
      let ?abort = "Some (message (re_sessionID r) SYNC_ABORT Abort)"
      have init: "NextState ?P ?done i = Some (Some (message (in_sessionID ?i) SYNC_OBJECT_NEXT
          (ObjectNext (their_node ?P ?i (PeekExplorationQueue ?i)))), ?i)"
        using step False by (simp add: ask_objects_def say_def)
      have resp': "Responder_NextState ?Q (Some (message sid SYNC_OBJECT_NEXT (ObjectNext n))) ?r = Some (?abort, ?r\<lparr>re_state := END\<rparr>)" for sid n
        using r(3) by (simp add: Responder_NextState_def responder_push_def message_def re_abort_def re_say_def)
      have "NextState ?P ?abort ?i = Some (Some (message (in_sessionID ?i) SYNC_ABORT Abort), ?i\<lparr>in_state := END\<rparr>)"
        using pop by (simp add: NextState_def initiator_push_def message_def abort_def say_def)
      from answers_end [OF resp' this, of "\<lambda>i r. in_proxy i = a"] answers_step [OF resp init, of "\<lambda>i r. in_proxy i = a"] pop eq
      show ?thesis by simp
    qed
  qed
qed

section \<open>Examples\<close>

text \<open>An in-memory database that is open works.\<close>

abbreviation mem_good :: "(bytes \<times> stored) list level_driver \<Rightarrow> bool" where
  "mem_good s \<equiv> db s \<noteq> None"

lemma mem_reliable: "reliable mem_driver mem_good"
proof -
  have get: "get_values mem_leveldb d ks \<noteq> None" for d :: "(bytes \<times> stored) list" and ks
    by (induction ks) (auto simp: mem_leveldb_def)
  have it: "\<exists>its. iterate mem_leveldb s [r] FORWARD = Some (its, False)" if "mem_good s" for s :: "(bytes \<times> stored) list level_driver" and r
    using that by (auto simp: iterate_def mem_leveldb_def split: option.splits prod.splits)
  show ?thesis unfolding reliable_def
    using get it by (auto simp: LevelDBStorageDriver_def level_Get_def level_GetRange_def level_Batch_def mem_leveldb_def split: option.splits)
qed

text \<open>The empty store of a node, and the store of node \<open>c\<close> after one merge of a live sibling.\<close>

definition ex_none :: "string \<Rightarrow> (bytes \<times> stored) list level_driver store" where
  "ex_none node = (ex_store_of node ex_b9)\<lparr>storageDriver := \<lparr>db = Some []\<rparr>, nextRowID := 0\<rparr>"

definition ex_live :: "(bytes \<times> stored) list level_driver store" where
  "ex_live = snd (the (Store_Merge mem_driver (Some [(''k'', Some [(0, ex_a1)])]) (ex_none ''c'')))"

definition ex_bucket :: "'s store \<Rightarrow> 's bucket" where
  "ex_bucket st = \<lparr>bk_kind = DefaultBucket, bk_store = st\<rparr>"

lemma ex_none_ok: "store_ok mem_contents (ex_none node)"
proof -
  have c: "mem_contents (storageDriver (ex_none node)) = Map.empty" by (simp add: ex_none_def level_contents_def)
  have t: "merkleTree (ex_none node) = ex_tree" by (simp add: ex_none_def)
  have "db_of (Map.empty :: stored contents) = Map.empty" by (simp add: db_of_def data_of_def fun_eq_iff)
  then have "represents ex_tree (db_of (Map.empty :: stored contents))" using ex_tree_represents by simp
  moreover have "leaves_ok ex_tree (Map.empty :: stored contents)"
  proof -
    have tree: "tree_ok ex_tree" using ex_tree_represents by (simp add: represents_def)
    have "NodeHash ex_tree n = zero_hash" if n: "IsLeaf ex_tree n" for n
    proof -
      obtain k where k: "n = word_node (k, 0)" "valid_node (td ex_tree) (k, 0)" using IsLeaf_coord [OF tree n] by blast
      then show ?thesis using NodeHash_node [OF tree k(2)] ex_tree_represents by (simp add: represents_def)
    qed
    then show ?thesis by (simp add: leaves_ok_def)
  qed
  moreover have "index_ok ex_tree (Map.empty :: stored contents)" by (simp add: index_ok_def)
  ultimately show ?thesis unfolding store_ok_def c t by (simp add: ex_none_def rows_ok_def ex_store_of_def)
qed

lemma ex_none_simps [simp]:
  "mem_contents (storageDriver (ex_none node)) = Map.empty" "merkleTree (ex_none node) = ex_tree" "nextRowID (ex_none node) = 0"
  "st_nodeID (ex_none node) = node" "conflictResolver (ex_none node) = MultiValue" "db (storageDriver (ex_none node)) = Some []"
  "writeLocked (writesTryLock (ex_none node)) = False" "writeLocked (readsTryLock (ex_none node)) = False"
  by (simp_all add: ex_none_def level_contents_def ex_store_of_def)

lemma data_none [simp]: "data_of Map.empty = Map.empty"
  by (simp add: data_of_def fun_eq_iff)

lemma ex_a1_set: "consistent_sets [] [ex_a1]" "join_of [ex_a1] node \<le> join_of [] node" if "node \<noteq> ''a''"
proof -
  show "consistent_sets [] [ex_a1]"
    by (auto simp: consistent_sets_def causal_universe_def antichain_def sib_before_def ex_a1_def wf_dvv_def proper_dvv_def covered_def)
  show "join_of [ex_a1] node \<le> join_of [] node"
    using that by (simp add: join_of_def JoinOne_def UnmarshalJSON_def ex_a1_def MaxDot_def)
qed

lemma list_of_singleton: "set xs = {x} \<Longrightarrow> distinct xs \<Longrightarrow> xs = [x]"
  by (cases xs; cases "tl xs") auto

lemma ex_live_run: "Store_Merge mem_driver (Some [(''k'', Some [(0, ex_a1)])]) (ex_none ''c'') = Some (None, ex_live)
    \<and> store_ok mem_contents ex_live \<and> same_frame (ex_none ''c'') ex_live \<and> mem_good (storageDriver ex_live) \<and> unat (nextRowID ex_live) \<le> 1
    \<and> data_of (mem_contents (storageDriver ex_live)) = [''k'' \<mapsto> [ex_a1]]"
proof -
  let ?m = "[(''k'', Some [(0, ex_a1)])]" and ?st = "ex_none ''c''"
  obtain err st' where run: "Store_Merge mem_driver (Some ?m) ?st = Some (err, st')" "store_ok mem_contents st'" "same_frame ?st st'"
      "write_ran mem_driver (length ?m) ?st err st'"
      "err = None \<and> merge_effect MultiValue ''c'' (st_alloc ?st) ?m Map.empty (mem_contents (storageDriver st')) \<or> err = Some EStorage"
    using bucket_driver.Store_Merge_ok [OF bucket_driver.intro, OF mem_kv ex_none_ok, of "''c''" ?m] by auto
  have ran: "err = None" "mem_good (storageDriver st')" "unat (nextRowID st') \<le> 1"
    using write_ran_reliable [OF mem_reliable _ run(4)] by simp_all
  then have st': "st' = ex_live" using run(1) by (simp add: ex_live_def)
  have eff: "merge_effect MultiValue ''c'' (st_alloc ?st) ?m Map.empty (mem_contents (storageDriver st'))" using run(5) ran(1) by simp
  have "data_of (mem_contents (storageDriver st')) = [''k'' \<mapsto> [ex_a1]]"
  proof
    fix k
    show "data_of (mem_contents (storageDriver st')) k = [''k'' \<mapsto> [ex_a1]] k"
    proof (cases "k = ''k''")
      case True
      have mine: "current (Map.empty :: stored contents) ''k'' = []" and theirs: "MarshalJSON [(0, ex_a1)] = [ex_a1]" by (simp_all add: MarshalJSON_def)
      have "set (current (mem_contents (storageDriver st')) ''k'') = maximal sib_before (set [] \<union> set [ex_a1])
          \<and> distinct (current (mem_contents (storageDriver st')) ''k'')"
        using merge_joins [OF eff, of "''k''" "[(0, ex_a1)]"] ex_a1_set [of "''c''"] unfolding mine theirs by (simp add: map_read_def)
      moreover have "maximal sib_before (set [] \<union> set [ex_a1]) = {ex_a1}" by (auto simp: maximal_def sib_before_def)
      ultimately have "current (mem_contents (storageDriver st')) ''k'' = [ex_a1]" by (intro list_of_singleton) simp_all
      then show ?thesis using True by (auto split: option.splits)
    next
      case False
      then show ?thesis using eff by (simp add: merge_effect_def map_read_def)
    qed
  qed
  then show ?thesis using run ran st' by simp
qed

text \<open>An initiator without live objects: every leaf that differs has keys on the responder's side.\<close>

lemma node_hash_keys_at:
  assumes "represents t (db_of c)" "on_path (td t) x"
  shows "NodeHash t (pnode (td t) x) = hxs.F (obj_hash (db_of c)) (keys_at c t x)"
proof -
  have t: "tree_ok t" using assms(1) by (simp add: represents_def)
  note v = on_path_valid [OF assms(2)]
  have "NodeHash t (pnode (td t) x) = node_at (mt_nodes t) (fst x, td t - 1 - snd x)" unfolding pnode_def by (rule NodeHash_node [OF t v])
  also have "\<dots> = hxs.F (obj_hash (db_of c)) (keys_at c t x)"
    unfolding node_covers_keys [OF assms(1) v] keys_at_def pnode_def leaf_in_sub_range [OF t v] dom_db_of ..
  finally show ?thesis .
qed

lemma empty_initiator_first:
  assumes A: "represents t (db_of Map.empty)" and B: "represents t' (db_of cB)" and c: "c \<in> set (frontier t t' (common t t' - 1))"
  shows "keys_at cB t' c \<noteq> {}"
proof
  assume none: "keys_at cB t' c = {}"
  have "tree_ok t" "tree_ok t'" using A B by (simp_all add: represents_def)
  then have pos: "0 < common t t'" using depth_bounds [of t] depth_bounds [of t'] by (auto simp: common_def)
  obtain k where k: "c = (k, common t t' - 1)" using frontier_level [OF c] by (metis prod.collapse)
  have path: "on_path (td t) c" "on_path (td t') c" using frontier_path [OF pos c] on_path_mono common_le by blast+
  have "NodeHash t (pnode (td t) c) = zero_hash" using node_hash_keys_at [OF A path(1)] by (simp add: keys_at_def)
  moreover have "NodeHash t' (pnode (td t') c) = zero_hash" using node_hash_keys_at [OF B path(2)] none by simp
  ultimately have "\<not> differ t t' c" by (simp add: differ_def)
  moreover have "differ t t' c" using c frontier_iff [of k "common t t' - 1"] by (auto simp: k)
  ultimately show False by simp
qed

text \<open>The object hash of the live sibling.\<close>

lemma ex_md5:
  "NewHash [1] = \<lparr>hash0 = 12259094118239690561, hash1 = 6171409270389319049\<rparr>"
  "NewHash (bytes_of_string ''a'') = \<lparr>hash0 = 3585878926028121697, hash1 = 919145239626757800\<rparr>"
  "NewHash (put_be 8 (1 :: u64)) = \<lparr>hash0 = 14926025572499513207, hash1 = 18039970574398020228\<rparr>"
  "NewHash (bytes_of_string ''k'') = \<lparr>hash0 = 12287724283239964147, hash1 = 10152434533701879956\<rparr>"
  by code_simp+

lemma ex_hash_live: "SiblingSet_Hash (Some [(0, ex_a1)]) (bytes_of_string ''k'') \<noteq> zero_hash"
proof -
  have "Sibling_Hash (Some ex_a1) = Xor (NewHash [1]) (Xor (NewHash (bytes_of_string ''a'')) (NewHash (put_be 8 (1 :: u64))))"
    by (simp add: Sibling_Hash_def ex_a1_def NewSibling_def Sibling_Value_def Clock_def DVV_Hash_def)
  then show ?thesis
    by (simp add: SiblingSet_Hash_def ex_md5 Xor_def zero_hash_def Low_def High_def)
qed

abbreviation ex_here :: "(bytes \<times> stored) list level_driver bucket" where
  "ex_here \<equiv> ex_bucket (ex_none ''b'')"

abbreviation ex_there :: "(bytes \<times> stored) list level_driver bucket" where
  "ex_there \<equiv> ex_bucket ex_live"

lemma ex_live_simps [simp]:
  "store_ok mem_contents ex_live" "\<exists>d. db (storageDriver ex_live) = Some d" "data_of (mem_contents (storageDriver ex_live)) = [''k'' \<mapsto> [ex_a1]]"
  "writeLocked (writesTryLock ex_live) = False" "writeLocked (readsTryLock ex_live) = False" "conflictResolver ex_live = MultiValue"
  "unat (nextRowID ex_live) \<le> 1" "mt_depth (merkleTree ex_live) = 2"
  using ex_live_run by (auto simp: same_frame_def ex_tree_def)

lemma ex_pull: "pull_ready mem_driver mem_contents mem_good (bk_store ex_here) mem_driver mem_contents mem_good (bk_store ex_there)"
  using mem_kv mem_reliable ex_none_ok [of "''b''"] ex_a1_set [of "''b''"]
  by (simp add: pull_ready_def ex_bucket_def)

text \<open>The hashes of the two trees differ wherever the key is.\<close>

lemma ex_differ:
  assumes "k < 2 ^ j" "j < 2" "leaf_idx 2 ''k'' div 2 ^ (1 - j) = k"
  shows "NodeHash ex_tree (pnode 2 (k, j)) = zero_hash" "NodeHash (merkleTree ex_live) (pnode 2 (k, j)) \<noteq> zero_hash"
proof -
  have d: "td ex_tree = 2" "td (merkleTree ex_live) = 2" by (simp_all add: ex_tree_def)
  have p: "on_path 2 (k, j)" using assms by (simp add: on_path_def)
  have reps: "represents ex_tree (db_of Map.empty)" "represents (merkleTree ex_live) (db_of (mem_contents (storageDriver ex_live)))"
    using ex_none_ok [of "''b''"] ex_live_simps(1) unfolding store_ok_def by simp_all
  show "NodeHash ex_tree (pnode 2 (k, j)) = zero_hash"
    using node_hash_keys_at [OF reps(1), of "(k, j)"] p d by (simp add: keys_at_def)
  have t: "tree_ok (merkleTree ex_live)" using reps(2) by (simp add: represents_def)
  have "keys_at (mem_contents (storageDriver ex_live)) (merkleTree ex_live) (k, j) = {''k''}"
    using keys_at_iff [OF t, of k j] p d assms(3) by auto
  then have "NodeHash (merkleTree ex_live) (pnode 2 (k, j)) = obj_hash (db_of (mem_contents (storageDriver ex_live))) ''k''"
    using node_hash_keys_at [OF reps(2), of "(k, j)"] p d by simp
  also have "\<dots> = SiblingSet_Hash (Some [(0, ex_a1)]) (bytes_of_string ''k'')"
    by (rule obj_hash_db_of) (simp add: MarshalJSON_def)
  finally show "NodeHash (merkleTree ex_live) (pnode 2 (k, j)) \<noteq> zero_hash" using ex_hash_live by simp
qed

lemma ex_stale: "common ex_tree (merkleTree ex_live) = 2"
  "stale_keys ex_tree (merkleTree ex_live) (mem_contents (storageDriver ex_live)) = {''k''}"
proof -
  show common: "common ex_tree (merkleTree ex_live) = 2" by (simp add: common_def ex_tree_def)
  have "leaf_idx 2 ''k'' < 2" using leaf_in_range [of ex_tree "''k''"] ex_tree_represents by (simp add: represents_def ex_tree_def)
  then have "differ ex_tree (merkleTree ex_live) (leaf_idx 2 ''k'' div 2 ^ (1 - l), l)" if "l < 2" for l
    using that ex_differ [of "leaf_idx 2 ''k'' div 2 ^ (1 - l)" l] by (cases l) (auto simp: differ_def ex_tree_def)
  then show "stale_keys ex_tree (merkleTree ex_live) (mem_contents (storageDriver ex_live)) = {''k''}"
    by (auto simp: stale_keys_def common)
qed


text \<open>The other way round the responder is the empty store.\<close>

theorem empty_first_leaf_stalls_witness:
  "\<exists>n. \<forall>fuel \<ge> n. \<exists>i r. session (RelayBucketProxy mem_driver) (RelayBucketProxy mem_driver) fuel None
      (NewInitiatorSyncSession (RelayBucketProxy mem_driver) 7 ex_there 1000 True) (NewResponderSyncSession (RelayBucketProxy mem_driver) ex_here) = Some (i, r)
    \<and> in_proxy i = ex_there"
proof -
  have t: "merkleTree ex_live = merkleTree (bk_store ex_there)" "ex_tree = merkleTree (bk_store ex_here)"
    by (simp_all add: ex_bucket_def)
  have ready: "pull_ready mem_driver mem_contents mem_good (bk_store ex_there) mem_driver mem_contents mem_good (bk_store ex_here)"
  proof -
    have "unat (nextRowID ex_live) < 2 ^ 64" using le_less_trans [OF ex_live_simps(7)] by simp
    then show ?thesis using mem_kv mem_reliable ex_none_ok [of "''b''"] by (simp add: pull_ready_def ex_bucket_def)
  qed
  have common: "common (merkleTree ex_live) ex_tree = 2" by (simp add: common_def ex_tree_def)
  have idx: "leaf_idx 2 ''k'' < 2" using leaf_in_range [of ex_tree "''k''"] ex_tree_represents by (simp add: represents_def ex_tree_def)
  have "\<forall>l \<le> 1. differ (merkleTree ex_live) ex_tree (leaf_idx 2 ''k'' div 2 ^ (1 - l), l)"
  proof (intro allI impI)
    fix l :: nat assume "l \<le> 1"
    then show "differ (merkleTree ex_live) ex_tree (leaf_idx 2 ''k'' div 2 ^ (1 - l), l)"
      using idx ex_differ [of "leaf_idx 2 ''k'' div 2 ^ (1 - l)" l] by (cases l) (auto simp: differ_def ex_tree_def)
  qed
  then have "(leaf_idx 2 ''k'', 1) \<in> set (frontier (merkleTree ex_live) ex_tree (common (merkleTree ex_live) ex_tree - 1))"
    using idx frontier_iff [of "leaf_idx 2 ''k''" 1 "merkleTree ex_live" ex_tree] by (simp add: common)
  then obtain c cs where F: "frontier (merkleTree ex_live) ex_tree (common (merkleTree ex_live) ex_tree - 1) = c # cs"
    by (cases "frontier (merkleTree ex_live) ex_tree (common (merkleTree ex_live) ex_tree - 1)") simp_all
  have none: "keys_at (mem_contents (storageDriver (bk_store ex_here))) ex_tree c = {}" by (simp add: keys_at_def ex_bucket_def)
  have limit: "2 ^ common (merkleTree ex_live) ex_tree \<le> unat (1000 :: u32)" by (simp add: common)
  show ?thesis using empty_first_leaf_stalls [OF ready t limit F none] .
qed

end
