(* ===== verification/Sync_Exploration.thy ===== *)
theory Sync_Exploration
  imports Sync_Laws Store_Properties
begin

text \<open>
  How long a session explores: whatever a responder answers, the initiator is done with comparing hashes after a number of
  messages that depends on the depth the two sides agreed on only.
\<close>

section \<open>A session seen from the initiator\<close>

text \<open>The initiator after the messages it received, \<open>None\<close> if one of them made it panic.\<close>

fun receive_all :: "'a bucket_proxy \<Rightarrow> sync_message option list \<Rightarrow> 'a initiator \<Rightarrow> 'a initiator option" where
  "receive_all P [] i = Some i"
| "receive_all P (m # ms) i = Option.bind (NextState P m i) (\<lambda>(_, i'). receive_all P ms i')"

definition compared :: "'a initiator \<Rightarrow> bool" where
  "compared i \<longleftrightarrow> in_state i = DB_OBJECT_PUSH \<or> in_state i = END"

text \<open>The messages a node at a level is good for, and those the initiator may still compare.\<close>

definition weight :: "nat \<Rightarrow> nat \<times> nat \<Rightarrow> nat" where
  "weight d c = 2 ^ (d - snd c) - 1"

definition weights :: "nat \<Rightarrow> (nat \<times> nat) list \<Rightarrow> nat" where
  "weights d q = sum_list (map (weight d) q)"

definition budget :: "nat \<Rightarrow> sync_state \<Rightarrow> (nat \<times> nat) list \<Rightarrow> nat" where
  "budget d st q =
     (case st of
        ROOT_HASH_COMPARE \<Rightarrow> 1 + 2 * weights d q
      | LEFT_HASH_COMPARE \<Rightarrow> 2 * weights d q
      | RIGHT_HASH_COMPARE \<Rightarrow> 1 + 2 * weights d (tl q) + (weight d (hd q) - 1)
      | _ \<Rightarrow> 0)"

lemma weight_half: "Suc (snd c) < d \<Longrightarrow> c' \<in> set (children c) \<Longrightarrow> weight d c = 2 * weight d c' + 1"
proof -
  assume j: "Suc (snd c) < d" and "c' \<in> set (children c)"
  then have "snd c' = Suc (snd c)" using children_parent by blast
  moreover have "d - snd c = Suc (d - Suc (snd c))" using j by linarith
  moreover obtain p :: nat where "2 ^ (d - Suc (snd c)) = Suc p" by (metis not0_implies_Suc power_eq_0_iff zero_neq_numeral)
  ultimately show ?thesis by (simp add: weight_def)
qed

lemma weights_simps [simp]: "weights d [] = 0" "weights d (c # q) = weight d c + weights d q" "weights d (q @ q') = weights d q + weights d q'"
  by (simp_all add: weights_def)

text \<open>The initiator while it compares: its queue holds nodes down to the agreed depth, and the first has children to compare.\<close>

definition comparing :: "merkle_tree \<Rightarrow> 'a bucket initiator \<Rightarrow> sync_state \<Rightarrow> (nat \<times> nat) list \<Rightarrow> bool" where
  "comparing t i st q \<longleftrightarrow> tree_ok t \<and> merkleTree (bk_store (in_proxy i)) = t \<and> unat (maxDepth i) \<le> td t
     \<and> in_state i = st \<and> explorationQueue i = map (pnode (td t)) q \<and> q \<noteq> [] \<and> (\<forall>c \<in> set q. on_path (unat (maxDepth i)) c)
     \<and> (st = ROOT_HASH_COMPARE \<or> (st = LEFT_HASH_COMPARE \<or> st = RIGHT_HASH_COMPARE) \<and> Suc (snd (hd q)) < unat (maxDepth i))"

lemma compared_stays: "compared i \<Longrightarrow> NextState (RelayBucketProxy D) m i = Some (x, i') \<Longrightarrow> compared i'"
  by (auto simp: compared_def NextState_def initiator_push_def abort_def say_def ask_objects_def PopExplorationQueue_def getNodeKeys_def
      forgetNonAuthoritativeKeys_def Let_def split: option.splits if_splits message_body.splits prod.splits Option.bind_splits)

lemma comparing_nodes:
  assumes "comparing t i st ((k, j) # q)"
  shows "at_max_depth (RelayBucketProxy D) i \<longleftrightarrow> Suc j = unat (maxDepth i)"
    "Suc j < unat (maxDepth i) \<Longrightarrow> left_child (RelayBucketProxy D) i = pnode (td t) (2 * k, Suc j)"
    "Suc j < unat (maxDepth i) \<Longrightarrow> right_child (RelayBucketProxy D) i = pnode (td t) (Suc (2 * k), Suc j)"
    "Suc j \<le> unat (maxDepth i)"
proof -
  have t: "tree_ok t" "merkleTree (bk_store (in_proxy i)) = t" "on_path (unat (maxDepth i)) (k, j)" "unat (maxDepth i) \<le> td t"
      "PeekExplorationQueue i = pnode (td t) (k, j)"
    using assms by (simp_all add: comparing_def PeekExplorationQueue_def)
  have p: "on_path (td t) (k, j)" by (rule on_path_mono [OF t(3,4)])
  show "at_max_depth (RelayBucketProxy D) i \<longleftrightarrow> Suc j = unat (maxDepth i)"
    using Level_path [OF t(1) p] t(2) by (simp add: at_max_depth_def relay.direct t(5) word_unat_eq_iff)
  show "left_child (RelayBucketProxy D) i = pnode (td t) (2 * k, Suc j)" if "Suc j < unat (maxDepth i)"
    using LeftChild_path [OF t(1) p] that t(4) by (simp add: left_child_def relay.direct t(5))
  show "right_child (RelayBucketProxy D) i = pnode (td t) (Suc (2 * k), Suc j)" if "Suc j < unat (maxDepth i)"
    using RightChild_path [OF t(1) p] that t(4) by (simp add: right_child_def relay.direct t(5))
  show "Suc j \<le> unat (maxDepth i)" using t(3) by (simp add: on_path_def)
qed

lemma abort_compared: "abort i = Some (x, i') \<Longrightarrow> compared i'"
  by (auto simp: abort_def say_def compared_def)

lemma step_root:
  assumes c: "comparing t i ROOT_HASH_COMPARE q" and n: "NextState (RelayBucketProxy D) m i = Some (x, i')" and more: "\<not> compared i'"
  shows "i' = i\<lparr>in_state := LEFT_HASH_COMPARE\<rparr> \<and> comparing t i' LEFT_HASH_COMPARE q"
proof -
  let ?P = "RelayBucketProxy D"
  have st: "in_state i = ROOT_HASH_COMPARE" and q: "q \<noteq> []" using c by (simp_all add: comparing_def)
  obtain k j q0 where cons: "q = (k, j) # q0" using q by (metis list.exhaust prod.exhaust)
  have "i' = i\<lparr>in_state := LEFT_HASH_COMPARE\<rparr>" "\<not> at_max_depth ?P i"
    using n st more abort_compared
    by (auto simp: NextState_def initiator_root_def ask_hash_def ask_objects_def say_def compared_def split: option.splits if_splits Option.bind_splits)
  then show ?thesis using c comparing_nodes(1) [of t i ROOT_HASH_COMPARE k j q0 D] comparing_nodes(4) [of t i ROOT_HASH_COMPARE k j q0] by (auto simp: comparing_def cons)
qed

lemma step_left:
  assumes c: "comparing t i LEFT_HASH_COMPARE ((k, j) # q)" and n: "NextState (RelayBucketProxy D) m i = Some (x, i')" and more: "\<not> compared i'"
  shows "(i' = i\<lparr>in_state := RIGHT_HASH_COMPARE\<rparr> \<and> comparing t i' RIGHT_HASH_COMPARE ((k, j) # q))
    \<or> (i' = PushExplorationQueue (pnode (td t) (2 * k, Suc j)) (i\<lparr>in_state := RIGHT_HASH_COMPARE\<rparr>)
        \<and> comparing t i' RIGHT_HASH_COMPARE ((k, j) # q @ [(2 * k, Suc j)]))"
proof -
  let ?P = "RelayBucketProxy D"
  have st: "in_state i = LEFT_HASH_COMPARE" and j: "Suc j < unat (maxDepth i)" and p: "on_path (unat (maxDepth i)) (k, j)" using c by (simp_all add: comparing_def)
  have kid: "on_path (unat (maxDepth i)) (2 * k, Suc j)" using on_path_children [OF p j] by simp
  have "i' = i\<lparr>in_state := RIGHT_HASH_COMPARE\<rparr> \<or> i' = PushExplorationQueue (left_child ?P i) (i\<lparr>in_state := RIGHT_HASH_COMPARE\<rparr>)"
    using n st more abort_compared
    by (auto simp: NextState_def initiator_left_def ask_hash_def say_def Let_def PushExplorationQueue_def split: option.splits if_splits Option.bind_splits)
  then show ?thesis using c kid comparing_nodes(2) [OF c j, of D] by (auto simp: comparing_def PushExplorationQueue_def)
qed

lemma step_right:
  assumes c: "comparing t i RIGHT_HASH_COMPARE ((k, j) # q)" and n: "NextState (RelayBucketProxy D) m i = Some (x, i')" and more: "\<not> compared i'"
  shows "\<exists>q'. comparing t i' LEFT_HASH_COMPARE q' \<and> maxDepth i' = maxDepth i \<and> (q' = q \<or> q' = q @ [(Suc (2 * k), Suc j)])"
proof -
  let ?P = "RelayBucketProxy D"
  have st: "in_state i = RIGHT_HASH_COMPARE" and j: "Suc j < unat (maxDepth i)" and p: "on_path (unat (maxDepth i)) (k, j)" using c by (simp_all add: comparing_def)
  have kid: "on_path (unat (maxDepth i)) (Suc (2 * k), Suc j)" using on_path_children [OF p j] by simp
  let ?R = "\<lambda>i1. i' = i1\<lparr>in_state := LEFT_HASH_COMPARE\<rparr> \<and> ExplorationQueueSize i1 \<noteq> 0 \<and> \<not> at_max_depth ?P i1"
  have "?R (snd (PopExplorationQueue i)) \<or> ?R (snd (PopExplorationQueue (PushExplorationQueue (right_child ?P i) i)))"
    using n st more abort_compared
    by (auto simp: NextState_def initiator_right_def ask_hash_def ask_objects_def say_def Let_def compared_def
        split: option.splits if_splits Option.bind_splits prod.splits)
  moreover have "snd (PopExplorationQueue i) = i\<lparr>explorationQueue := map (pnode (td t)) q\<rparr>"
      "snd (PopExplorationQueue (PushExplorationQueue (right_child ?P i) i)) = i\<lparr>explorationQueue := map (pnode (td t)) (q @ [(Suc (2 * k), Suc j)])\<rparr>"
    using c comparing_nodes(3) [OF c j, of D] by (simp_all add: comparing_def PushExplorationQueue_def PopExplorationQueue_def)
  ultimately obtain q' where q': "q' = q \<or> q' = q @ [(Suc (2 * k), Suc j)]" "?R (i\<lparr>explorationQueue := map (pnode (td t)) q'\<rparr>)"
    by metis
  let ?i1 = "i\<lparr>explorationQueue := map (pnode (td t)) q', in_state := ROOT_HASH_COMPARE\<rparr>"
  have "q' \<noteq> []" using q'(2) by (auto simp: ExplorationQueueSize_def)
  moreover have "\<forall>c \<in> set q'. on_path (unat (maxDepth i)) c" using c kid q'(1) by (auto simp: comparing_def)
  ultimately have root: "comparing t ?i1 ROOT_HASH_COMPARE q'" using c by (simp add: comparing_def)
  obtain k' j' q0 where cons: "q' = (k', j') # q0" using \<open>q' \<noteq> []\<close> by (metis list.exhaust prod.exhaust)
  have "at_max_depth ?P ?i1 = at_max_depth ?P (i\<lparr>explorationQueue := map (pnode (td t)) q'\<rparr>)"
    by (simp add: at_max_depth_def PeekExplorationQueue_def)
  then have "Suc j' < unat (maxDepth i)"
    using q'(2) comparing_nodes(1) [OF root [unfolded cons], of D] comparing_nodes(4) [OF root [unfolded cons]] unfolding cons by auto
  then have "comparing t i' LEFT_HASH_COMPARE q'" using root q'(2) by (simp add: comparing_def cons)
  then show ?thesis using q' by auto
qed

lemma explore_step:
  assumes c: "comparing t i st q" and n: "NextState (RelayBucketProxy D) m i = Some (x, i')" and more: "\<not> compared i'"
  shows "\<exists>st' q'. comparing t i' st' q' \<and> maxDepth i' = maxDepth i \<and> budget (unat (maxDepth i)) st' q' < budget (unat (maxDepth i)) st q"
proof -
  obtain k j q0 where q: "q = (k, j) # q0" using c by (metis comparing_def list.exhaust prod.exhaust)
  let ?d = "unat (maxDepth i)"
  consider "st = ROOT_HASH_COMPARE" | "st = LEFT_HASH_COMPARE" | "st = RIGHT_HASH_COMPARE" using c by (auto simp: comparing_def)
  then show ?thesis
  proof cases
    case 1
    have "i' = i\<lparr>in_state := LEFT_HASH_COMPARE\<rparr> \<and> comparing t i' LEFT_HASH_COMPARE q" using step_root [OF c [unfolded 1] n more] .
    then show ?thesis by (intro exI [of _ LEFT_HASH_COMPARE] exI [of _ q]) (auto simp: 1 budget_def)
  next
    case 2
    have j: "Suc j < ?d" using c by (simp add: comparing_def 2 q)
    have w: "weight ?d (k, j) = 2 * weight ?d (2 * k, Suc j) + 1" using weight_half [of "(k, j)" ?d "(2 * k, Suc j)"] j by (simp add: children_def)
    show ?thesis using step_left [OF c [unfolded 2 q] n more]
    proof
      assume "i' = i\<lparr>in_state := RIGHT_HASH_COMPARE\<rparr> \<and> comparing t i' RIGHT_HASH_COMPARE ((k, j) # q0)"
      then show ?thesis using w
        by (intro exI [of _ RIGHT_HASH_COMPARE] exI [of _ "(k, j) # q0"]) (auto simp: 2 q budget_def)
    next
      assume "i' = PushExplorationQueue (pnode (td t) (2 * k, Suc j)) (i\<lparr>in_state := RIGHT_HASH_COMPARE\<rparr>)
          \<and> comparing t i' RIGHT_HASH_COMPARE ((k, j) # q0 @ [(2 * k, Suc j)])"
      then show ?thesis using w
        by (intro exI [of _ RIGHT_HASH_COMPARE] exI [of _ "(k, j) # q0 @ [(2 * k, Suc j)]"]) (auto simp: 2 q budget_def PushExplorationQueue_def)
    qed
  next
    case 3
    have j: "Suc j < ?d" using c by (simp add: comparing_def 3 q)
    have w: "weight ?d (k, j) = 2 * weight ?d (Suc (2 * k), Suc j) + 1" using weight_half [of "(k, j)" ?d "(Suc (2 * k), Suc j)"] j by (simp add: children_def)
    obtain q' where "comparing t i' LEFT_HASH_COMPARE q'" "maxDepth i' = maxDepth i" "q' = q0 \<or> q' = q0 @ [(Suc (2 * k), Suc j)]"
      using step_right [OF c [unfolded 3 q] n more] by blast
    then show ?thesis using w by (intro exI [of _ LEFT_HASH_COMPARE] exI [of _ q']) (auto simp: 3 q budget_def)
  qed
qed

lemma compared_receive: "compared i \<Longrightarrow> receive_all (RelayBucketProxy D) ms i = Some i' \<Longrightarrow> compared i'"
  by (induction ms arbitrary: i) (auto dest: compared_stays split: Option.bind_splits)

lemma explored:
  assumes "comparing t i st q" "receive_all (RelayBucketProxy D) ms i = Some i'" "budget (unat (maxDepth i)) st q < length ms"
  shows "compared i'"
  using assms
proof (induction ms arbitrary: i st q)
  case (Cons m ms)
  from Cons.prems(2) obtain x i1 where step: "NextState (RelayBucketProxy D) m i = Some (x, i1)" "receive_all (RelayBucketProxy D) ms i1 = Some i'"
    by (auto split: Option.bind_splits)
  show ?case
  proof (cases "compared i1")
    case True
    then show ?thesis using compared_receive step(2) by blast
  next
    case False
    obtain st' q' where next': "comparing t i1 st' q'" "maxDepth i1 = maxDepth i" "budget (unat (maxDepth i)) st' q' < budget (unat (maxDepth i)) st q"
      using explore_step [OF Cons.prems(1) step(1) False] by blast
    have "budget (unat (maxDepth i1)) st' q' < length ms" using next'(2,3) Cons.prems(3) by simp
    then show ?thesis by (rule Cons.IH [OF next'(1) step(2)])
  qed
qed simp

text \<open>C32: whatever the responder answers after a handshake that agrees on a depth of at least one, no matter which hashes and no matter
  when it stops answering, the initiator compares at most \<open>2 ^ (d + 1)\<close> messages: then it asks for objects or has given up.\<close>

theorem exploration_terminates:
  assumes "tree_ok (merkleTree (bk_store (in_proxy i)))" "in_state i = ROOT_HASH_COMPARE"
    "explorationQueue i = [RootNode (merkleTree (bk_store (in_proxy i)))]"
    "1 \<le> maxDepth i" "maxDepth i \<le> mt_depth (merkleTree (bk_store (in_proxy i)))"
    and "receive_all (RelayBucketProxy D) ms i = Some i'" "2 ^ (unat (maxDepth i) + 1) \<le> length ms"
  shows "in_state i' = DB_OBJECT_PUSH \<or> in_state i' = END"
proof -
  let ?t = "merkleTree (bk_store (in_proxy i))" and ?d = "unat (maxDepth i)"
  have pos: "0 < ?d" using assms(4) by (simp add: word_le_nat_alt)
  have "comparing ?t i ROOT_HASH_COMPARE [(0, 0)]"
    using assms(1-5) pos RootNode_path [OF assms(1)] by (simp add: comparing_def word_le_nat_alt)
  moreover have "budget ?d ROOT_HASH_COMPARE [(0, 0)] < 2 ^ (?d + 1)"
  proof -
    obtain p :: nat where "2 ^ ?d = Suc p" by (metis not0_implies_Suc power_eq_0_iff zero_neq_numeral)
    then show ?thesis by (simp add: budget_def weight_def)
  qed
  ultimately show ?thesis using explored [of ?t i ROOT_HASH_COMPARE "[(0, 0)]" D ms i'] assms(6,7) by (simp add: compared_def)
qed

section \<open>A responder without a tree\<close>

text \<open>The depth of a responder is not checked. With zero no node of the initiator's tree is at the agreed depth, and a leaf is its
  own child.\<close>

definition unequal :: "hash \<Rightarrow> hash" where
  "unequal h = SetHigh h (High h + 1)"

definition hash_reply :: "u64 \<Rightarrow> hash \<Rightarrow> sync_message option" where
  "hash_reply sid h = Some (message sid SYNC_NODE_HASH (MerkleNodeHash 0 (High h) (Low h)))"

lemma same_hash_reply [simp]:
  "same_hash (message sid SYNC_NODE_HASH (MerkleNodeHash 0 (High h) (Low h))) h = Some True"
  "same_hash (message sid SYNC_NODE_HASH (MerkleNodeHash 0 (High (unequal h)) (Low (unequal h)))) h = Some False"
  by (simp_all add: same_hash_def message_def unequal_def High_def SetHigh_def)

lemma RightChild_on_path:
  assumes t: "tree_ok t" and c: "on_path (td t) c"
  shows "\<exists>c'. on_path (td t) c' \<and> RightChild (pnode (td t) c) = pnode (td t) c'"
proof -
  obtain k j where kj: "c = (k, j)" by fastforce
  show ?thesis
  proof (cases "Suc j < td t")
    case True
    then show ?thesis using RightChild_path [OF t c [unfolded kj] True] on_path_children [OF c [unfolded kj] True] by (auto simp: kj)
  next
    case False
    then have "td t - 1 - j = 0" by simp
    then have "pnode (td t) c AND 1 = 1" using node_parity path_bound [OF t c] by (simp add: pnode_def kj)
    then have "RightChild (pnode (td t) c) = pnode (td t) c" by (simp add: RightChild_def)
    then show ?thesis using c by blast
  qed
qed

definition stuck :: "merkle_tree \<Rightarrow> 'a bucket initiator \<Rightarrow> bool" where
  "stuck t i \<longleftrightarrow> tree_ok t \<and> merkleTree (bk_store (in_proxy i)) = t \<and> maxDepth i = 0 \<and> 1 \<le> explorationPathLimit i
     \<and> in_state i = LEFT_HASH_COMPARE \<and> (\<exists>c. on_path (td t) c \<and> explorationQueue i = [pnode (td t) c])"

lemma not_at_depth_zero:
  assumes "tree_ok (merkleTree (bk_store (in_proxy i)))" "maxDepth i = 0" "on_path (td (merkleTree (bk_store (in_proxy i)))) c"
    "PeekExplorationQueue i = pnode (td (merkleTree (bk_store (in_proxy i)))) c"
  shows "\<not> at_max_depth (RelayBucketProxy D) i"
  using Level_path [OF assms(1), of "fst c" "snd c"] assms(2-4) by (auto simp: at_max_depth_def relay.direct)

lemma stuck_step:
  assumes s: "stuck t i"
  shows "\<exists>m m' i'. receive_all (RelayBucketProxy D) [m, m'] i = Some i' \<and> stuck t i'"
proof -
  let ?P = "RelayBucketProxy D"
  obtain c where c: "on_path (td t) c" "explorationQueue i = [pnode (td t) c]" using s by (auto simp: stuck_def)
  have i: "tree_ok t" "merkleTree (bk_store (in_proxy i)) = t" "maxDepth i = 0" "1 \<le> explorationPathLimit i" "in_state i = LEFT_HASH_COMPARE"
    using s by (simp_all add: stuck_def)
  obtain c' where c': "on_path (td t) c'" "RightChild (pnode (td t) c) = pnode (td t) c'" using RightChild_on_path [OF i(1) c(1)] by blast
  let ?i1 = "i\<lparr>in_state := RIGHT_HASH_COMPARE\<rparr>" and ?i2 = "i\<lparr>explorationQueue := [pnode (td t) c'], in_state := LEFT_HASH_COMPARE\<rparr>"
  have type: "MessageType (message sid ty b) = ty" for sid ty b by (simp add: message_def)
  have one: "\<exists>x. NextState ?P (hash_reply 0 (NodeHash t (left_child ?P i))) i = Some (x, ?i1)"
    using i by (simp add: NextState_def initiator_left_def hash_reply_def type ask_hash_def say_def Let_def)
  let ?hash = "unequal (NodeHash t (right_child ?P ?i1))" and ?i0 = "i\<lparr>explorationQueue := [pnode (td t) c'], in_state := RIGHT_HASH_COMPARE\<rparr>"
  have child: "right_child ?P ?i1 = pnode (td t) c'" using c(2) c'(2) by (simp add: right_child_def relay.direct PeekExplorationQueue_def)
  have deep: "\<not> at_max_depth ?P ?i0"
    using i c'(1) by (intro not_at_depth_zero [of _ c']) (simp_all add: PeekExplorationQueue_def)
  have room: "ExplorationQueueSize ?i1 \<le> explorationPathLimit ?i1" "ExplorationQueueSize ?i0 \<noteq> 0" using i c(2) by (simp_all add: ExplorationQueueSize_def)
  have moved: "snd (PopExplorationQueue (PushExplorationQueue (pnode (td t) c') ?i1)) = ?i0"
    using c(2) by (simp add: PopExplorationQueue_def PushExplorationQueue_def)
  have two: "\<exists>x. NextState ?P (hash_reply 0 ?hash) ?i1 = Some (x, ?i2)"
    using i room deep by (simp add: NextState_def initiator_right_def hash_reply_def type child moved ask_hash_def say_def Let_def)
  have "stuck t ?i2" unfolding stuck_def using i c'(1) by (intro conjI exI [of _ c']) simp_all
  moreover have "receive_all ?P [hash_reply 0 (NodeHash t (left_child ?P i)), hash_reply 0 ?hash] i = Some ?i2" using one two by auto
  ultimately show ?thesis by blast
qed

lemma receive_all_append: "receive_all P (ms @ ms') i = Option.bind (receive_all P ms i) (receive_all P ms')"
  by (induction ms arbitrary: i) (auto split: Option.bind_split)

lemma stuck_forever: "stuck t i \<Longrightarrow> \<exists>ms i'. length ms = 2 * n \<and> receive_all (RelayBucketProxy D) ms i = Some i' \<and> stuck t i'"
proof (induction n arbitrary: i)
  case 0
  then show ?case by (intro exI [of _ "[]"]) simp
next
  case (Suc n)
  obtain m m' i1 where one: "receive_all (RelayBucketProxy D) [m, m'] i = Some i1" "stuck t i1" using stuck_step [OF Suc.prems] by blast
  obtain ms i' where ms: "length ms = 2 * n" "receive_all (RelayBucketProxy D) ms i1 = Some i'" "stuck t i'" using Suc.IH [OF one(2)] by blast
  have "receive_all (RelayBucketProxy D) ([m, m'] @ ms) i = Some i'" unfolding receive_all_append one(1) using ms(2) by simp
  then show ?case using ms by (intro exI [of _ "[m, m'] @ ms"]) auto
qed

text \<open>C33: a responder that announces a tree of depth zero can keep the initiator comparing for as many messages as it likes: a fresh session
  that receives its greeting and then suitable hashes has not reached the object phase nor its end after any number of them.\<close>

theorem depth_zero_explores_forever:
  assumes "tree_ok (merkleTree (bk_store b))" "1 \<le> limit"
  shows "\<exists>ms i'. length ms = n
    \<and> receive_all (RelayBucketProxy D) (None # Some (message sid SYNC_START (Start PROTOCOL_VERSION 0 name)) # ms)
        (NewInitiatorSyncSession (RelayBucketProxy D) sid b limit outgoing) = Some i'
    \<and> in_state i' \<noteq> DB_OBJECT_PUSH \<and> in_state i' \<noteq> END"
proof -
  let ?P = "RelayBucketProxy D" and ?t = "merkleTree (bk_store b)"
  define i0 where "i0 = \<lparr>in_sessionID = sid, in_state = ROOT_HASH_COMPARE, maxDepth = 0, theirDepth = 0, explorationQueue = [RootNode ?t],
    explorationPathLimit = limit, in_proxy = b, replicatesOutgoing = outgoing, currentNodeKeys = []\<rparr>"
  have type: "MessageType (message sid ty bd) = ty" "MessageBody (message sid ty bd) = bd" for sid ty bd by (simp_all add: message_def)
  have depth: "(0 :: u8) < mt_depth ?t" using depth_bounds(1) [OF assms(1)] by (simp add: word_less_nat_alt)
  have same: "px_MerkleTree ?P b = b" by (simp add: RelayBucketProxy_def)
  let ?new = "NewInitiatorSyncSession ?P sid b limit outgoing" and ?hello = "Some (message sid SYNC_START (Start PROTOCOL_VERSION 0 name))"
  have "\<exists>x. NextState ?P None ?new = Some (x, ?new\<lparr>in_state := HANDSHAKE\<rparr>)"
    by (simp add: NextState_def NewInitiatorSyncSession_def Let_def initiator_start_def say_def)
  moreover have "\<exists>x. NextState ?P ?hello (?new\<lparr>in_state := HANDSHAKE\<rparr>) = Some (x, i0)"
    using depth by (simp add: NextState_def NewInitiatorSyncSession_def Let_def initiator_handshake_def say_def type SetResponderDepth_def
        PushExplorationQueue_def relay.direct Depth_def i0_def same)
  ultimately have start: "receive_all ?P (None # ?hello # ms) ?new = receive_all ?P ms i0" for ms by auto
  have path: "on_path (td ?t) (0, 0)" using depth_bounds(1) [OF assms(1)] by simp
  have deep: "\<not> at_max_depth ?P (i0\<lparr>in_state := LEFT_HASH_COMPARE\<rparr>)" "\<not> at_max_depth ?P i0"
    using assms(1) path RootNode_path [OF assms(1)] by (intro not_at_depth_zero [of _ "(0, 0)"]; simp add: i0_def PeekExplorationQueue_def)+
  let ?root = "hash_reply sid (unequal (NodeHash ?t (RootNode ?t)))" and ?i1 = "i0\<lparr>in_state := LEFT_HASH_COMPARE\<rparr>"
  have one: "\<exists>x. NextState ?P ?root i0 = Some (x, ?i1)"
    using deep by (simp add: NextState_def initiator_root_def hash_reply_def type ask_hash_def say_def Let_def i0_def PeekExplorationQueue_def)
  have "stuck ?t ?i1" using assms path RootNode_path [OF assms(1)] by (auto simp: stuck_def i0_def)
  then obtain ms i' where ms: "length ms = 2 * n" "receive_all ?P ms ?i1 = Some i'" "stuck ?t i'" using stuck_forever by blast
  define all where "all = ?root # ms"
  have run: "receive_all ?P all i0 = Some i'" using one ms(2) by (auto simp: all_def)
  have split: "receive_all ?P all i0 = Option.bind (receive_all ?P (take n all) i0) (receive_all ?P (drop n all))"
    unfolding receive_all_append [symmetric] by simp
  then obtain i2 where i2: "receive_all ?P (take n all) i0 = Some i2" "receive_all ?P (drop n all) i2 = Some i'"
    using run by (cases "receive_all ?P (take n all) i0") simp_all
  have "\<not> compared i2" using compared_receive [OF _ i2(2)] ms(3) by (auto simp: compared_def stuck_def)
  moreover have "length (take n all) = n" using ms(1) by (simp add: all_def)
  ultimately show ?thesis using start [of "take n all"] i2(1) unfolding compared_def by (intro exI [of _ "take n all"] exI [of _ i2]) simp
qed

section \<open>Examples\<close>

abbreviation ex_walk :: "(bytes \<times> stored) list level_driver bucket" where
  "ex_walk \<equiv> \<lparr>bk_kind = DefaultBucket, bk_store = ex_store\<rparr>"

definition ex_initiator :: "(bytes \<times> stored) list level_driver bucket initiator" where
  "ex_initiator = \<lparr>in_sessionID = 1, in_state = ROOT_HASH_COMPARE, maxDepth = 2, theirDepth = 2, explorationQueue = [2],
    explorationPathLimit = 10, in_proxy = ex_walk, replicatesOutgoing = True, currentNodeKeys = []\<rparr>"

lemma ex_walk_ok: "tree_ok (merkleTree (bk_store ex_walk))"
  using ex_tree_represents by (simp add: represents_def)

text \<open>Hashes that differ from all of the initiator's, then nothing.\<close>

definition ex_replies :: "sync_message option list" where
  "ex_replies = replicate 3 (hash_reply 1 \<lparr>hash0 = 1, hash1 = 1\<rparr>) @ replicate 5 None"

lemma ex_replies_ends: "map_option in_state (receive_all (RelayBucketProxy mem_driver) ex_replies ex_initiator) = Some END"
  by code_simp

theorem exploration_terminates_witness:
  "\<exists>i'. receive_all (RelayBucketProxy mem_driver) ex_replies ex_initiator = Some i' \<and> (in_state i' = DB_OBJECT_PUSH \<or> in_state i' = END)"
proof -
  obtain i' where i': "receive_all (RelayBucketProxy mem_driver) ex_replies ex_initiator = Some i'" using ex_replies_ends by auto
  have "in_state i' = DB_OBJECT_PUSH \<or> in_state i' = END"
  proof (rule exploration_terminates [OF _ _ _ _ _ i'])
    show "explorationQueue ex_initiator = [RootNode (merkleTree (bk_store (in_proxy ex_initiator)))]"
      by (simp add: ex_initiator_def RootNode_def ex_tree_def go_shl_def)
  qed (use ex_walk_ok in \<open>simp_all add: ex_initiator_def ex_replies_def ex_tree_def\<close>)
  with i' show ?thesis by blast
qed

theorem depth_zero_explores_forever_witness:
  "\<exists>ms i'. length ms = 1000000
    \<and> receive_all (RelayBucketProxy mem_driver) (None # Some (message 1 SYNC_START (Start PROTOCOL_VERSION 0 ''default'')) # ms)
        (NewInitiatorSyncSession (RelayBucketProxy mem_driver) 1 ex_walk 1000 True) = Some i'
    \<and> in_state i' \<noteq> DB_OBJECT_PUSH \<and> in_state i' \<noteq> END"
  by (rule depth_zero_explores_forever [OF ex_walk_ok]) simp

end
