(* ===== verification/Read_Merger.thy ===== *)
theory Read_Merger
  imports Row
begin

text \<open>
  \<^verbatim>\<open>clusterio/read_merger.go\<close> and \<^verbatim>\<open>clusterio/sibling_set_merge_iterator.go\<close>: the answers of the replicas to one read,
  merged per key, the patch each replica needs to catch up, and the iterator over the merged keys. The Go maps are
  association lists in iteration order.
\<close>

section \<open>The read merger\<close>

record read_merger =
  keyVersions :: "(string \<times> (u64 \<times> sibling_set) list) list"
  mergedKeys :: "(string \<times> sibling_set) list"
  rm_resolver :: conflict_resolver

definition NewReadMerger :: "string \<Rightarrow> read_merger" where
  "NewReadMerger bucket = \<lparr>keyVersions = [], mergedKeys = [], rm_resolver = (if bucket = ''lww'' then LastWriterWins else MultiValue)\<rparr>"

definition InsertKeyReplica :: "u64 \<Rightarrow> string \<Rightarrow> sibling_set option \<Rightarrow> read_merger \<Rightarrow> read_merger" where
  "InsertKeyReplica nodeID key siblingSet rm =
     (let versions = (case map_of (keyVersions rm) key of None \<Rightarrow> [] | Some v \<Rightarrow> v);
          siblingSet = (case siblingSet of None \<Rightarrow> NewSiblingSet [] | Some ss \<Rightarrow> ss)
      in rm\<lparr>keyVersions := AList.update key (AList.update nodeID siblingSet versions) (keyVersions rm),
            mergedKeys := AList.update key
              (case map_of (mergedKeys rm) key of None \<Rightarrow> siblingSet | Some mine \<Rightarrow> Sync mine siblingSet) (mergedKeys rm)\<rparr>)"

definition ReadMerger_Get :: "string \<Rightarrow> read_merger \<Rightarrow> sibling_set option" where
  "ReadMerger_Get key rm =
     (case map_of (mergedKeys rm) key of
        None \<Rightarrow> None
      | Some ss \<Rightarrow> if Size ss = 0 then None else Some (ResolveConflicts (rm_resolver rm) ss))"

text \<open>Every key that has versions has a merged set, so the last case of the inner lookup does not arise.\<close>

definition Patch :: "u64 \<Rightarrow> read_merger \<Rightarrow> (string \<times> sibling_set) list" where
  "Patch nodeID rm =
     map (\<lambda>(key, versions). case map_of (mergedKeys rm) key of
            None \<Rightarrow> (key, [])
          | Some all \<Rightarrow> (key, (case map_of versions nodeID of Some version \<Rightarrow> SiblingSet_Diff version all | None \<Rightarrow> all)))
       (keyVersions rm)"

definition ReadMerger_Nodes :: "read_merger \<Rightarrow> u64 list" where
  "ReadMerger_Nodes rm = remdups (concat (map (\<lambda>(key, holders). map fst holders) (keyVersions rm)))"

section \<open>The merge iterator\<close>

text \<open>The keys are grouped by the prefix under which they were found first; the two positions start at -1.\<close>

record merge_iterator =
  mi_keys :: "string list list"
  mi_prefixes :: "string list"
  keySet :: "string list"
  prefixIndexes :: "(string \<times> nat) list"
  currentPrefixIndex :: int
  currentKeyIndex :: int

definition NewSiblingSetMergeIterator :: merge_iterator where
  "NewSiblingSetMergeIterator = \<lparr>mi_keys = [], mi_prefixes = [], keySet = [], prefixIndexes = [], currentPrefixIndex = -1, currentKeyIndex = -1\<rparr>"

definition AddKey :: "string \<Rightarrow> string \<Rightarrow> merge_iterator \<Rightarrow> merge_iterator" where
  "AddKey pre key it =
     (if key \<in> set (keySet it) then it
      else
        (let it = it\<lparr>keySet := key # keySet it\<rparr>;
             it = (case map_of (prefixIndexes it) pre of
                     Some _ \<Rightarrow> it
                   | None \<Rightarrow> it\<lparr>prefixIndexes := (pre, length (mi_keys it)) # prefixIndexes it,
                                mi_keys := mi_keys it @ [[]], mi_prefixes := mi_prefixes it @ [pre]\<rparr>);
             prefixIndex = the (map_of (prefixIndexes it) pre)
         in it\<lparr>mi_keys := (mi_keys it)[prefixIndex := mi_keys it ! prefixIndex @ [key]]\<rparr>))"

text \<open>\<^verbatim>\<open>sort.Strings\<close> compares the bytes of the strings.\<close>

definition SortKeys :: "merge_iterator \<Rightarrow> merge_iterator" where
  "SortKeys it = it\<lparr>mi_keys := map (sort_key bytes_of_string) (mi_keys it)\<rparr>"

definition MergeIterator_Next :: "merge_iterator \<Rightarrow> bool \<times> merge_iterator" where
  "MergeIterator_Next it =
     (let it = (if currentPrefixIndex it < 0 then it\<lparr>currentPrefixIndex := 0\<rparr> else it)
      in if \<not> currentPrefixIndex it < int (length (mi_keys it)) then (False, it)
         else
           (let it = it\<lparr>currentKeyIndex := currentKeyIndex it + 1\<rparr>;
                it = (if currentKeyIndex it \<ge> int (length (mi_keys it ! nat (currentPrefixIndex it)))
                      then it\<lparr>currentPrefixIndex := currentPrefixIndex it + 1, currentKeyIndex := 0\<rparr> else it)
            in (currentPrefixIndex it < int (length (mi_keys it))
                  \<and> currentKeyIndex it < int (length (mi_keys it ! nat (currentPrefixIndex it))), it)))"

definition no_entry :: "merge_iterator \<Rightarrow> bool" where
  "no_entry it \<longleftrightarrow> currentPrefixIndex it < 0 \<or> currentPrefixIndex it \<ge> int (length (mi_keys it)) \<or> mi_keys it = []"

definition MergeIterator_Prefix :: "merge_iterator \<Rightarrow> bytes option" where
  "MergeIterator_Prefix it = (if no_entry it then None else Some (bytes_of_string (mi_prefixes it ! nat (currentPrefixIndex it))))"

definition MergeIterator_Key :: "merge_iterator \<Rightarrow> bytes option" where
  "MergeIterator_Key it =
     (if no_entry it then None
      else if currentKeyIndex it \<ge> int (length (mi_keys it ! nat (currentPrefixIndex it))) then None
      else Some (bytes_of_string (mi_keys it ! nat (currentPrefixIndex it) ! nat (currentKeyIndex it))))"

definition MergeIterator_Value :: "read_merger \<Rightarrow> merge_iterator \<Rightarrow> sibling_set option" where
  "MergeIterator_Value rm it =
     (case MergeIterator_Key it of None \<Rightarrow> None | Some key \<Rightarrow> ReadMerger_Get (string_of_bytes key) rm)"

end
