(* ===== verification/Cluster_IO.thy ===== *)
theory Cluster_IO
  imports Read_Merger
begin

text \<open>
  \<^verbatim>\<open>clusterio/agent.go\<close> and \<^verbatim>\<open>clusterio/read_repairer.go\<close>: reads and writes of a replicated partition. An operation
  asks all replicas at once and a goroutine collects the answers in the order in which they arrive; here the answers are
  a list in that order, and the state of an operation is that of its goroutine together with what the caller has
  received, if anything. A send on an unbuffered channel whose only receiver has gone blocks: \<open>stuck\<close>.
\<close>

datatype node_error = ENoQuorum | EBucketDoesNotExist | ESiteDoesNotExist | EOther

definition NQuorum :: "nat \<Rightarrow> nat" where
  "NQuorum replicas = replicas div 2 + 1"

text \<open>The last error that is more specific than a missing quorum.\<close>

definition note_error :: "node_error \<Rightarrow> node_error \<Rightarrow> node_error" where
  "note_error err resultError = (if err = EBucketDoesNotExist \<or> err = ESiteDoesNotExist then err else resultError)"

section \<open>Operations in flight\<close>

record operations =
  nextOperationID :: u64
  operationCancellers :: "u64 list"

definition newOperation :: "operations \<Rightarrow> u64 \<times> operations" where
  "newOperation s = (nextOperationID s,
     s\<lparr>nextOperationID := nextOperationID s + 1, operationCancellers := List.insert (nextOperationID s) (operationCancellers s)\<rparr>)"

definition cancelOperation :: "u64 \<Rightarrow> operations \<Rightarrow> operations" where
  "cancelOperation opID s = s\<lparr>operationCancellers := removeAll opID (operationCancellers s)\<rparr>"

section \<open>Read repair\<close>

record read_repairer =
  rr_ops :: operations
  rr_stopped :: bool

definition NewReadRepairer :: read_repairer where
  "NewReadRepairer = \<lparr>rr_ops = \<lparr>nextOperationID = 0, operationCancellers = []\<rparr>, rr_stopped = False\<rparr>"

definition StopRepairs :: "read_repairer \<Rightarrow> read_repairer" where
  "StopRepairs rr = (if rr_stopped rr then rr else rr\<lparr>rr_ops := (rr_ops rr)\<lparr>operationCancellers := []\<rparr>, rr_stopped := True\<rparr>)"

text \<open>The merges a repair sends, one for each node that lacks something.\<close>

definition repair_messages :: "read_merger \<Rightarrow> (u64 \<times> (string \<times> sibling_set) list) list" where
  "repair_messages rm =
     concat (map (\<lambda>nodeID. let patch = filter (\<lambda>(key, siblingSet). Size siblingSet \<noteq> 0) (Patch nodeID rm)
                           in if length patch = 0 then [] else [(nodeID, patch)]) (ReadMerger_Nodes rm))"

definition BeginRepair :: "read_merger \<Rightarrow> read_repairer \<Rightarrow> (u64 \<times> (string \<times> sibling_set) list) list \<times> read_repairer" where
  "BeginRepair rm rr =
     (if rr_stopped rr then ([], rr)
      else (repair_messages rm, rr\<lparr>rr_ops := snd (newOperation (rr_ops rr))\<rparr>))"

definition CancelAll :: "operations \<Rightarrow> read_repairer \<Rightarrow> operations \<times> read_repairer" where
  "CancelAll s rr = (s\<lparr>operationCancellers := []\<rparr>, StopRepairs rr)"

section \<open>Merging a patch into replicas\<close>

record merge_run =
  nApplied :: nat
  mr_failed :: nat
  mr_error :: node_error
  mr_verdict :: "(nat \<times> node_error option) option"
  mr_done :: bool

text \<open>The head of the loop: when every node has answered the attempt is over, and a caller still waiting gets the error.\<close>

definition merge_check :: "nat \<Rightarrow> merge_run \<Rightarrow> merge_run" where
  "merge_check n s =
     (if nApplied s + mr_failed s < n then s
      else s\<lparr>mr_done := True, mr_verdict := (case mr_verdict s of None \<Rightarrow> Some (nApplied s, Some (mr_error s)) | v \<Rightarrow> v)\<rparr>)"

definition merge_receive :: "nat \<Rightarrow> nat \<Rightarrow> node_error option \<Rightarrow> merge_run \<Rightarrow> merge_run" where
  "merge_receive n nQuorum answer s =
     (if mr_done s then s
      else merge_check n
        (case answer of
           Some err \<Rightarrow> s\<lparr>mr_failed := mr_failed s + 1, mr_error := note_error err (mr_error s)\<rparr>
         | None \<Rightarrow>
             (let s = s\<lparr>nApplied := nApplied s + 1\<rparr>
              in if nApplied s = nQuorum then s\<lparr>mr_verdict := Some (nApplied s, None)\<rparr> else s)))"

definition merge_start :: "nat \<Rightarrow> merge_run" where
  "merge_start n = merge_check n \<lparr>nApplied = 0, mr_failed = 0, mr_error = ENoQuorum, mr_verdict = None, mr_done = False\<rparr>"

text \<open>What the caller of \<^verbatim>\<open>merge\<close> gets after these answers, \<open>None\<close> while it waits.\<close>

definition agent_merge :: "u64 list \<Rightarrow> nat \<Rightarrow> node_error option list \<Rightarrow> (nat \<times> node_error option) option" where
  "agent_merge nodes nQuorum answers =
     (if length nodes = 0 then Some (if nQuorum = 0 then (0, None) else (0, Some ENoQuorum))
      else mr_verdict (fold (merge_receive (length nodes) nQuorum) answers (merge_start (length nodes))))"

text \<open>An error of this operation that is more specific replaces \<open>ENoQuorum\<close>.\<close>

definition or_specific :: "node_error \<Rightarrow> node_error option \<Rightarrow> node_error option" where
  "or_specific resultError err = (if err = Some ENoQuorum then Some resultError else err)"

text \<open>The answers with the node each is from; the channels do not carry the node.\<close>

type_synonym answers = "(u64 \<times> node_error option) list"

definition Agent_Merge :: "u64 list \<Rightarrow> answers \<Rightarrow> (nat \<times> nat \<times> node_error option) option" where
  "Agent_Merge replicaNodes answers =
     (let remainingNodes = remdups replicaNodes;
          nTotal = length remainingNodes
      in map_option (\<lambda>(nMerged, err). (nTotal, nMerged, or_specific ENoQuorum err)) (agent_merge remainingNodes (NQuorum nTotal) (map snd answers)))"

section \<open>Batches\<close>

text \<open>
  A batch is tried on one node after the other until one accepts it; the patch it gives is then merged into the nodes not
  tried yet. \<open>client\<close> is what a node answers to the batch, \<open>answers\<close> what the others answer to the merge of its patch.
\<close>

fun batch_attempts ::
  "(u64 \<Rightarrow> node_error + 'p) \<Rightarrow> (u64 list \<Rightarrow> 'p \<Rightarrow> answers) \<Rightarrow> nat \<Rightarrow> node_error \<Rightarrow> u64 list
    \<Rightarrow> (nat \<times> nat \<times> node_error option) option" where
  "batch_attempts client answers nTotal resultError [] = Some (nTotal, 0, Some resultError)"
| "batch_attempts client answers nTotal resultError (nodeID # remainingNodes) =
     (case client nodeID of
        Inl err \<Rightarrow> batch_attempts client answers nTotal (note_error err resultError) remainingNodes
      | Inr patch \<Rightarrow>
          map_option (\<lambda>(nMerged, err). (nTotal, nMerged + 1, or_specific resultError err))
            (agent_merge remainingNodes (NQuorum nTotal - 1) (map snd (answers remainingNodes patch))))"

text \<open>This node is tried first when it is a replica.\<close>

definition attempt_order :: "u64 \<Rightarrow> u64 list \<Rightarrow> u64 list" where
  "attempt_order local nodes = (if local \<in> set nodes then local # removeAll local nodes else nodes)"

definition Agent_Batch ::
  "(u64 \<Rightarrow> node_error + 'p) \<Rightarrow> (u64 list \<Rightarrow> 'p \<Rightarrow> answers) \<Rightarrow> u64 \<Rightarrow> u64 list \<Rightarrow> (nat \<times> nat \<times> node_error option) option" where
  "Agent_Batch client answers local replicaNodes =
     (let remainingNodes = remdups replicaNodes
      in batch_attempts client answers (length remainingNodes) ENoQuorum (attempt_order local remainingNodes))"

section \<open>Reads\<close>

record get_run =
  nRead :: nat
  gr_failed :: nat
  gr_error :: node_error
  gr_merger :: read_merger
  gr_verdict :: "(node_error + sibling_set option list) option"
  gr_done :: bool

text \<open>An answer with fewer sets than keys panics.\<close>

fun insert_replicas :: "u64 \<Rightarrow> bytes list \<Rightarrow> sibling_set option list \<Rightarrow> read_merger \<Rightarrow> read_merger option" where
  "insert_replicas nodeID [] sets rm = Some rm"
| "insert_replicas nodeID (key # keys) [] rm = None"
| "insert_replicas nodeID (key # keys) (ss # sets) rm =
     insert_replicas nodeID keys sets (InsertKeyReplica nodeID (string_of_bytes key) ss rm)"

definition get_check :: "nat \<Rightarrow> get_run \<Rightarrow> get_run" where
  "get_check n s =
     (if nRead s + gr_failed s < n then s
      else s\<lparr>gr_done := True, gr_verdict := (case gr_verdict s of None \<Rightarrow> Some (Inl (gr_error s)) | v \<Rightarrow> v)\<rparr>)"

definition get_receive :: "nat \<Rightarrow> bytes list \<Rightarrow> u64 \<times> (node_error + sibling_set option list) \<Rightarrow> get_run \<Rightarrow> get_run option" where
  "get_receive n keys answer s =
     (if gr_done s then Some s
      else
        (case snd answer of
           Inl err \<Rightarrow> Some (get_check n (s\<lparr>gr_failed := gr_failed s + 1, gr_error := note_error err (gr_error s)\<rparr>))
         | Inr siblingSets \<Rightarrow>
             map_option (\<lambda>rm.
               let s = s\<lparr>nRead := nRead s + 1, gr_merger := rm\<rparr>;
                   s = (if nRead s = NQuorum n
                        then s\<lparr>gr_verdict := Some (Inr (map (\<lambda>key. ReadMerger_Get (string_of_bytes key) rm) keys))\<rparr> else s)
               in get_check n s)
             (insert_replicas (fst answer) keys siblingSets (gr_merger s))))"

definition get_start :: "nat \<Rightarrow> string \<Rightarrow> get_run" where
  "get_start n bucket = get_check n
     \<lparr>nRead = 0, gr_failed = 0, gr_error = ENoQuorum, gr_merger = NewReadMerger bucket, gr_verdict = None, gr_done = False\<rparr>"

fun get_loop :: "nat \<Rightarrow> bytes list \<Rightarrow> (u64 \<times> (node_error + sibling_set option list)) list \<Rightarrow> get_run \<Rightarrow> get_run option" where
  "get_loop n keys [] s = Some s"
| "get_loop n keys (a # as) s = Option.bind (get_receive n keys a s) (get_loop n keys as)"

definition Agent_Get :: "u64 list \<Rightarrow> string \<Rightarrow> bytes list \<Rightarrow> (u64 \<times> (node_error + sibling_set option list)) list \<Rightarrow> get_run option" where
  "Agent_Get replicaNodes bucket keys answers =
     (let n = length (remdups replicaNodes) in get_loop n keys answers (get_start n bucket))"

section \<open>Prefix reads\<close>

text \<open>
  The answer of a node is an iterator: its entries with their prefix, and whether it ends with an error. Every answer that
  leaves the number of complete reads at the quorum sends on \<^verbatim>\<open>quorumReached\<close>, and the caller receives once.
\<close>

type_synonym match = "string \<times> string \<times> sibling_set option"

record matches_run =
  gm_read :: nat
  gm_failed :: nat
  gm_error :: node_error
  gm_merger :: read_merger
  gm_iterator :: merge_iterator
  gm_verdict :: "(node_error + merge_iterator) option"
  gm_stuck :: bool
  gm_done :: bool

definition matches_check :: "nat \<Rightarrow> matches_run \<Rightarrow> matches_run" where
  "matches_check n s =
     (if gm_stuck s \<or> gm_failed s + gm_read s < n then s
      else s\<lparr>gm_done := True, gm_verdict := (case gm_verdict s of None \<Rightarrow> Some (Inl (gm_error s)) | v \<Rightarrow> v)\<rparr>)"

fun insert_matches :: "u64 \<Rightarrow> match list \<Rightarrow> matches_run \<Rightarrow> matches_run" where
  "insert_matches nodeID [] s = s"
| "insert_matches nodeID ((pre, key, ss) # es) s =
     insert_matches nodeID es
       (s\<lparr>gm_merger := InsertKeyReplica nodeID key ss (gm_merger s), gm_iterator := AddKey pre key (gm_iterator s)\<rparr>)"

definition matches_receive :: "nat \<Rightarrow> u64 \<times> (node_error + match list \<times> bool) \<Rightarrow> matches_run \<Rightarrow> matches_run" where
  "matches_receive n answer s =
     (if gm_done s \<or> gm_stuck s then s
      else matches_check n
        (case snd answer of
           Inl err \<Rightarrow> s\<lparr>gm_failed := gm_failed s + 1, gm_error := note_error err (gm_error s)\<rparr>
         | Inr (es, failed) \<Rightarrow>
             (let s = insert_matches (fst answer) es s;
                  s = (if failed then s\<lparr>gm_failed := gm_failed s + 1\<rparr> else s\<lparr>gm_read := gm_read s + 1\<rparr>)
              in if gm_read s = NQuorum n then
                   (case gm_verdict s of
                      None \<Rightarrow> s\<lparr>gm_verdict := Some (Inr (SortKeys (gm_iterator s)))\<rparr>
                    | Some _ \<Rightarrow> s\<lparr>gm_stuck := True\<rparr>)
                 else s)))"

definition matches_start :: "nat \<Rightarrow> string \<Rightarrow> matches_run" where
  "matches_start n bucket = matches_check n
     \<lparr>gm_read = 0, gm_failed = 0, gm_error = ENoQuorum, gm_merger = NewReadMerger bucket, gm_iterator = NewSiblingSetMergeIterator,
      gm_verdict = None, gm_stuck = False, gm_done = False\<rparr>"

definition Agent_GetMatches :: "u64 list \<Rightarrow> string \<Rightarrow> (u64 \<times> (node_error + match list \<times> bool)) list \<Rightarrow> matches_run" where
  "Agent_GetMatches replicaNodes bucket answers =
     (let n = length (remdups replicaNodes) in fold (matches_receive n) answers (matches_start n bucket))"

text \<open>Only a goroutine that gets through repairs what it has seen and gives its operation up.\<close>

definition matches_finish :: "u64 \<Rightarrow> matches_run \<Rightarrow> operations \<Rightarrow> read_repairer \<Rightarrow> (u64 \<times> (string \<times> sibling_set) list) list \<times> operations \<times> read_repairer" where
  "matches_finish opID s ops rr =
     (if gm_done s then (let (messages, rr) = BeginRepair (gm_merger s) rr in (messages, cancelOperation opID ops, rr))
      else ([], ops, rr))"

section \<open>The status of a relay\<close>

record relay_status =
  Connected :: bool
  ConnectedTo :: u64
  Ping :: int
  rs_Site :: string

definition not_connected :: relay_status where
  "not_connected = \<lparr>Connected = False, ConnectedTo = 0, Ping = 0, rs_Site = ''''\<rparr>"

record status_run =
  rs_read :: nat
  rs_failed :: nat
  rs_error :: "node_error option"
  rs_verdict :: "(node_error + relay_status) option"
  rs_stuck :: bool
  rs_done :: bool

text \<open>A send of a result to the caller.\<close>

definition send_status :: "relay_status \<Rightarrow> status_run \<Rightarrow> status_run" where
  "send_status r s = (case rs_verdict s of None \<Rightarrow> s\<lparr>rs_verdict := Some (Inr r)\<rparr> | Some _ \<Rightarrow> s\<lparr>rs_stuck := True\<rparr>)"

definition status_check :: "nat \<Rightarrow> status_run \<Rightarrow> status_run" where
  "status_check n s =
     (if rs_stuck s \<or> rs_read s + rs_failed s < n then s
      else
        (case rs_error s of
           Some err \<Rightarrow> s\<lparr>rs_done := True, rs_verdict := (case rs_verdict s of None \<Rightarrow> Some (Inl err) | v \<Rightarrow> v)\<rparr>
         | None \<Rightarrow> (let s = send_status not_connected s in if rs_stuck s then s else s\<lparr>rs_done := True\<rparr>)))"

definition status_receive :: "nat \<Rightarrow> node_error + relay_status \<Rightarrow> status_run \<Rightarrow> status_run" where
  "status_receive n answer s =
     (if rs_done s \<or> rs_stuck s then s
      else status_check n
        (case answer of
           Inl err \<Rightarrow> s\<lparr>rs_failed := rs_failed s + 1, rs_error := Some err\<rparr>
         | Inr r \<Rightarrow> (let s = s\<lparr>rs_read := rs_read s + 1\<rparr> in if Connected r then send_status r s else s)))"

definition Agent_RelayStatus :: "u64 list \<Rightarrow> (node_error + relay_status) list \<Rightarrow> status_run" where
  "Agent_RelayStatus replicaNodes answers =
     (let n = length (remdups replicaNodes)
      in fold (status_receive n) answers
           (status_check n \<lparr>rs_read = 0, rs_failed = 0, rs_error = None, rs_verdict = None, rs_stuck = False, rs_done = False\<rparr>))"

end
