(* ===== verification/Cluster_IO_Laws.thy ===== *)
theory Cluster_IO_Laws
  imports Cluster_IO Data_Properties
begin

text \<open>
  What the goroutines of \<^verbatim>\<open>clusterio\<close> compute from the answers, whatever their order: counts for the writes, the maximal
  siblings of all answers for the reads.
\<close>

section \<open>Counting answers\<close>

definition n_ok :: "'e option list \<Rightarrow> nat" where
  "n_ok answers = length (filter (\<lambda>a. a = None) answers)"

definition last_error :: "node_error option list \<Rightarrow> node_error" where
  "last_error answers = fold (\<lambda>a. case a of None \<Rightarrow> (\<lambda>e. e) | Some err \<Rightarrow> note_error err) answers ENoQuorum"

lemma last_error_simps [simp]:
  "last_error [] = ENoQuorum" "last_error (answers @ [a]) = (case a of None \<Rightarrow> last_error answers | Some err \<Rightarrow> note_error err (last_error answers))"
  by (simp_all add: last_error_def split: option.split)

lemma n_ok_simps [simp]: "n_ok [] = 0" "n_ok (answers @ [a]) = n_ok answers + (if a = None then 1 else 0)" "n_ok answers \<le> length answers"
  by (simp_all add: n_ok_def)

lemma merge_progress:
  assumes "0 < n" "0 < q" "length answers \<le> n"
  shows "fold (merge_receive n q) answers (merge_start n) =
    \<lparr>nApplied = n_ok answers, mr_failed = length answers - n_ok answers, mr_error = last_error answers,
     mr_verdict = (if q \<le> n_ok answers then Some (q, None) else if length answers = n then Some (n_ok answers, Some (last_error answers)) else None),
     mr_done = (length answers = n)\<rparr>"
  using assms(3)
proof (induction answers rule: rev_induct)
  case Nil
  then show ?case using assms(1,2) by (simp add: merge_start_def merge_check_def)
next
  case (snoc a answers)
  have le: "n_ok answers \<le> length answers" by simp
  have "length answers \<noteq> n" "length answers \<le> n" using snoc.prems by simp_all
  then show ?case using snoc.IH le assms(2)
    by (cases a) (auto simp: merge_receive_def merge_check_def Let_def Suc_diff_le)
qed

lemma merge_answered:
  assumes "nodes \<noteq> []" "0 < q" "length answers \<le> length nodes"
  shows "agent_merge nodes q answers =
    (if q \<le> n_ok answers then Some (q, None) else if length answers = length nodes then Some (n_ok answers, Some (last_error answers)) else None)"
  using assms merge_progress [of "length nodes" q answers] by (simp add: agent_merge_def)

section \<open>Merged answers\<close>

text \<open>The sets inserted into a read merger: the node, the key, and the set, if the node has the key.\<close>

type_synonym insertion = "u64 \<times> string \<times> sibling_set option"

definition insert_all :: "insertion list \<Rightarrow> read_merger \<Rightarrow> read_merger" where
  "insert_all ins = fold (\<lambda>(nodeID, key, ss). InsertKeyReplica nodeID key ss) ins"

lemma insert_all_simps [simp]:
  "insert_all [] rm = rm" "insert_all (ins @ ins') rm = insert_all ins' (insert_all ins rm)"
  "insert_all ((nodeID, key, ss) # ins) rm = insert_all ins (InsertKeyReplica nodeID key ss rm)"
  by (simp_all add: insert_all_def)

definition set_of :: "sibling_set option \<Rightarrow> sibling set" where
  "set_of ss = (case ss of None \<Rightarrow> {} | Some ss \<Rightarrow> siblings_of ss)"

definition good_set :: "sibling set \<Rightarrow> sibling_set \<Rightarrow> bool" where
  "good_set U ss \<longleftrightarrow> distinct ss \<and> siblings_of ss \<subseteq> U \<and> antichain sib_before (siblings_of ss)"

definition good_insertions :: "sibling set \<Rightarrow> insertion list \<Rightarrow> bool" where
  "good_insertions U ins \<longleftrightarrow> (\<forall>nodeID key ss. (nodeID, key, Some ss) \<in> set ins \<longrightarrow> good_set U ss)"

definition inserted :: "insertion list \<Rightarrow> string \<Rightarrow> sibling set" where
  "inserted ins key = \<Union> {set_of ss | nodeID ss. (nodeID, key, ss) \<in> set ins}"

lemma inserted_snoc: "inserted (ins @ [(nodeID, k, ss)]) key = inserted ins key \<union> (if k = key then set_of ss else {})"
  by (auto simp: inserted_def)

lemma InsertKeyReplica_merged:
  "map_of (mergedKeys (InsertKeyReplica nodeID k ss rm)) key =
     (if k = key then Some (case map_of (mergedKeys rm) key of None \<Rightarrow> (case ss of None \<Rightarrow> [] | Some ss \<Rightarrow> ss)
        | Some mine \<Rightarrow> Sync mine (case ss of None \<Rightarrow> [] | Some ss \<Rightarrow> ss)) else map_of (mergedKeys rm) key)"
  by (auto simp: InsertKeyReplica_def Let_def update_conv' NewSiblingSet_def split: option.splits)

lemma Sync_good:
  assumes "causal_universe U" "good_set U A" "good_set U B"
  shows "good_set U (Sync A B)" "siblings_of (Sync A B) = maximal sib_before (siblings_of A \<union> siblings_of B)"
proof -
  show S: "siblings_of (Sync A B) = maximal sib_before (siblings_of A \<union> siblings_of B)"
    using assms by (intro Sync_siblings [OF assms(1)]) (simp_all add: good_set_def)
  have "wf_sibling_set A" "wf_sibling_set B" using assms by (auto simp: good_set_def intro: wf_of_causal)
  moreover have "siblings_of (Sync A B) \<subseteq> U"
    unfolding S using maximal_subset [of sib_before "siblings_of A \<union> siblings_of B"] assms(2,3) by (auto simp: good_set_def)
  ultimately show "good_set U (Sync A B)" by (simp add: good_set_def S distinct_Sync)
qed

lemma finite_inserted: "finite (inserted ins key)"
proof -
  have "{set_of ss | nodeID ss. (nodeID, key, ss) \<in> set ins} \<subseteq> (\<lambda>(n, k, ss). set_of ss) ` set ins" by force
  then have "finite {set_of ss | nodeID ss. (nodeID, key, ss) \<in> set ins}" by (rule finite_subset) simp
  moreover have "finite (set_of ss)" for ss by (simp add: set_of_def split: option.split)
  ultimately show ?thesis by (auto simp: inserted_def)
qed

lemma merged_answers:
  assumes U: "causal_universe U" and ins: "good_insertions U ins"
  shows "case map_of (mergedKeys (insert_all ins (NewReadMerger bucket))) key of
      None \<Rightarrow> \<not> (\<exists>nodeID ss. (nodeID, key, ss) \<in> set ins)
    | Some all \<Rightarrow> good_set U all \<and> siblings_of all = maximal sib_before (inserted ins key)"
  using ins
proof (induction ins rule: rev_induct)
  case Nil
  then show ?case by (simp add: NewReadMerger_def)
next
  case (snoc x ins)
  obtain nodeID k ss where x: "x = (nodeID, k, ss)" by (cases x)
  let ?rm = "insert_all ins (NewReadMerger bucket)" and ?ss = "case ss of None \<Rightarrow> [] | Some ss \<Rightarrow> ss"
  have good: "good_insertions U ins" "good_set U ?ss"
    using snoc.prems by (auto simp: good_insertions_def x good_set_def antichain_def split: option.splits)
  have ss: "siblings_of ?ss = set_of ss" by (simp add: set_of_def split: option.split)
  note IH = snoc.IH [OF good(1)]
  show ?case
  proof (cases "k = key")
    case False
    then show ?thesis using IH by (auto simp: x InsertKeyReplica_merged inserted_snoc split: option.splits)
  next
    case True
    show ?thesis
    proof (cases "map_of (mergedKeys ?rm) key")
      case None
      then have "inserted ins key = {}" using IH by (auto simp: inserted_def)
      then show ?thesis using None True good(2) ss
        by (simp add: x InsertKeyReplica_merged inserted_snoc maximal_antichain good_set_def)
    next
      case (Some all)
      then have all: "good_set U all" "siblings_of all = maximal sib_before (inserted ins key)" using IH by simp_all
      have "maximal sib_before (maximal sib_before (inserted ins key) \<union> set_of ss) = maximal sib_before (inserted ins key \<union> set_of ss)"
        by (rule so.maximal_Un [OF finite_inserted])
      then show ?thesis using Some True Sync_good [OF U all(1) good(2)] all(2) ss
        by (simp add: x InsertKeyReplica_merged inserted_snoc)
    qed
  qed
qed

text \<open>What one node answered last for a key, and that the merger keeps it.\<close>

lemma InsertKeyReplica_versions:
  "map_of (keyVersions (InsertKeyReplica nodeID k ss rm)) key =
     (if k = key then Some (AList.update nodeID (case ss of None \<Rightarrow> [] | Some ss \<Rightarrow> ss) (case map_of (keyVersions rm) key of None \<Rightarrow> [] | Some v \<Rightarrow> v))
      else map_of (keyVersions rm) key)"
  by (auto simp: InsertKeyReplica_def Let_def update_conv' NewSiblingSet_def split: option.splits)

lemma distinct_versions: "distinct (map fst (keyVersions (insert_all ins (NewReadMerger bucket))))"
proof (induction ins rule: rev_induct)
  case (snoc x ins)
  obtain nodeID k ss where "x = (nodeID, k, ss)" by (cases x)
  then show ?case using snoc by (simp add: InsertKeyReplica_def Let_def distinct_update)
qed (simp add: NewReadMerger_def)

lemma versions_inserted:
  "map_of (keyVersions (insert_all ins (NewReadMerger bucket))) key = Some versions \<Longrightarrow> map_of versions nodeID = Some v \<Longrightarrow>
     \<exists>ss. (nodeID, key, ss) \<in> set ins \<and> v = (case ss of None \<Rightarrow> [] | Some ss \<Rightarrow> ss)"
proof (induction ins arbitrary: versions v rule: rev_induct)
  case Nil
  then show ?case by (simp add: NewReadMerger_def)
next
  case (snoc x ins)
  obtain n k ss where x: "x = (n, k, ss)" by (cases x)
  show ?case
  proof (cases "k = key")
    case False
    then show ?thesis using snoc.IH [of versions v] snoc.prems by (auto simp: x InsertKeyReplica_versions)
  next
    case True
    let ?old = "case map_of (keyVersions (insert_all ins (NewReadMerger bucket))) key of None \<Rightarrow> [] | Some v \<Rightarrow> v"
    have v: "versions = AList.update n (case ss of None \<Rightarrow> [] | Some ss \<Rightarrow> ss) ?old" using snoc.prems(1) True by (simp add: x InsertKeyReplica_versions)
    show ?thesis
    proof (cases "n = nodeID")
      case True
      then have "v = (case ss of None \<Rightarrow> [] | Some ss \<Rightarrow> ss)" using snoc.prems(2) by (simp add: v update_conv')
      then show ?thesis using True \<open>k = key\<close> by (auto simp: x)
    next
      case False
      then have old: "map_of ?old nodeID = Some v" using snoc.prems(2) by (simp add: v update_conv')
      then obtain w where "map_of (keyVersions (insert_all ins (NewReadMerger bucket))) key = Some w" "map_of w nodeID = Some v"
        by (auto split: option.splits)
      then show ?thesis using snoc.IH by (auto simp: x)
    qed
  qed
qed

lemma versions_merged: "map_of (keyVersions (insert_all ins (NewReadMerger bucket))) key = None
    \<longleftrightarrow> map_of (mergedKeys (insert_all ins (NewReadMerger bucket))) key = None"
proof (induction ins rule: rev_induct)
  case (snoc x ins)
  obtain n k ss where "x = (n, k, ss)" by (cases x)
  then show ?case using snoc by (simp add: InsertKeyReplica_versions InsertKeyReplica_merged)
qed (simp add: NewReadMerger_def)

end
