(* ===== verification/Cluster_IO_Properties.thy ===== *)
theory Cluster_IO_Properties
  imports Cluster_IO_Laws
begin

text \<open>
  The properties of replicated reads and writes: quorums, what a quorum read sees of a quorum write, read repair, and the
  goroutines that never end.
\<close>

lemma NQuorum_majority: "n < 2 * NQuorum n" "0 < n \<Longrightarrow> NQuorum n \<le> n" "0 < NQuorum n"
  by (auto simp: NQuorum_def)

lemma quorums_meet:
  assumes "finite S" "A \<subseteq> S" "B \<subseteq> S" "NQuorum (card S) \<le> card A" "NQuorum (card S) \<le> card B"
  shows "A \<inter> B \<noteq> {}"
proof
  assume "A \<inter> B = {}"
  then have "card (A \<union> B) = card A + card B" using assms(1-3) finite_subset by (intro card_Un_disjoint) blast+
  moreover have "card (A \<union> B) \<le> card S" using assms(1-3) by (intro card_mono) auto
  ultimately show False using assms(4,5) NQuorum_majority(1) [of "card S"] by linarith
qed

text \<open>The interface the reads and writes share: any two quorums of the same replicas have a member in common.\<close>

locale quorum_system =
  fixes quorum :: "'n set \<Rightarrow> 'n set \<Rightarrow> bool"
  assumes meet: "finite S \<Longrightarrow> quorum S A \<Longrightarrow> quorum S B \<Longrightarrow> A \<inter> B \<noteq> {}"
begin

lemma not_empty: "finite S \<Longrightarrow> quorum S A \<Longrightarrow> A \<noteq> {}"
  using meet [of S A A] by blast

lemma common_member: "finite S \<Longrightarrow> quorum S A \<Longrightarrow> quorum S B \<Longrightarrow> \<exists>n. n \<in> A \<and> n \<in> B"
  using meet by blast

end

definition majority_of :: "u64 set \<Rightarrow> u64 set \<Rightarrow> bool" where
  "majority_of S A \<longleftrightarrow> A \<subseteq> S \<and> NQuorum (card S) \<le> card A"

interpretation majority: quorum_system majority_of
proof unfold_locales
  fix S A B assume "majority_of S A" "majority_of S B"
  then show "A \<inter> B \<noteq> {}" using quorums_meet [of S A B] by (simp add: majority_of_def)
qed

section \<open>Writes\<close>

text \<open>The nodes that have accepted a merge, and those that hold a batch: the one that executed it and those that merged its patch.\<close>

definition accepted :: "answers \<Rightarrow> u64 set" where
  "accepted answers = {nodeID. (nodeID, None) \<in> set answers}"

fun batch_holders :: "(u64 \<Rightarrow> node_error + 'p) \<Rightarrow> (u64 list \<Rightarrow> 'p \<Rightarrow> answers) \<Rightarrow> u64 list \<Rightarrow> u64 set" where
  "batch_holders client answers [] = {}"
| "batch_holders client answers (nodeID # nodes) =
     (case client nodeID of Inl err \<Rightarrow> batch_holders client answers nodes | Inr patch \<Rightarrow> insert nodeID (accepted (answers nodes patch)))"

text \<open>Answers of these nodes, each at most once.\<close>

definition answers_of :: "u64 list \<Rightarrow> (u64 \<times> 'r) list \<Rightarrow> bool" where
  "answers_of nodes answers \<longleftrightarrow> distinct (map fst answers) \<and> fst ` set answers \<subseteq> set nodes"

lemma answers_of_length: "answers_of nodes answers \<Longrightarrow> length answers \<le> length nodes"
proof -
  assume a: "answers_of nodes answers"
  then have "length answers = card (fst ` set answers)" unfolding answers_of_def by (metis distinct_card length_map list.set_map)
  also have "\<dots> \<le> card (set nodes)" using a by (intro card_mono) (simp_all add: answers_of_def)
  also have "\<dots> \<le> length nodes" by (rule card_length)
  finally show ?thesis .
qed

lemma n_ok_accepted: "distinct (map fst answers) \<Longrightarrow> n_ok (map snd answers) = card (accepted answers)"
proof (induction answers)
  case Nil
  then show ?case by (simp add: accepted_def)
next
  case (Cons a answers)
  have sub: "accepted answers \<subseteq> fst ` set answers" by (force simp: accepted_def)
  then have fin: "finite (accepted answers)" by (rule finite_subset) simp
  show ?case
  proof (cases "snd a")
    case None
    then have "accepted (a # answers) = insert (fst a) (accepted answers)" by (cases a) (auto simp: accepted_def)
    moreover have "fst a \<notin> accepted answers" using Cons.prems sub by auto
    ultimately show ?thesis using Cons fin None by (simp add: n_ok_def)
  next
    case (Some e)
    then have "accepted (a # answers) = accepted answers" by (cases a) (auto simp: accepted_def)
    then show ?thesis using Cons Some by (simp add: n_ok_def)
  qed
qed

lemma accepted_subset: "answers_of nodes answers \<Longrightarrow> accepted answers \<subseteq> set nodes"
  by (force simp: answers_of_def accepted_def)

text \<open>C36: a merge into the replicas of a partition succeeds exactly when a majority of them has accepted it, with as many as a quorum
  counted, whatever the order of the answers; it fails, with the number that did accept and the last specific error, only after every
  replica has answered and the majority was missed; until then its caller waits.\<close>

theorem Agent_Merge_quorum:
  assumes "replicaNodes \<noteq> []" "answers_of replicaNodes answers"
  shows "Agent_Merge replicaNodes answers =
    (let n = card (set replicaNodes); ok = card (accepted answers) in
     if NQuorum n \<le> ok then Some (n, NQuorum n, None)
     else if length answers = n then Some (n, ok, Some (last_error (map snd answers))) else None)"
proof -
  let ?nodes = "remdups replicaNodes"
  have n: "length ?nodes = card (set replicaNodes)" by (simp add: length_remdups_card_conv)
  have "answers_of ?nodes answers" using assms(2) by (simp add: answers_of_def)
  then have len: "length (map snd answers) \<le> length ?nodes" using answers_of_length by fastforce
  have d: "n_ok (map snd answers) = card (accepted answers)" using assms(2) by (intro n_ok_accepted) (simp add: answers_of_def)
  have "?nodes \<noteq> []" using assms(1) by simp
  from merge_answered [OF this NQuorum_majority(3) len] show ?thesis
    unfolding d by (auto simp: Agent_Merge_def Let_def n or_specific_def)
qed

theorem Agent_Merge_quorum_witness:
  "Agent_Merge [1, 2, 3, 2] [(3, Some EOther), (1, None), (2, None)] = Some (3, 2, None)
   \<and> Agent_Merge [1, 2, 3, 2] [(3, Some EOther), (1, None), (2, Some ESiteDoesNotExist)] = Some (3, 1, Some ESiteDoesNotExist)"
proof -
  have ok: "accepted [(3, Some EOther), (1, None), (2, None)] = {1, 2}" "accepted [(3, Some EOther), (1, None), (2, Some ESiteDoesNotExist)] = {1}"
    by (auto simp: accepted_def)
  have "answers_of [1, 2, 3, 2] [(3, Some EOther), (1, None), (2, None)]"
      "answers_of [1, 2, 3, 2] [(3, Some EOther), (1, None), (2, Some ESiteDoesNotExist)]" by (simp_all add: answers_of_def)
  from Agent_Merge_quorum [OF _ this(1)] Agent_Merge_quorum [OF _ this(2)] show ?thesis
    by (simp add: ok Let_def NQuorum_def last_error_def note_error_def insert_commute)
qed

lemma batch_attempts_success:
  assumes "distinct nodes" "\<And>nodes patch. answers_of nodes (answers nodes patch)" "1 < 2 * n" "length nodes \<le> n"
    and "batch_attempts client answers n re nodes = Some (m, k, None)"
  shows "m = n \<and> NQuorum n \<le> card (batch_holders client answers nodes) \<and> batch_holders client answers nodes \<subseteq> set nodes"
  using assms(1,4,5)
proof (induction nodes arbitrary: re)
  case (Cons nodeID nodes)
  show ?case
  proof (cases "client nodeID")
    case (Inl err)
    then show ?thesis using Cons.IH [of "note_error err re"] Cons.prems by auto
  next
    case (Inr patch)
    let ?as = "answers nodes patch"
    have as: "answers_of nodes ?as" by (rule assms(2))
    have sub: "accepted ?as \<subseteq> set nodes" by (rule accepted_subset [OF as])
    then have fin: "finite (accepted ?as)" "nodeID \<notin> accepted ?as" using Cons.prems(1) finite_subset by auto
    obtain j where m: "agent_merge nodes (NQuorum n - 1) (map snd ?as) = Some (j, None)" "m = n"
      using Cons.prems(3) Inr by (auto simp: or_specific_def split: if_splits prod.splits)
    have "NQuorum n - 1 \<le> card (accepted ?as)"
    proof (cases "nodes = [] \<or> NQuorum n - 1 = 0")
      case True
      then show ?thesis using m(1) by (auto simp: agent_merge_def split: if_splits)
    next
      case False
      have "length (map snd ?as) \<le> length nodes" using answers_of_length [OF as] by simp
      from merge_answered [OF _ _ this] False m(1) have "NQuorum n - 1 \<le> n_ok (map snd ?as)" by (auto split: if_splits)
      then show ?thesis using n_ok_accepted as by (simp add: answers_of_def)
    qed
    then have "NQuorum n \<le> card (insert nodeID (accepted ?as))" using fin by simp
    then show ?thesis using m(2) Inr sub by auto
  qed
qed simp

lemma attempt_order: "distinct nodes \<Longrightarrow> distinct (attempt_order local nodes) \<and> set (attempt_order local nodes) = set nodes"
  by (auto simp: attempt_order_def distinct_removeAll)

lemma Agent_Batch_holders:
  assumes "replicaNodes \<noteq> []" "\<And>nodes patch. answers_of nodes (answers nodes patch)"
    "Agent_Batch client answers local replicaNodes = Some (m, k, None)"
  shows "NQuorum (card (set replicaNodes)) \<le> card (batch_holders client answers (attempt_order local (remdups replicaNodes)))
    \<and> batch_holders client answers (attempt_order local (remdups replicaNodes)) \<subseteq> set replicaNodes"
proof -
  let ?nodes = "attempt_order local (remdups replicaNodes)"
  have o: "distinct ?nodes" "set ?nodes = set replicaNodes" using attempt_order [of "remdups replicaNodes" local] by simp_all
  have n: "length (remdups replicaNodes) = card (set replicaNodes)" by (simp add: length_remdups_card_conv)
  then have len: "length ?nodes = length (remdups replicaNodes)" using distinct_card [OF o(1)] o(2) by simp
  have pos: "1 < 2 * length (remdups replicaNodes)" using assms(1) by (cases "remdups replicaNodes") simp_all
  have "batch_attempts client answers (length (remdups replicaNodes)) ENoQuorum ?nodes = Some (m, k, None)"
    using assms(3) by (simp add: Agent_Batch_def Let_def)
  from batch_attempts_success [OF o(1) assms(2) pos _ this] len show ?thesis unfolding o(2) n by simp
qed

section \<open>Reads\<close>

type_synonym get_answer = "u64 \<times> (node_error + sibling_set option list)"

definition answer_sets :: "bytes list \<Rightarrow> get_answer \<Rightarrow> insertion list" where
  "answer_sets keys a = (case snd a of Inl err \<Rightarrow> [] | Inr sets \<Rightarrow> map2 (\<lambda>key ss. (fst a, string_of_bytes key, ss)) keys sets)"

definition all_sets :: "bytes list \<Rightarrow> get_answer list \<Rightarrow> insertion list" where
  "all_sets keys answers = concat (map (answer_sets keys) answers)"

definition readers :: "get_answer list \<Rightarrow> u64 set" where
  "readers answers = fst ` {a \<in> set answers. \<not> isl (snd a)}"

abbreviation n_reads :: "get_answer list \<Rightarrow> nat" where
  "n_reads answers \<equiv> length (filter (\<lambda>a. \<not> isl (snd a)) answers)"

lemma n_reads_readers: "distinct (map fst answers) \<Longrightarrow> card (readers answers) = n_reads answers"
proof -
  assume d: "distinct (map fst answers)"
  then have "distinct (map fst (filter (\<lambda>a. \<not> isl (snd a)) answers))" by (rule distinct_map_filter)
  from distinct_card [OF this] show ?thesis by (simp add: readers_def)
qed

lemma insert_replicas_all:
  "insert_replicas nodeID keys sets rm = Some rm' \<longleftrightarrow>
     length keys \<le> length sets \<and> rm' = insert_all (map2 (\<lambda>key ss. (nodeID, string_of_bytes key, ss)) keys sets) rm"
proof (induction keys arbitrary: sets rm)
  case Nil
  have "insert_replicas nodeID [] sets rm = Some rm' \<longleftrightarrow> rm' = rm" by auto
  then show ?case by simp
next
  case (Cons key keys)
  then show ?case by (cases sets) simp_all
qed

text \<open>The state of a read after some of the answers; the quorum is reached after \<open>ps\<close>.\<close>

definition quorum_result :: "nat \<Rightarrow> string \<Rightarrow> bytes list \<Rightarrow> get_answer list \<Rightarrow> sibling_set option list \<Rightarrow> bool" where
  "quorum_result n bucket keys answers result \<longleftrightarrow>
     (\<exists>ps qs. answers = ps @ qs \<and> n_reads ps = NQuorum n
        \<and> (\<forall>a \<in> set ps. \<forall>sets. snd a = Inr sets \<longrightarrow> length keys \<le> length sets)
        \<and> result = map (\<lambda>key. ReadMerger_Get (string_of_bytes key) (insert_all (all_sets keys ps) (NewReadMerger bucket))) keys)"

lemma quorum_result_snoc: "quorum_result n bucket keys answers result \<Longrightarrow> quorum_result n bucket keys (answers @ [a]) result"
  unfolding quorum_result_def by (metis append_assoc)

definition get_inv :: "nat \<Rightarrow> string \<Rightarrow> bytes list \<Rightarrow> get_answer list \<Rightarrow> get_run \<Rightarrow> bool" where
  "get_inv n bucket keys answers s \<longleftrightarrow>
     (\<forall>result. gr_verdict s = Some (Inr result) \<longrightarrow> quorum_result n bucket keys answers result)
   \<and> (\<not> gr_done s \<longrightarrow> nRead s = n_reads answers \<and> gr_merger s = insert_all (all_sets keys answers) (NewReadMerger bucket)
        \<and> (\<forall>a \<in> set answers. \<forall>sets. snd a = Inr sets \<longrightarrow> length keys \<le> length sets))"

lemma get_loop_snoc: "get_loop n keys (as @ [a]) s = Option.bind (get_loop n keys as s) (get_receive n keys a)"
  by (induction as arbitrary: s) (auto split: Option.bind_split)

lemma get_check_inv: "get_inv n bucket keys answers s \<Longrightarrow> \<not> gr_done s \<Longrightarrow> get_inv n bucket keys answers (get_check n s)"
  by (auto simp: get_inv_def get_check_def split: option.splits)

lemma get_receive_inv:
  assumes inv: "get_inv n bucket keys answers s" and step: "get_receive n keys a s = Some s'"
  shows "get_inv n bucket keys (answers @ [a]) s'"
proof (cases "gr_done s")
  case True
  then show ?thesis using assms quorum_result_snoc by (auto simp: get_receive_def get_inv_def)
next
  case False
  note old = inv [unfolded get_inv_def] False
  show ?thesis
  proof (cases "snd a")
    case (Inl err)
    let ?s = "s\<lparr>gr_failed := gr_failed s + 1, gr_error := note_error err (gr_error s)\<rparr>"
    have "get_inv n bucket keys (answers @ [a]) ?s"
      using old Inl quorum_result_snoc by (auto simp: get_inv_def all_sets_def answer_sets_def)
    then show ?thesis using get_check_inv [of n bucket keys _ ?s] step False Inl by (simp add: get_receive_def)
  next
    case (Inr sets)
    obtain rm where rm: "insert_replicas (fst a) keys sets (gr_merger s) = Some rm" using step False Inr by (auto simp: get_receive_def)
    let ?ins = "all_sets keys (answers @ [a])"
    have len: "length keys \<le> length sets" and rm': "rm = insert_all ?ins (NewReadMerger bucket)"
      using rm old Inr unfolding insert_replicas_all by (auto simp: all_sets_def answer_sets_def)
    let ?s1 = "s\<lparr>nRead := nRead s + 1, gr_merger := rm\<rparr>" and ?get = "\<lambda>key. ReadMerger_Get (string_of_bytes key) rm"
    let ?s2 = "if nRead ?s1 = NQuorum n then ?s1\<lparr>gr_verdict := Some (Inr (map ?get keys))\<rparr> else ?s1"
    have lens: "\<forall>a \<in> set (answers @ [a]). \<forall>sets. snd a = Inr sets \<longrightarrow> length keys \<le> length sets" using old len Inr by auto
    have n: "nRead ?s1 = n_reads (answers @ [a])" using old Inr by simp
    have here: "quorum_result n bucket keys (answers @ [a]) (map ?get keys)" if "nRead ?s1 = NQuorum n"
      unfolding quorum_result_def using that n lens rm' by (intro exI [of _ "answers @ [a]"] exI [of _ "[]"]) simp
    have "get_inv n bucket keys (answers @ [a]) ?s2"
      unfolding get_inv_def using old quorum_result_snoc here n lens rm' by (auto split: if_splits)
    then have "get_inv n bucket keys (answers @ [a]) (get_check n ?s2)" using False by (intro get_check_inv) simp_all
    moreover have "get_receive n keys a s = Some (get_check n ?s2)" using False Inr rm by (simp add: get_receive_def Let_def)
    ultimately show ?thesis using step by (metis option.inject)
  qed
qed

lemma get_loop_inv: "get_loop n keys answers (get_start n bucket) = Some s \<Longrightarrow> get_inv n bucket keys answers s"
proof (induction answers arbitrary: s rule: rev_induct)
  case Nil
  then show ?case by (auto simp: get_start_def get_check_def get_inv_def all_sets_def split: if_splits)
next
  case (snoc a answers)
  then obtain s1 where "get_loop n keys answers (get_start n bucket) = Some s1" "get_receive n keys a s1 = Some s"
    by (auto simp: get_loop_snoc split: Option.bind_splits)
  then show ?case using get_receive_inv snoc.IH by blast
qed

text \<open>What a merged answer knows of a sibling: it has it or one that superseded it.\<close>

definition knows :: "sibling set \<Rightarrow> sibling \<Rightarrow> bool" where
  "knows S x \<longleftrightarrow> (\<exists>y \<in> S. x = y \<or> sib_before x y)"


text \<open>Three replicas; the write is on the first two, the read hears the third and then the second.\<close>

definition ex_acks :: "u64 list \<Rightarrow> unit \<Rightarrow> answers" where
  "ex_acks nodes patch = map (\<lambda>n. (n, if n = 3 then Some EOther else None)) (remdups nodes)"

definition ex_answers :: "get_answer list" where
  "ex_answers = [(3, Inr [None]), (2, Inr [Some [(0, ex_a1)]])]"

lemma ex_read: "map_option gr_verdict (Agent_Get [1, 2, 3] ''default'' [[107]] ex_answers) = Some (Some (Inr [Some [(0, ex_a1)]]))"
  by code_simp


section \<open>Read repair\<close>

lemma map_of_patch: "map_of (map (\<lambda>(k, v). (k, f k v)) xs) key = map_option (f key) (map_of xs key)"
  by (induction xs) auto

lemma map_of_filter_values:
  "distinct (map fst xs) \<Longrightarrow> map_of (filter (\<lambda>(k, v). Q v) xs) key = (case map_of xs key of None \<Rightarrow> None | Some v \<Rightarrow> if Q v then Some v else None)"
  by (induction xs) (auto simp: map_of_eq_None_iff split: option.split)

text \<open>The version of a key a node answered with, and what a repair sends it for the key.\<close>

definition version_of :: "read_merger \<Rightarrow> u64 \<Rightarrow> string \<Rightarrow> sibling_set" where
  "version_of rm nodeID key = (case Option.bind (map_of (keyVersions rm) key) (\<lambda>versions. map_of versions nodeID) of None \<Rightarrow> [] | Some v \<Rightarrow> v)"

definition repair_of :: "(u64 \<times> (string \<times> sibling_set) list) list \<Rightarrow> u64 \<Rightarrow> string \<Rightarrow> sibling_set" where
  "repair_of messages nodeID key = (case Option.bind (map_of messages nodeID) (\<lambda>patch. map_of patch key) of None \<Rightarrow> [] | Some ss \<Rightarrow> ss)"

lemma repair_messages_node:
  assumes "nodeID \<in> set (ReadMerger_Nodes rm)"
  shows "map_of (repair_messages rm) nodeID =
    (let patch = filter (\<lambda>(key, siblingSet). Size siblingSet \<noteq> 0) (Patch nodeID rm) in if length patch = 0 then None else Some patch)"
proof -
  let ?f = "\<lambda>n. let patch = filter (\<lambda>(key, siblingSet). Size siblingSet \<noteq> 0) (Patch n rm) in if length patch = 0 then None else Some patch"
  have "map_of (concat (map (\<lambda>n. let patch = filter (\<lambda>(key, siblingSet). Size siblingSet \<noteq> 0) (Patch n rm)
      in if length patch = 0 then [] else [(n, patch)]) ns)) nodeID = (if nodeID \<in> set ns then ?f nodeID else None)" for ns
    by (induction ns) (auto simp: Let_def)
  then show ?thesis using assms by (simp add: repair_messages_def)
qed

lemma repair_of_key:
  assumes "nodeID \<in> set (ReadMerger_Nodes rm)" "distinct (map fst (keyVersions rm))" "map_of (keyVersions rm) key = Some versions"
    "map_of (mergedKeys rm) key = Some all"
  shows "repair_of (repair_messages rm) nodeID key = (case map_of versions nodeID of Some v \<Rightarrow> SiblingSet_Diff v all | None \<Rightarrow> all)"
proof -
  let ?d = "case map_of versions nodeID of Some v \<Rightarrow> SiblingSet_Diff v all | None \<Rightarrow> all"
  let ?f = "\<lambda>key versions. case map_of (mergedKeys rm) key of None \<Rightarrow> [] | Some all \<Rightarrow> case map_of versions nodeID of Some v \<Rightarrow> SiblingSet_Diff v all | None \<Rightarrow> all"
  have patch: "Patch nodeID rm = map (\<lambda>(k, v). (k, ?f k v)) (keyVersions rm)"
    by (auto simp: Patch_def split: option.split)
  have keys: "distinct (map fst (Patch nodeID rm))"
    using assms(2) by (simp add: patch comp_def case_prod_beta)
  have "map_of (Patch nodeID rm) key = Some ?d" unfolding patch map_of_patch using assms(3,4) by simp
  then have found: "map_of (filter (\<lambda>(key, siblingSet). Size siblingSet \<noteq> 0) (Patch nodeID rm)) key = (if Size ?d \<noteq> 0 then Some ?d else None)"
    using map_of_filter_values [OF keys, of "\<lambda>ss. Size ss \<noteq> 0" key] by simp
  show ?thesis
  proof (cases "filter (\<lambda>(key, siblingSet). Size siblingSet \<noteq> 0) (Patch nodeID rm) = []")
    case True
    then have "Size ?d = 0" using found by (auto split: if_splits)
    then have "?d = []" by (simp add: Size_def)
    then show ?thesis using repair_messages_node [OF assms(1)] True by (simp add: repair_of_def)
  next
    case False
    have "?d = []" if "Size ?d = 0" using that by (simp add: Size_def)
    then show ?thesis using repair_messages_node [OF assms(1)] False found by (auto simp: repair_of_def Let_def)
  qed
qed

text \<open>C37: read repair brings every replica that took part in a read up to date: merging what the repair sends it into the set it answered
  with gives the causally maximal siblings of all answers, for every key any of them had an answer for; a replica that lacks nothing
  is sent nothing of the key.\<close>

theorem read_repair_complete:
  assumes U: "causal_universe U" and good: "good_insertions U ins" and rm: "rm = insert_all ins (NewReadMerger bucket)"
    and node: "nodeID \<in> set (ReadMerger_Nodes rm)" and key: "(n, key, ss) \<in> set ins"
  shows "siblings_of (Sync (version_of rm nodeID key) (repair_of (fst (BeginRepair rm NewReadRepairer)) nodeID key)) = maximal sib_before (inserted ins key)"
proof -
  have messages: "fst (BeginRepair rm NewReadRepairer) = repair_messages rm" by (simp add: BeginRepair_def NewReadRepairer_def)
  obtain all where all: "map_of (mergedKeys rm) key = Some all" "good_set U all" "siblings_of all = maximal sib_before (inserted ins key)"
    using merged_answers [OF U good, where key = key and bucket = bucket] key by (auto simp: rm split: option.splits)
  then obtain versions where versions: "map_of (keyVersions rm) key = Some versions" using versions_merged [of ins bucket key] by (auto simp: rm)
  have patch: "repair_of (repair_messages rm) nodeID key = (case map_of versions nodeID of Some v \<Rightarrow> SiblingSet_Diff v all | None \<Rightarrow> all)"
    using repair_of_key [OF node _ versions all(1)] distinct_versions [of ins bucket] by (simp add: rm)
  show ?thesis
  proof (cases "map_of versions nodeID")
    case None
    have "siblings_of (Sync [] all) = maximal sib_before (siblings_of [] \<union> siblings_of all)"
      using all(2) by (intro Sync_good(2) [OF U]) (simp_all add: good_set_def antichain_def)
    also have "\<dots> = siblings_of all" using all(2) by (simp add: maximal_antichain good_set_def)
    finally show ?thesis using None patch all(3) by (simp add: messages version_of_def versions)
  next
    case (Some v)
    obtain ss' where ss': "(nodeID, key, ss') \<in> set ins" "v = (case ss' of None \<Rightarrow> [] | Some ss \<Rightarrow> ss)"
      using versions_inserted [of ins bucket key versions nodeID v] versions Some by (auto simp: rm)
    have v: "good_set U v" using ss' good by (auto simp: good_insertions_def good_set_def antichain_def split: option.splits)
    have sub: "siblings_of v \<subseteq> inserted ins key" using ss' by (auto simp: inserted_def set_of_def split: option.splits)
    have "siblings_of (Sync v (SiblingSet_Diff v all)) = siblings_of (Sync v all)"
      using v all(2) by (intro Diff_sufficient [OF U]) (simp_all add: good_set_def)
    also have "\<dots> = maximal sib_before (siblings_of v \<union> maximal sib_before (inserted ins key))"
      using Sync_good(2) [OF U v all(2)] all(3) by simp
    also have "\<dots> = maximal sib_before (inserted ins key)"
      using so.maximal_Un [OF finite_inserted, of ins key "siblings_of v"] sub by (simp add: Un_commute Un_absorb1 Un_absorb2 sup.absorb2)
    finally show ?thesis using Some patch by (simp add: messages version_of_def versions)
  qed
qed

definition ex_insertions :: "insertion list" where
  "ex_insertions = [(1, ''k'', Some [(0, ex_a1)]), (2, ''k'', None)]"

theorem read_repair_complete_witness:
  "siblings_of (Sync (version_of (insert_all ex_insertions (NewReadMerger ''default'')) 2 ''k'')
      (repair_of (fst (BeginRepair (insert_all ex_insertions (NewReadMerger ''default'')) NewReadRepairer)) 2 ''k'')) = {ex_a1}"
proof -
  have good: "good_insertions {ex_a1, ex_b1, ex_b2} ex_insertions"
    using ex_antichains by (auto simp: good_insertions_def ex_insertions_def good_set_def)
  have node: "2 \<in> set (ReadMerger_Nodes (insert_all ex_insertions (NewReadMerger ''default'')))"
    by (simp add: ex_insertions_def NewReadMerger_def InsertKeyReplica_def ReadMerger_Nodes_def NewSiblingSet_def Let_def)
  have key: "(1, ''k'', Some [(0, ex_a1)]) \<in> set ex_insertions" by (simp add: ex_insertions_def)
  have "inserted ([] @ [(1, ''k'', Some [(0, ex_a1)])]) ''k'' = {ex_a1}" unfolding inserted_snoc by (simp add: inserted_def set_of_def)
  then have all: "inserted ex_insertions ''k'' = {ex_a1}"
    using inserted_snoc [of "[(1, ''k'', Some [(0, ex_a1)])]" 2 "''k''" None "''k''"] by (simp add: ex_insertions_def set_of_def)
  have single: "maximal sib_before {ex_a1} = {ex_a1}" by (auto simp: maximal_def sib_before_def)
  show ?thesis using read_repair_complete [OF ex_causal good refl node key] unfolding all single .
qed

section \<open>Goroutines that never end\<close>

text \<open>C38: once a prefix read has its quorum, a further answer whose iteration fails blocks the goroutine for good: it sends the quorum a
  second time and nobody receives. Whatever answers follow, the replicas that answered are not repaired and the operation stays among
  those in flight.\<close>

theorem GetMatches_blocks_after_quorum:
  assumes n: "n = length (remdups replicaNodes)" "NQuorum n < n"
    and quorum: "length complete = NQuorum n" "\<forall>a \<in> set complete. \<exists>es. snd a = Inr (es, False)"
  shows "matches_finish opID (Agent_GetMatches replicaNodes bucket (complete @ (nodeID, Inr (es, True)) # rest)) ops rr = ([], ops, rr)"
proof -
  let ?start = "matches_start n bucket"
  have ins: "gm_read (insert_matches nd es s) = gm_read s" "gm_failed (insert_matches nd es s) = gm_failed s"
      "gm_stuck (insert_matches nd es s) = gm_stuck s" "gm_done (insert_matches nd es s) = gm_done s" "gm_verdict (insert_matches nd es s) = gm_verdict s"
    for nd es s by (induction nd es s rule: insert_matches.induct) simp_all
  have run: "let s = fold (matches_receive n) as ?start in gm_read s = length as \<and> gm_failed s = 0 \<and> \<not> gm_stuck s \<and> \<not> gm_done s
      \<and> (gm_verdict s = None \<longleftrightarrow> length as < NQuorum n)"
    if "length as \<le> NQuorum n" "\<forall>a \<in> set as. \<exists>es. snd a = Inr (es, False)" for as
    using that
  proof (induction as rule: rev_induct)
    case Nil
    then show ?case using n(2) by (simp add: matches_start_def matches_check_def NQuorum_def)
  next
    case (snoc a as)
    obtain es where "snd a = Inr (es, False)" using snoc.prems(2) by auto
    then show ?case using snoc n(2) by (simp add: matches_receive_def matches_check_def Let_def ins split: option.splits)
  qed
  let ?s = "fold (matches_receive n) complete ?start"
  have s: "gm_read ?s = NQuorum n" "\<not> gm_stuck ?s" "\<not> gm_done ?s" "gm_verdict ?s \<noteq> None"
    using run [of complete] quorum by (simp_all add: Let_def)
  let ?s' = "matches_receive n (nodeID, Inr (es, True)) ?s"
  have "gm_stuck ?s'" "\<not> gm_done ?s'" using s by (auto simp: matches_receive_def matches_check_def Let_def ins split: option.splits)
  moreover have "fold (matches_receive n) rest s = s" if "gm_stuck s" for s using that by (induction rest) (simp_all add: matches_receive_def)
  ultimately have "\<not> gm_done (Agent_GetMatches replicaNodes bucket (complete @ (nodeID, Inr (es, True)) # rest))"
    by (simp add: Agent_GetMatches_def n(1) [symmetric])
  then show ?thesis by (simp add: matches_finish_def)
qed

theorem GetMatches_blocks_after_quorum_witness:
  "matches_finish 5 (Agent_GetMatches [1, 2, 3] ''default'' ([(1, Inr ([], False)), (2, Inr ([], False))] @ (3, Inr ([], True)) # []))
     \<lparr>nextOperationID = 6, operationCancellers = [5]\<rparr> NewReadRepairer = ([], \<lparr>nextOperationID = 6, operationCancellers = [5]\<rparr>, NewReadRepairer)"
  by (rule GetMatches_blocks_after_quorum [of 3]) (simp_all add: NQuorum_def)

text \<open>A status request none of whose answers is an error: it is blocked, or no connected relay was reported twice.\<close>

definition status_inv :: "nat \<Rightarrow> (node_error + relay_status) list \<Rightarrow> status_run \<Rightarrow> bool" where
  "status_inv n as s \<longleftrightarrow>
     (if rs_stuck s then \<not> rs_done s
      else rs_read s = length as \<and> rs_failed s = 0 \<and> rs_error s = None \<and> (rs_done s \<longleftrightarrow> length as = n)
        \<and> (if rs_done s then \<forall>r. Inr r \<in> set as \<longrightarrow> \<not> Connected r
           else (rs_verdict s = None) = (\<forall>r. Inr r \<in> set as \<longrightarrow> \<not> Connected r)))"

lemma status_receive_inv:
  assumes inv: "status_inv n as s" and len: "length as < n"
  shows "status_inv n (as @ [Inr r]) (status_receive n (Inr r) s)"
proof (cases "rs_stuck s")
  case True
  then show ?thesis using inv by (simp add: status_inv_def status_receive_def)
next
  case False
  have s: "rs_read s = length as" "rs_failed s = 0" "rs_error s = None" "\<not> rs_done s"
      "(rs_verdict s = None) = (\<forall>r. Inr r \<in> set as \<longrightarrow> \<not> Connected r)"
    using inv False len by (auto simp: status_inv_def)
  note defs = status_receive_def status_check_def send_status_def Let_def
  show ?thesis
  proof (cases "rs_verdict s")
    case None
    then have "\<forall>r. Inr r \<in> set as \<longrightarrow> \<not> Connected r" using s(5) by simp
    then show ?thesis using None s(1-4) False len by (cases "Connected r"; cases "Suc (length as) < n") (auto simp: defs status_inv_def)
  next
    case (Some v)
    then have "\<exists>r. Inr r \<in> set as \<and> Connected r" using s(5) by simp
    then show ?thesis using Some s(1-4) False len by (cases "Connected r"; cases "Suc (length as) < n") (auto simp: defs status_inv_def)
  qed
qed

text \<open>C39: the goroutine of a status request that found the relay never ends when no node reported an error: after the result it sends
  a second one.\<close>

theorem RelayStatus_blocks:
  assumes n: "length answers = length (remdups replicaNodes)" and ok: "\<forall>a \<in> set answers. \<not> isl a"
    and found: "Inr r \<in> set answers" "Connected r"
  shows "rs_stuck (Agent_RelayStatus replicaNodes answers) \<and> \<not> rs_done (Agent_RelayStatus replicaNodes answers)"
proof -
  let ?n = "length (remdups replicaNodes)"
  define start where "start = status_check ?n \<lparr>rs_read = 0, rs_failed = 0, rs_error = None, rs_verdict = None, rs_stuck = False, rs_done = False\<rparr>"
  have pos: "0 < ?n" unfolding n [symmetric] using found(1) by (cases answers) simp_all
  have run: "status_inv ?n as (fold (status_receive ?n) as start)" if "length as \<le> ?n" "\<forall>a \<in> set as. \<not> isl a" for as
    using that
  proof (induction as rule: rev_induct)
    case Nil
    then show ?case using pos by (simp add: start_def status_check_def status_inv_def)
  next
    case (snoc a as)
    obtain r where a: "a = Inr r" using snoc.prems(2) by (cases a) auto
    have "status_inv ?n (as @ [Inr r]) (status_receive ?n (Inr r) (fold (status_receive ?n) as start))"
      using snoc a by (intro status_receive_inv) simp_all
    then show ?case by (simp add: a)
  qed
  have "status_inv ?n answers (Agent_RelayStatus replicaNodes answers)"
    using run [of answers] n ok by (simp add: Agent_RelayStatus_def Let_def start_def)
  then show ?thesis using found n unfolding status_inv_def by (metis (full_types))
qed

theorem RelayStatus_blocks_witness:
  "rs_stuck (Agent_RelayStatus [1] [Inr \<lparr>Connected = True, ConnectedTo = 1, Ping = 3, rs_Site = ''s''\<rparr>])
   \<and> \<not> rs_done (Agent_RelayStatus [1] [Inr \<lparr>Connected = True, ConnectedTo = 1, Ping = 3, rs_Site = ''s''\<rparr>])"
  by (rule RelayStatus_blocks [where r = "\<lparr>Connected = True, ConnectedTo = 1, Ping = 3, rs_Site = ''s''\<rparr>"]) simp_all

end
