(* ===== verification/Monitor_Properties.thy ===== *)
theory Monitor_Properties
  imports Monitor
begin

text \<open>The delivery property of the monitor, with a witness.\<close>

text \<open>C0: however the rows of consecutive versions are submitted to the monitor, each listener is sent every row it listens for, once and in
  ascending version, none is left waiting, and the monitor has advanced to the last version. Discarded versions are skipped.\<close>

theorem Monitor_delivers_all:
  assumes "numbered R (previousVersion m) n" "updateHeap m = []" "mset js = mset [0..<n]"
  shows "let m' = fold (\<lambda>j. Notify (R j)) js m in
    listeners m' = map (\<lambda>l. l\<lparr>l_ch := l_ch l @ filter (\<lambda>r. row_Key r \<noteq> '''' \<and> isListeningFor l r) (map R [0..<n])\<rparr>) (listeners m)
    \<and> updateHeap m' = [] \<and> unat (previousVersion m') = unat (previousVersion m) + n"
proof -
  have "distinct [0..<n]" "set [0..<n] = {..<n}" by (simp_all add: lessThan_atLeast0)
  then have js: "distinct js" "set js = {..<n}"
    using mset_eq_imp_distinct_iff [OF assms(3)] mset_eq_setD [OF assms(3)] by (simp_all only:)
  have "progress R (previousVersion m) m 0 [] m" by (simp add: progress_def delivered_def wanted_def)
  then have "caught_up R (previousVersion m) m {} m" using assms(2) unfolding caught_up_def by (intro exI [of _ 0] exI [of _ "[]"]) simp
  then have "caught_up R (previousVersion m) m ({} \<union> set js) (fold (\<lambda>j. submitUpdate (R j)) js m)"
    using js by (intro submit_all_caught_up [OF assms(1)]) auto
  moreover have "(\<lambda>j. Notify (R j)) = (\<lambda>j. submitUpdate (R j))" by (simp add: Notify_def fun_eq_iff)
  ultimately show ?thesis using caught_up_all [of R "previousVersion m" m n] js(2)
    by (simp add: Let_def delivered_def wanted_def)
qed

definition ex_row :: "nat \<Rightarrow> row" where
  "ex_row i = \<lparr>row_Key = (if i = 1 then '''' else ''k''), LocalVersion = 5 + of_nat i, Siblings = None\<rparr>"

definition ex_monitor :: monitor where
  "ex_monitor = AddListener [[107]] [] [] (NewMonitor 4)"

theorem Monitor_delivers_all_witness:
  "map l_ch (listeners (fold (\<lambda>j. Notify (ex_row j)) [2, 0, 1] ex_monitor)) = [[ex_row 0, ex_row 2]]
   \<and> previousVersion (fold (\<lambda>j. Notify (ex_row j)) [2, 0, 1] ex_monitor) = 7"
proof -
  have "numbered ex_row (previousVersion ex_monitor) 3"
    by (auto simp: numbered_def ex_row_def ex_monitor_def AddListener_def NewMonitor_def)
  moreover have "mset [2, 0, 1] = mset [0..<3]" by (simp add: upt_rec)
  moreover have "string_of_bytes [107] = ''k''" by code_simp
  ultimately show ?thesis using Monitor_delivers_all [of ex_row ex_monitor 3 "[2, 0, 1]"]
    by (simp add: Let_def ex_monitor_def AddListener_def NewMonitor_def isListeningFor_def upt_rec ex_row_def word_unat_eq_iff)
qed

end
