(* ===== verification/Spec2Isabelle.thy ===== *)
theory Spec2Isabelle
  imports Data_Properties Merkle_Properties Cluster_Properties Sync_Properties Sync_Exploration Cluster_IO_Properties Monitor_Properties
begin

text \<open>
  A model of the core of DeviceDB and the theorems that make it correct: see the theories it imports.
\<close>

end
